(* ===== verification/Buckets_Prelude.thy ===== *)
theory Buckets_Prelude
  imports Main "HOL-Library.Word"
begin

text \<open>
  What every component of the development shares: the C types of
  \<^verbatim>\<open>src/include/buckets.h\<close> (fixed-width unsigned integers as words, signed ones as
  integers with their range), the error codes, the byte and string functions of
  the C library that the sources use (\<^verbatim>\<open>memcpy\<close>, \<^verbatim>\<open>snprintf\<close> into a fixed buffer,
  \<^verbatim>\<open>strchr\<close>, \<^verbatim>\<open>strstr\<close>, \<^verbatim>\<open>%d\<close> printing and \<^verbatim>\<open>strtol\<close>-style reading), and the generic
  lemmas on lists and words that carry the component proofs.
\<close>

unbundle bit_operations_syntax

named_theorems wf_intros
named_theorems frame_simps

section \<open>Types of the code\<close>

type_synonym u8 = "8 word"
type_synonym u16 = "16 word"
type_synonym u32 = "32 word"
type_synonym u64 = "64 word"

type_synonym bytes = "u8 list"

abbreviation i32_min :: int where "i32_min \<equiv> - 2147483648"
abbreviation i32_max :: int where "i32_max \<equiv> 2147483647"
abbreviation i64_min :: int where "i64_min \<equiv> - 9223372036854775808"
abbreviation i64_max :: int where "i64_max \<equiv> 9223372036854775807"

definition in_i32 :: "int \<Rightarrow> bool" where
  "in_i32 x \<longleftrightarrow> i32_min \<le> x \<and> x \<le> i32_max"

definition in_i64 :: "int \<Rightarrow> bool" where
  "in_i64 x \<longleftrightarrow> i64_min \<le> x \<and> x \<le> i64_max"

text \<open>The conversion of a wider value to a 32-bit \<^verbatim>\<open>int\<close>, as the compilers the build
  uses define it: reduction modulo \<open>2 ^ 32\<close> into the signed range.\<close>

definition to_i32 :: "int \<Rightarrow> int" where
  "to_i32 x = (x + 2147483648) mod 4294967296 - 2147483648"

lemma to_i32_id [simp]: "in_i32 x \<Longrightarrow> to_i32 x = x"
  by (simp add: in_i32_def to_i32_def)

lemma to_i32_range: "in_i32 (to_i32 x)"
  by (simp add: in_i32_def to_i32_def)

datatype buckets_error =
    BUCKETS_OK
  | BUCKETS_ERR_NOMEM
  | BUCKETS_ERR_INVALID_ARG
  | BUCKETS_ERR_NOT_FOUND
  | BUCKETS_ERR_EXISTS
  | BUCKETS_ERR_IO
  | BUCKETS_ERR_NETWORK
  | BUCKETS_ERR_TIMEOUT
  | BUCKETS_ERR_QUORUM
  | BUCKETS_ERR_CORRUPT
  | BUCKETS_ERR_UNSUPPORTED
  | BUCKETS_ERR_CRYPTO
  | BUCKETS_ERR_INIT
  | BUCKETS_ERR_RPC
  | BUCKETS_ERR_ACCESS_DENIED
  | BUCKETS_ERR_LIMIT
  | BUCKETS_ERR_INTERNAL

text \<open>The outcome of an operation: a value, an error code, or \<open>Undefined\<close> where the
  C code has no defined behaviour (a read or write outside an object, a signed
  overflow, a null dereference).\<close>

datatype 'a outcome = Ok 'a | Fail buckets_error | Undefined

text \<open>The result of an operation on signed 64-bit integers: undefined on overflow.\<close>

definition i64_result :: "int \<Rightarrow> int outcome" where
  "i64_result x = (if in_i64 x then Ok x else Undefined)"

lemma i64_result_Ok [simp]: "i64_result x = Ok y \<longleftrightarrow> y = x \<and> in_i64 x"
  by (auto simp: i64_result_def)

lemma i64_result_not_Fail [simp]: "i64_result x \<noteq> Fail e"
  by (simp add: i64_result_def)

lemma i64_result_in [simp]: "in_i64 x \<Longrightarrow> i64_result x = Ok x"
  by simp

section \<open>Lists\<close>

lemma length_filter_mono:
  "(\<And>x. x \<in> set xs \<Longrightarrow> P x \<Longrightarrow> Q x) \<Longrightarrow> length (filter P xs) \<le> length (filter Q xs)"
  by (induction xs) (auto simp: le_SucI)

section \<open>Byte buffers\<close>

text \<open>\<^verbatim>\<open>memcpy(dst + off, src, n)\<close> into an array that has room for it.\<close>

definition memcpy :: "'a list \<Rightarrow> nat \<Rightarrow> 'a list \<Rightarrow> nat \<Rightarrow> 'a list" where
  "memcpy dst off src n = take off dst @ take n src @ drop (off + n) dst"

lemma length_memcpy [simp]:
  "off + n \<le> length dst \<Longrightarrow> n \<le> length src \<Longrightarrow> length (memcpy dst off src n) = length dst"
  by (simp add: memcpy_def)

lemma take_memcpy:
  "off + n \<le> length dst \<Longrightarrow> n \<le> length src \<Longrightarrow>
   take (off + n) (memcpy dst off src n) = take off dst @ take n src"
  by (simp add: memcpy_def)

lemma ucast_of_nat_byte [simp]: "(ucast (of_nat n :: u64) :: u8) = of_nat n"
  by (rule bit_word_eqI) (simp add: bit_simps)

text \<open>A little-endian number of any width, least significant byte first.\<close>

fun le_word :: "bytes \<Rightarrow> 'a::len word" where
  "le_word [] = 0"
| "le_word (b # bs) = ucast b OR push_bit 8 (le_word bs)"

primrec le_bytes :: "nat \<Rightarrow> 'a::len word \<Rightarrow> bytes" where
  "le_bytes 0 v = []"
| "le_bytes (Suc n) v = ucast v # le_bytes n (drop_bit 8 v)"

lemma length_le_bytes [simp]: "length (le_bytes n v) = n"
  by (induction n arbitrary: v) simp_all

lemma bit_ucast_byte: "bit (ucast (b :: u8) :: 'a::len word) i \<longleftrightarrow> i < LENGTH('a) \<and> i < 8 \<and> bit b i"
  by (auto simp: bit_simps dest: bit_imp_le_length)

lemma le_word_le_bytes: "le_word (le_bytes n v) = take_bit (8 * n) (v :: 'a::len word)"
proof (induction n arbitrary: v)
  case (Suc n)
  show ?case
    by (rule bit_word_eqI) (auto simp: Suc bit_simps)
qed simp

lemma le_word_bound: "bit (le_word bs :: 'a::len word) i \<Longrightarrow> i < 8 * length bs"
proof (induction bs arbitrary: i)
  case (Cons b bs)
  then have "bit b i \<or> 8 \<le> i \<and> bit (le_word bs :: 'a word) (i - 8)"
    by (auto simp: bit_simps)
  then show ?case
    using Cons.IH [of "i - 8"] bit_imp_le_length [of b i] by auto
qed simp

lemma le_bytes_le_word:
  "8 * length bs \<le> LENGTH('a::len) \<Longrightarrow> le_bytes (length bs) (le_word bs :: 'a word) = bs"
proof (induction bs)
  case (Cons b bs)
  have "ucast (le_word (b # bs) :: 'a word) = b"
    using Cons.prems by (intro bit_word_eqI) (auto simp: bit_simps bit_ucast_byte)
  moreover have "drop_bit 8 (le_word (b # bs) :: 'a word) = le_word bs"
    using Cons.prems by (intro bit_word_eqI) (auto simp: bit_simps dest: le_word_bound bit_imp_le_length)
  ultimately show ?case using Cons by simp
qed simp

lemma bit_le_word:
  "bit (le_word bs :: 'a::len word) i \<longleftrightarrow>
   i < LENGTH('a) \<and> i div 8 < length bs \<and> bit (bs ! (i div 8)) (i mod 8)"
proof (induction bs arbitrary: i)
  case (Cons b bs)
  show ?case
  proof (cases "i < 8")
    case True
    then show ?thesis by (auto simp: bit_simps)
  next
    case False
    then obtain j where j: "i = j + 8" by (metis le_add_diff_inverse2 not_less)
    have "\<not> bit b i" using False bit_imp_le_length [of b i] by auto
    moreover have "(j + 8) div 8 = Suc (j div 8)" by simp
    ultimately show ?thesis
      using j by (auto simp: bit_simps Cons)
  qed
qed simp

lemma ucast_le_word:
  assumes "8 * length bs \<le> LENGTH('a::len)"
  shows "(ucast (le_word bs :: 'a word) :: 'b::len word) = le_word bs"
proof (rule bit_word_eqI)
  fix i
  have "i div 8 < length bs \<Longrightarrow> i < LENGTH('a)"
    using assms by (simp add: div_less_iff_less_mult)
  then show "bit (ucast (le_word bs :: 'a word) :: 'b word) i = bit (le_word bs :: 'b word) i"
    if "i < LENGTH('b)"
    using that by (auto simp: bit_le_word bit_simps)
qed

lemma list8E:
  assumes "8 \<le> length p"
  obtains a b c d e f g h r where "p = a # b # c # d # e # f # g # h # r"
  using assms by (auto simp: numeral_eq_Suc Suc_le_length_iff)

lemma le_word_8:
  "8 \<le> length p \<Longrightarrow>
   ucast (p ! 0) OR push_bit 8 (ucast (p ! 1)) OR
   push_bit 16 (ucast (p ! 2)) OR push_bit 24 (ucast (p ! 3)) OR
   push_bit 32 (ucast (p ! 4)) OR push_bit 40 (ucast (p ! 5)) OR
   push_bit 48 (ucast (p ! 6)) OR push_bit 56 (ucast (p ! 7)) = (le_word (take 8 p) :: 'a::len word)"
  by (erule list8E)
    (simp add: numeral_eq_Suc push_bit_or push_bit_push_bit or.assoc)

section \<open>C strings\<close>

text \<open>A C string is its characters before the terminator; a string built by the
  code never contains the NUL character.\<close>

definition cstring :: "string \<Rightarrow> bool" where
  "cstring s \<longleftrightarrow> CHR 0x00 \<notin> set s"

text \<open>The bytes of a string.\<close>

definition str_bytes :: "string \<Rightarrow> bytes" where
  "str_bytes s = map of_char s"

lemma length_str_bytes [simp]: "length (str_bytes s) = length s"
  by (simp add: str_bytes_def)

text \<open>\<^verbatim>\<open>snprintf(buf, n, "%s", s)\<close> and \<^verbatim>\<open>strncpy\<close> followed by termination keep at most
  \<open>n - 1\<close> characters.\<close>

definition snprintf_s :: "nat \<Rightarrow> string \<Rightarrow> string" where
  "snprintf_s n s = take (n - 1) s"

lemma snprintf_s_id [simp]: "length s < n \<Longrightarrow> snprintf_s n s = s"
  by (simp add: snprintf_s_def)

text \<open>\<^verbatim>\<open>strchr\<close>: the text before the first occurrence and the text after it.\<close>

fun strchr :: "char \<Rightarrow> string \<Rightarrow> (string \<times> string) option" where
  "strchr c [] = None"
| "strchr c (x # xs) =
     (if x = c then Some ([], xs)
      else (case strchr c xs of None \<Rightarrow> None | Some (a, b) \<Rightarrow> Some (x # a, b)))"

lemma strchr_None_iff: "strchr c s = None \<longleftrightarrow> c \<notin> set s"
  by (induction s) (auto split: option.splits)

lemma strchr_append [simp]: "c \<notin> set a \<Longrightarrow> strchr c (a @ c # b) = Some (a, b)"
  by (induction a) auto

lemma strchr_SomeD: "strchr c s = Some (a, b) \<Longrightarrow> s = a @ c # b \<and> c \<notin> set a"
  by (induction s arbitrary: a b) (auto split: if_splits option.splits)

text \<open>\<^verbatim>\<open>strncmp(s, prefix, strlen(prefix)) == 0\<close>.\<close>

definition starts_with :: "string \<Rightarrow> string \<Rightarrow> bool" where
  "starts_with prefix s \<longleftrightarrow> take (length prefix) s = prefix"

text \<open>\<^verbatim>\<open>strstr\<close>: the text before the first occurrence and the text from it on.\<close>

fun strstr :: "string \<Rightarrow> string \<Rightarrow> (string \<times> string) option" where
  "strstr n [] = (if n = [] then Some ([], []) else None)"
| "strstr n (x # xs) =
     (if starts_with n (x # xs) then Some ([], x # xs)
      else (case strstr n xs of None \<Rightarrow> None | Some (a, b) \<Rightarrow> Some (x # a, b)))"

lemma strstr_SomeD: "strstr n s = Some (a, b) \<Longrightarrow> s = a @ b \<and> starts_with n b"
  by (induction s arbitrary: a b) (auto simp: starts_with_def split: if_splits option.splits)

section \<open>Decimal numbers\<close>

definition digit_char :: "nat \<Rightarrow> char" where
  "digit_char d = ''0123456789'' ! d"

definition digit_val :: "char \<Rightarrow> nat option" where
  "digit_val c = (let n = of_char c in if 48 \<le> n \<and> n \<le> 57 then Some (n - 48) else None)"

lemma digit_val_digit_char [simp]: "d < 10 \<Longrightarrow> digit_val (digit_char d) = Some d"
proof -
  assume "d < 10"
  then have "d \<in> {0, 1, 2, 3, 4, 5, 6, 7, 8, 9}" by auto
  then show "digit_val (digit_char d) = Some d"
    by (elim insertE) (simp_all add: digit_val_def digit_char_def)
qed

text \<open>\<^verbatim>\<open>%u\<close> and \<^verbatim>\<open>%d\<close>.\<close>

fun dec_nat :: "nat \<Rightarrow> string" where
  "dec_nat n = (if n < 10 then [digit_char n] else dec_nat (n div 10) @ [digit_char (n mod 10)])"

declare dec_nat.simps [simp del]

definition dec_int :: "int \<Rightarrow> string" where
  "dec_int i = (if i < 0 then CHR ''-'' # dec_nat (nat (- i)) else dec_nat (nat i))"

text \<open>The digit loop of \<^verbatim>\<open>strtol\<close> and \<^verbatim>\<open>strtoul\<close>: the value of the longest run of
  digits and the rest of the string.\<close>

fun read_digits :: "nat \<Rightarrow> string \<Rightarrow> nat \<times> string" where
  "read_digits acc [] = (acc, [])"
| "read_digits acc (c # cs) =
     (case digit_val c of None \<Rightarrow> (acc, c # cs) | Some d \<Rightarrow> read_digits (10 * acc + d) cs)"

lemma dec_nat_nonempty [simp]: "dec_nat n \<noteq> []"
  by (subst dec_nat.simps) simp

lemma dec_nat_digits: "c \<in> set (dec_nat n) \<Longrightarrow> \<exists>d<10. c = digit_char d"
proof (induction n rule: dec_nat.induct)
  case (1 n)
  then show ?case
    by (cases "n < 10") (auto simp: dec_nat.simps [of n] intro: exI [of _ "n mod 10"])
qed

lemma read_digits_append:
  "\<forall>c\<in>set ds. digit_val c \<noteq> None \<Longrightarrow>
   read_digits acc (ds @ rest) = read_digits (fst (read_digits acc ds)) rest"
  by (induction ds arbitrary: acc) (auto split: option.splits)

lemma read_digits_dec_nat_acc:
  "read_digits 0 (dec_nat n) = (n, [])"
proof (induction n rule: dec_nat.induct)
  case (1 n)
  show ?case
  proof (cases "n < 10")
    case True
    then show ?thesis by (simp add: dec_nat.simps [of n])
  next
    case False
    have "read_digits 0 (dec_nat (n div 10) @ [digit_char (n mod 10)]) =
          read_digits (n div 10) [digit_char (n mod 10)]"
      using dec_nat_digits [of _ "n div 10"] 1 False
      by (subst read_digits_append) fastforce+
    then show ?thesis using False by (simp add: dec_nat.simps [of n])
  qed
qed

lemma digit_val_dec_nat: "c \<in> set (dec_nat n) \<Longrightarrow> digit_val c \<noteq> None"
  using dec_nat_digits by fastforce

lemma read_digits_dec_nat [simp]:
  "read_digits 0 (dec_nat n @ rest) = read_digits n rest"
  using digit_val_dec_nat by (subst read_digits_append) (auto simp: read_digits_dec_nat_acc)

lemma dec_nat_inj [simp]: "dec_nat m = dec_nat n \<longleftrightarrow> m = n"
  by (metis fst_conv read_digits_dec_nat_acc)

lemma dec_nat_append_inj:
  assumes "dec_nat m @ c # xs = dec_nat n @ c # ys" and "digit_val c = None"
  shows "m = n \<and> xs = ys"
proof -
  have "read_digits 0 (dec_nat m @ c # xs) = read_digits 0 (dec_nat n @ c # ys)"
    using assms(1) by simp
  then have "m = n" using assms(2) by simp
  then show ?thesis using assms(1) by simp
qed

section \<open>Hexadecimal digits\<close>

text \<open>The value of a hexadecimal digit, \<open>None\<close> where the code computes \<open>-1\<close>.\<close>

definition hex_val :: "char \<Rightarrow> nat option" where
  "hex_val c = (let n = of_char c in
     if 48 \<le> n \<and> n \<le> 57 then Some (n - 48)
     else if 97 \<le> n \<and> n \<le> 102 then Some (n - 97 + 10)
     else if 65 \<le> n \<and> n \<le> 70 then Some (n - 65 + 10)
     else None)"

definition hex_char :: "nat \<Rightarrow> char" where
  "hex_char d = ''0123456789abcdef'' ! d"

lemma hex_val_hex_char [simp]: "d < 16 \<Longrightarrow> hex_val (hex_char d) = Some d"
proof -
  assume "d < 16"
  then have "d \<in> {0, 1, 2, 3, 4, 5, 6, 7, 8, 9, 10, 11, 12, 13, 14, 15}"
    by (simp only: insert_iff empty_iff simp_thms) presburger
  then show "hex_val (hex_char d) = Some d"
    by (elim insertE) (simp_all add: hex_val_def hex_char_def)
qed

lemma hex_val_less: "hex_val c = Some d \<Longrightarrow> d < 16"
  by (auto simp: hex_val_def Let_def split: if_splits)

section \<open>Evaluation of 64-bit words\<close>

text \<open>The simplifier's word numerals are not reduced; \<open>w64\<close> names a word by its reduced
  value, and \<open>w64_eval\<close> computes with such names.\<close>

definition w64 :: "int \<Rightarrow> u64" where
  "w64 i = word_of_int i"

lemma w64_mod: "w64 (a mod 18446744073709551616) = w64 a"
  by (simp add: w64_def word_of_int_eq_iff take_bit_eq_mod)

lemma w64_numeral:
  "(numeral n :: u64) = w64 (numeral n)" "(0 :: u64) = w64 0" "(1 :: u64) = w64 1"
  by (simp_all add: w64_def)

lemma w64_arith:
  "w64 a + w64 b = w64 ((a + b) mod 18446744073709551616)"
  "w64 a - w64 b = w64 ((a - b) mod 18446744073709551616)"
  "w64 a * w64 b = w64 ((a * b) mod 18446744073709551616)"
  by (simp_all add: w64_def word_of_int_eq_iff take_bit_eq_mod
      flip: of_int_add of_int_diff of_int_mult)

lemma w64_bitwise:
  "w64 a XOR w64 b = w64 (a XOR b)"
  "w64 a OR w64 b = w64 (a OR b)"
  "w64 a AND w64 b = w64 (a AND b)"
  by (rule bit_word_eqI, simp add: w64_def bit_simps)+

lemma w64_push_bit: "push_bit n (w64 a) = w64 ((a * 2 ^ n) mod 18446744073709551616)"
  by (simp only: w64_mod flip: push_bit_eq_mult, intro bit_word_eqI) (auto simp: w64_def bit_simps)

lemma w64_drop_bit:
  "0 \<le> a \<Longrightarrow> a < 18446744073709551616 \<Longrightarrow> drop_bit n (w64 a) = w64 (a div 2 ^ n)"
proof -
  assume "0 \<le> a" "a < 18446744073709551616"
  then have "a = take_bit 64 a" by (simp add: take_bit_int_eq_self)
  then have "bit a m \<Longrightarrow> m < 64" for m by (metis bit_take_bit_iff)
  then show ?thesis
    by (simp flip: drop_bit_eq_div, intro bit_word_eqI) (auto simp: w64_def bit_simps)
qed

lemma w64_uint: "0 \<le> a \<Longrightarrow> a < 18446744073709551616 \<Longrightarrow> uint (w64 a) = a"
  by (simp add: w64_def uint_word_of_int_eq take_bit_int_eq_self)

lemmas w64_eval = w64_numeral w64_arith w64_bitwise w64_push_bit w64_drop_bit

end
