(* ===== verification/Hash_Stream.thy ===== *)
theory Hash_Stream
  imports Buckets_Prelude
begin

text \<open>
  The contract of a streaming hash: a state that absorbs its input in blocks of
  \<open>B\<close> bytes and keeps the bytes of the last, incomplete block in a buffer.  The
  reference is \<open>chunk_fold\<close>, which absorbs whole blocks from the front of one
  list of bytes; \<open>block_hash\<close> states that an implementation's update behaves
  like \<open>chunk_fold\<close> on its pending bytes followed by the new ones, and derives
  once that the split of the input over several updates does not matter.  SipHash
  and xxHash interpret it.
\<close>

section \<open>Absorbing a byte list block by block\<close>

text \<open>Blocks of \<open>B\<close> bytes are absorbed while more than \<open>K\<close> bytes are left: \<open>K = B - 1\<close>
  for a hash that absorbs a block as soon as it is full, \<open>K = B\<close> for one that holds
  a full block back until it knows that more input follows.\<close>

function chunk_fold :: "nat \<Rightarrow> nat \<Rightarrow> ('v \<Rightarrow> bytes \<Rightarrow> 'v) \<Rightarrow> 'v \<Rightarrow> bytes \<Rightarrow> 'v \<times> bytes" where
  "chunk_fold B K absorb v xs =
     (if B = 0 \<or> length xs \<le> K \<or> length xs < B then (v, xs)
      else chunk_fold B K absorb (absorb v (take B xs)) (drop B xs))"
  by pat_completeness auto
termination
  by (relation "measure (\<lambda>(B, K, absorb, v, xs). length xs)") auto

declare chunk_fold.simps [simp del]

lemma chunk_fold_short [simp]: "length xs \<le> K \<Longrightarrow> chunk_fold B K absorb v xs = (v, xs)"
  by (simp add: chunk_fold.simps)

lemma chunk_fold_block:
  "0 < B \<Longrightarrow> B \<le> Suc K \<Longrightarrow> length b = B \<Longrightarrow> K < length (b @ xs) \<Longrightarrow>
   chunk_fold B K absorb v (b @ xs) = chunk_fold B K absorb (absorb v b) xs"
  by (subst chunk_fold.simps) simp

lemma chunk_fold_rest_length:
  "0 < B \<Longrightarrow> B \<le> Suc K \<Longrightarrow> length (snd (chunk_fold B K absorb v xs)) \<le> K"
  by (induction B K absorb v xs rule: chunk_fold.induct) (subst chunk_fold.simps, simp)

lemma chunk_fold_append:
  assumes "0 < B" "B \<le> Suc K"
  shows "chunk_fold B K absorb v (xs @ ys) =
         (case chunk_fold B K absorb v xs of (w, r) \<Rightarrow> chunk_fold B K absorb w (r @ ys))"
  using assms
proof (induction B K absorb v xs rule: chunk_fold.induct)
  case (1 B K absorb v xs)
  show ?case
  proof (cases "length xs \<le> K")
    case True
    then show ?thesis by simp
  next
    case False
    then have "chunk_fold B K absorb v (xs @ ys) =
               chunk_fold B K absorb (absorb v (take B xs)) (drop B xs @ ys)"
      using chunk_fold_block [of B K "take B xs" "drop B xs @ ys"] 1(2,3)
      by (simp flip: append_assoc)
    then show ?thesis
      using 1 False by (simp add: chunk_fold.simps [of B K absorb v xs])
  qed
qed

text \<open>The whole blocks of a byte list, and \<open>chunk_fold\<close> as a fold over them.\<close>

fun blocks :: "nat \<Rightarrow> bytes \<Rightarrow> bytes list" where
  "blocks B xs = (if B = 0 \<or> length xs < B then [] else take B xs # blocks B (drop B xs))"

declare blocks.simps [simp del]

lemma blocks_short [simp]: "length xs < B \<Longrightarrow> blocks B xs = []"
  by (simp add: blocks.simps)

lemma blocks_block: "0 < B \<Longrightarrow> length b = B \<Longrightarrow> blocks B (b @ xs) = b # blocks B xs"
  by (subst blocks.simps) simp

lemma blocks_length: "b \<in> set (blocks B xs) \<Longrightarrow> length b = B"
proof (induction B xs rule: blocks.induct)
  case (1 B xs)
  then show ?case by (auto simp: blocks.simps [of B xs] split: if_splits)
qed

lemma chunk_fold_blocks:
  "0 < B \<Longrightarrow> chunk_fold B (B - 1) absorb v xs =
     (foldl absorb v (blocks B xs), drop (length xs - length xs mod B) xs)"
proof (induction B "B - 1" absorb v xs rule: chunk_fold.induct)
  case (1 B absorb v xs)
  show ?case
  proof (cases "length xs < B")
    case False
    then have "length xs - B - (length xs - B) mod B + B = length xs - length xs mod B"
      by (metis add.commute add_diff_assoc2 le_mod_geq mod_less_eq_dividend not_less
          le_add_diff_inverse2)
    moreover have "\<not> length xs \<le> B - 1" using 1(2) False by simp
    ultimately show ?thesis
      using 1 False by (simp add: chunk_fold.simps [of B _ absorb v xs] blocks.simps [of B xs])
  qed simp
qed

lemma blocks_append_last:
  "0 < B \<Longrightarrow> length (xs @ ys) mod B = 0 \<Longrightarrow> length ys \<le> B \<Longrightarrow> ys \<noteq> [] \<Longrightarrow>
   blocks B (xs @ ys) = blocks B xs @ [drop (length xs - length xs mod B) xs @ ys]"
proof (induction B xs rule: blocks.induct)
  case (1 B xs)
  show ?case
  proof (cases "length xs < B")
    case True
    have "length (xs @ ys) = B"
    proof -
      obtain q where q: "length (xs @ ys) = B * q" using 1(3) by auto
      have "0 < length (xs @ ys)" "length (xs @ ys) < 2 * B" using 1 True by auto
      then have "q = 1" using q by (cases q; cases "q - 1") auto
      then show ?thesis using q by simp
    qed
    then show ?thesis using True 1 by (simp add: blocks.simps [of B "xs @ ys"])
  next
    case False
    then have e: "length xs - B - (length xs - B) mod B + B = length xs - length xs mod B"
      by (metis add.commute add_diff_assoc2 le_mod_geq mod_less_eq_dividend not_less
          le_add_diff_inverse2)
    have "length (drop B xs @ ys) mod B = 0"
      using 1(3) False by (simp add: le_mod_geq)
    with 1 False e show ?thesis
      by (simp add: blocks.simps [of B "xs @ ys"] blocks.simps [of B xs])
  qed
qed

section \<open>The streaming contract\<close>

locale block_hash =
  fixes B :: nat
    and absorb :: "'v \<Rightarrow> bytes \<Rightarrow> 'v"
    and update :: "'s \<Rightarrow> bytes \<Rightarrow> 's"
    and core :: "'s \<Rightarrow> 'v"
    and pending :: "'s \<Rightarrow> bytes"
    and total :: "'s \<Rightarrow> u64"
    and inv :: "'s \<Rightarrow> bool"
  assumes B_pos: "0 < B"
    and update_inv: "inv s \<Longrightarrow> inv (update s xs)"
    and update_core: "inv s \<Longrightarrow>
          (core (update s xs), pending (update s xs)) =
          chunk_fold B (B - 1) absorb (core s) (pending s @ xs)"
    and update_total: "total (update s xs) = total s + of_nat (length xs)"
begin

definition obs :: "'s \<Rightarrow> 'v \<times> bytes \<times> u64" where
  "obs s = (core s, pending s, total s)"

lemma obs_update:
  "inv s \<Longrightarrow> obs (update s xs) =
     (case chunk_fold B (B - 1) absorb (core s) (pending s @ xs) of
        (v, r) \<Rightarrow> (v, r, total s + of_nat (length xs)))"
  using update_core [of s xs] by (auto simp: obs_def update_total split: prod.split)

lemma obs_cong:
  "inv s \<Longrightarrow> inv t \<Longrightarrow> obs s = obs t \<Longrightarrow> obs (update s xs) = obs (update t xs)"
  by (simp add: obs_update) (simp add: obs_def)

lemma update_update: "inv s \<Longrightarrow> obs (update (update s xs) ys) = obs (update s (xs @ ys))"
proof -
  assume s: "inv s"
  obtain v r where c: "chunk_fold B (B - 1) absorb (core s) (pending s @ xs) = (v, r)"
    by fastforce
  then have "core (update s xs) = v" "pending (update s xs) = r"
    using update_core [OF s, of xs] by simp_all
  moreover have "chunk_fold B (B - 1) absorb (core s) (pending s @ xs @ ys) =
                 chunk_fold B (B - 1) absorb v (r @ ys)"
    using chunk_fold_append [of B "B - 1" absorb "core s" "pending s @ xs" ys] B_pos c by simp
  ultimately show ?thesis
    using s by (simp add: obs_update update_inv update_total split: prod.split)
qed

lemma foldl_update_inv: "inv s \<Longrightarrow> inv (foldl update s xss)"
  by (induction xss arbitrary: s) (simp_all add: update_inv)

lemma foldl_update_obs:
  "inv s \<Longrightarrow> obs (foldl update s (xs # xss)) = obs (update s (concat (xs # xss)))"
proof (induction xss arbitrary: s xs)
  case (Cons ys yss)
  then have "obs (foldl update (update s xs) (ys # yss)) = obs (update (update s xs) (concat (ys # yss)))"
    by (simp add: update_inv)
  with Cons.prems show ?case by (simp add: update_update)
qed simp

end

text \<open>A hash with a final step that reads nothing but the observable state and
  what no update changes (the key or the seed).\<close>

locale block_hash_digest = block_hash B absorb update core pending total inv
  for B :: nat
    and absorb :: "'v \<Rightarrow> bytes \<Rightarrow> 'v"
    and update :: "'s \<Rightarrow> bytes \<Rightarrow> 's"
    and core :: "'s \<Rightarrow> 'v"
    and pending :: "'s \<Rightarrow> bytes"
    and total :: "'s \<Rightarrow> u64"
    and inv :: "'s \<Rightarrow> bool" +
  fixes final :: "'s \<Rightarrow> u64"
    and param :: "'s \<Rightarrow> 'p"
  assumes update_param: "param (update s xs) = param s"
    and final_obs: "\<lbrakk>inv s; inv t; core s = core t; pending s = pending t; total s = total t;
                     param s = param t\<rbrakk> \<Longrightarrow> final s = final t"
begin

lemma foldl_update_param: "param (foldl update s xss) = param s"
  by (induction xss arbitrary: s) (simp_all add: update_param)

lemma digest_chunking:
  assumes "inv s"
  shows "final (foldl update s (xs # xss)) = final (update s (concat (xs # xss)))"
  using foldl_update_obs [OF assms, of xs xss] assms
  by (intro final_obs foldl_update_inv update_inv)
    (simp_all only: obs_def update_param foldl_update_param prod.inject)

end

end
