(* ===== verification/SipHash.thy ===== *)
theory SipHash
  imports Hash_Stream
begin

text \<open>
  SipHash-2-4 as \<^verbatim>\<open>src/src/hash/siphash.c\<close> computes it: the incremental state with its
  eight-byte buffer, the one-shot 64- and 128-bit functions, the placement of an
  object name on an erasure set, and the reader of deployment ids.  The lemmas show
  that the incremental code computes the published function of the whole message
  however the input is split, that loads and stores invert each other, and what the
  id reader accepts.

  A state argument is the caller's structure; the guards against a null state
  return without touching anything and leave nothing to model.  A null data
  pointer is \<open>None\<close>.
\<close>

section \<open>State and mixing\<close>

record buckets_siphash_state =
  sh_v0 :: u64
  sh_v1 :: u64
  sh_v2 :: u64
  sh_v3 :: u64
  sh_k0 :: u64
  sh_k1 :: u64
  sh_total_len :: u64
  sh_buf :: bytes
  sh_buf_len :: nat

type_synonym sip_vars = "u64 \<times> u64 \<times> u64 \<times> u64"

definition ROTL64 :: "u64 \<Rightarrow> nat \<Rightarrow> u64" where
  "ROTL64 x b = push_bit b x OR drop_bit (64 - b) x"

fun SIPROUND :: "sip_vars \<Rightarrow> sip_vars" where
  "SIPROUND (v0, v1, v2, v3) =
    (let v0 = v0 + v1; v1 = ROTL64 v1 13; v1 = v1 XOR v0; v0 = ROTL64 v0 32;
         v2 = v2 + v3; v3 = ROTL64 v3 16; v3 = v3 XOR v2;
         v0 = v0 + v3; v3 = ROTL64 v3 21; v3 = v3 XOR v0;
         v2 = v2 + v1; v1 = ROTL64 v1 17; v1 = v1 XOR v2; v2 = ROTL64 v2 32
     in (v0, v1, v2, v3))"

definition load_le64 :: "bytes \<Rightarrow> u64" where
  "load_le64 p =
     ucast (p ! 0) OR push_bit 8 (ucast (p ! 1)) OR
     push_bit 16 (ucast (p ! 2)) OR push_bit 24 (ucast (p ! 3)) OR
     push_bit 32 (ucast (p ! 4)) OR push_bit 40 (ucast (p ! 5)) OR
     push_bit 48 (ucast (p ! 6)) OR push_bit 56 (ucast (p ! 7))"

definition store_le64 :: "u64 \<Rightarrow> bytes" where
  "store_le64 v =
     [ucast v, ucast (drop_bit 8 v), ucast (drop_bit 16 v), ucast (drop_bit 24 v),
      ucast (drop_bit 32 v), ucast (drop_bit 40 v), ucast (drop_bit 48 v), ucast (drop_bit 56 v)]"

text \<open>The absorption of one message word, \<open>c = 2\<close> rounds between the two exclusive ors.\<close>

definition sip_compress :: "sip_vars \<Rightarrow> u64 \<Rightarrow> sip_vars" where
  "sip_compress v m =
    (let (v0, v1, v2, v3) = v;
         (v0, v1, v2, v3) = SIPROUND (SIPROUND (v0, v1, v2, v3 XOR m))
     in (v0 XOR m, v1, v2, v3))"

section \<open>The incremental interface\<close>

definition sip_vars_of :: "'z buckets_siphash_state_scheme \<Rightarrow> sip_vars" where
  "sip_vars_of s = (sh_v0 s, sh_v1 s, sh_v2 s, sh_v3 s)"

definition sip_save :: "sip_vars \<Rightarrow> buckets_siphash_state \<Rightarrow> buckets_siphash_state" where
  "sip_save v s = (let (v0, v1, v2, v3) = v in
     s\<lparr>sh_v0 := v0, sh_v1 := v1, sh_v2 := v2, sh_v3 := v3\<rparr>)"

definition buckets_siphash_init ::
  "buckets_siphash_state \<Rightarrow> u64 \<Rightarrow> u64 \<Rightarrow> buckets_siphash_state" where
  "buckets_siphash_init s k0 k1 =
     s\<lparr>sh_k0 := k0, sh_k1 := k1,
       sh_v0 := k0 XOR 0x736f6d6570736575,
       sh_v1 := k1 XOR 0x646f72616e646f6d,
       sh_v2 := k0 XOR 0x6c7967656e657261,
       sh_v3 := k1 XOR 0x7465646279746573,
       sh_total_len := 0, sh_buf_len := 0\<rparr>"

text \<open>The loop over the full blocks of the input.\<close>

function sip_blocks :: "sip_vars \<Rightarrow> bytes \<Rightarrow> sip_vars \<times> bytes" where
  "sip_blocks v inp =
     (if 8 \<le> length inp then sip_blocks (sip_compress v (load_le64 inp)) (drop 8 inp)
      else (v, inp))"
  by pat_completeness auto
termination
  by (relation "measure (\<lambda>(v, inp). length inp)") auto

declare sip_blocks.simps [simp del]

definition buckets_siphash_update ::
  "buckets_siphash_state \<Rightarrow> bytes option \<Rightarrow> buckets_siphash_state" where
  "buckets_siphash_update s data =
    (case data of
       None \<Rightarrow> s
     | Some inp \<Rightarrow>
       (let v = sip_vars_of s;
            s = s\<lparr>sh_total_len := sh_total_len s + of_nat (length inp)\<rparr>;
            (v, s, inp) =
              (if 0 < sh_buf_len s then
                 (let to_copy = (if length inp < 8 - sh_buf_len s then length inp
                                 else 8 - sh_buf_len s);
                      s = s\<lparr>sh_buf := memcpy (sh_buf s) (sh_buf_len s) inp to_copy,
                            sh_buf_len := sh_buf_len s + to_copy\<rparr>;
                      inp = drop to_copy inp
                  in if sh_buf_len s = 8
                     then (sip_compress v (load_le64 (sh_buf s)), s\<lparr>sh_buf_len := 0\<rparr>, inp)
                     else (v, s, inp))
               else (v, s, inp));
            (v, inp) = sip_blocks v inp;
            s = (if 0 < length inp
                 then s\<lparr>sh_buf := memcpy (sh_buf s) 0 inp (length inp), sh_buf_len := length inp\<rparr>
                 else s)
        in sip_save v s))"

text \<open>The last block: the length byte and the buffered bytes, by the fall-through
  cases of the switch.\<close>

definition sip_last_block :: "u64 \<Rightarrow> bytes \<Rightarrow> nat \<Rightarrow> u64" where
  "sip_last_block total_len buf n =
    (let b = push_bit 56 (total_len AND 0xff);
         b = (if n = 7 then b OR push_bit 48 (ucast (buf ! 6)) else b);
         b = (if 6 \<le> n \<and> n \<le> 7 then b OR push_bit 40 (ucast (buf ! 5)) else b);
         b = (if 5 \<le> n \<and> n \<le> 7 then b OR push_bit 32 (ucast (buf ! 4)) else b);
         b = (if 4 \<le> n \<and> n \<le> 7 then b OR push_bit 24 (ucast (buf ! 3)) else b);
         b = (if 3 \<le> n \<and> n \<le> 7 then b OR push_bit 16 (ucast (buf ! 2)) else b);
         b = (if 2 \<le> n \<and> n \<le> 7 then b OR push_bit 8 (ucast (buf ! 1)) else b);
         b = (if 1 \<le> n \<and> n \<le> 7 then b OR ucast (buf ! 0) else b)
     in b)"

definition sip_xor_out :: "sip_vars \<Rightarrow> u64" where
  "sip_xor_out v = (let (v0, v1, v2, v3) = v in v0 XOR v1 XOR v2 XOR v3)"

definition buckets_siphash_final :: "buckets_siphash_state \<Rightarrow> u64" where
  "buckets_siphash_final s =
    (let b = sip_last_block (sh_total_len s) (sh_buf s) (sh_buf_len s);
         (v0, v1, v2, v3) = sip_compress (sip_vars_of s) b
     in sip_xor_out (SIPROUND (SIPROUND (SIPROUND (SIPROUND (v0, v1, v2 XOR 0xff, v3))))))"

section \<open>One-shot hashes\<close>

text \<open>The automatic variable \<open>state\<close> of the one-shot functions; the theorem
  \<open>siphash_one_shot\<close> below shows that its initial contents do not matter.\<close>

definition siphash_frame :: buckets_siphash_state where
  "siphash_frame = \<lparr>sh_v0 = 0, sh_v1 = 0, sh_v2 = 0, sh_v3 = 0, sh_k0 = 0, sh_k1 = 0,
     sh_total_len = 0, sh_buf = replicate 8 0, sh_buf_len = 0\<rparr>"

definition buckets_siphash_in ::
  "buckets_siphash_state \<Rightarrow> u64 \<Rightarrow> u64 \<Rightarrow> bytes option \<Rightarrow> u64" where
  "buckets_siphash_in frame k0 k1 data =
     buckets_siphash_final (buckets_siphash_update (buckets_siphash_init frame k0 k1) data)"

definition buckets_siphash :: "u64 \<Rightarrow> u64 \<Rightarrow> bytes option \<Rightarrow> u64" where
  "buckets_siphash = buckets_siphash_in siphash_frame"

definition buckets_siphash128 :: "u64 \<Rightarrow> u64 \<Rightarrow> bytes option \<Rightarrow> bytes" where
  "buckets_siphash128 k0 k1 data =
    (let s = buckets_siphash_init siphash_frame k0 k1;
         s = s\<lparr>sh_v1 := sh_v1 s XOR 0xee\<rparr>;
         s = buckets_siphash_update s data;
         b = sip_last_block (sh_total_len s) (sh_buf s) (sh_buf_len s);
         (v0, v1, v2, v3) = sip_compress (sip_vars_of s) b;
         (v0, v1, v2, v3) = SIPROUND (SIPROUND (SIPROUND (SIPROUND (v0, v1, v2 XOR 0xee, v3))));
         h0 = sip_xor_out (v0, v1, v2, v3);
         w = SIPROUND (SIPROUND (SIPROUND (SIPROUND (v0, v1 XOR 0xdd, v2, v3))));
         h1 = sip_xor_out w
     in store_le64 h0 @ store_le64 h1)"

section \<open>Placement of objects and keys\<close>

definition buckets_hash_object_to_set :: "string option \<Rightarrow> bytes option \<Rightarrow> int \<Rightarrow> int" where
  "buckets_hash_object_to_set object_name deployment_id set_count =
    (case (object_name, deployment_id) of
       (Some name, Some did) \<Rightarrow>
         if set_count \<le> 0 then -1
         else let k0 = load_le64 did;
                  k1 = load_le64 (drop 8 did);
                  hash = buckets_siphash k0 k1 (Some (str_bytes name))
              in to_i32 (uint (hash mod of_int set_count))
     | _ \<Rightarrow> -1)"

definition buckets_uuid_to_siphash_key :: "bytes \<Rightarrow> u64 \<times> u64" where
  "buckets_uuid_to_siphash_key uuid = (load_le64 uuid, load_le64 (drop 8 uuid))"

text \<open>The key from \<^verbatim>\<open>/dev/urandom\<close>: \<open>fd\<close> is whether it opens and \<open>rd\<close> the bytes one read returns.\<close>

definition buckets_siphash_keygen :: "bool \<Rightarrow> bytes \<Rightarrow> (u64 \<times> u64) outcome" where
  "buckets_siphash_keygen fd rd =
    (if \<not> fd then Fail BUCKETS_ERR_IO
     else if length rd \<noteq> 16 then Fail BUCKETS_ERR_IO
     else Ok (load_le64 rd, load_le64 (drop 8 rd)))"

text \<open>The character at a position of a string in memory: its characters, then the
  terminator, then nothing that belongs to the string.\<close>

definition char_at :: "string \<Rightarrow> nat \<Rightarrow> char option" where
  "char_at s p = (if p < length s then Some (s ! p)
                  else if p = length s then Some (CHR 0x00) else None)"

text \<open>The loop of the id reader, \<open>n\<close> bytes to go: both digits are read before
  either is examined.\<close>

fun uuid_parse_loop :: "string \<Rightarrow> nat \<Rightarrow> nat \<Rightarrow> bytes \<Rightarrow> bytes outcome" where
  "uuid_parse_loop s 0 p acc = Ok acc"
| "uuid_parse_loop s (Suc n) p acc =
    (case char_at s p of
       None \<Rightarrow> Undefined
     | Some c \<Rightarrow>
       (let p = (if c = CHR ''-'' then p + 1 else p) in
        case (char_at s p, char_at s (p + 1)) of
          (Some h, Some l) \<Rightarrow>
            (case (hex_val h, hex_val l) of
               (Some hi, Some lo) \<Rightarrow> uuid_parse_loop s n (p + 2) (acc @ [push_bit 4 (of_nat hi) OR of_nat lo])
             | _ \<Rightarrow> Fail BUCKETS_ERR_INVALID_ARG)
        | _ \<Rightarrow> Undefined))"

declare uuid_parse_loop.simps(2) [simp del]

definition buckets_uuid_str_to_siphash_key :: "string option \<Rightarrow> (u64 \<times> u64) outcome" where
  "buckets_uuid_str_to_siphash_key uuid_str =
    (case uuid_str of
       None \<Rightarrow> Fail BUCKETS_ERR_INVALID_ARG
     | Some s \<Rightarrow>
       if length s \<noteq> 36 then Fail BUCKETS_ERR_INVALID_ARG
       else (case uuid_parse_loop s 16 0 [] of
               Ok uuid \<Rightarrow> Ok (buckets_uuid_to_siphash_key uuid)
             | Fail e \<Rightarrow> Fail e
             | Undefined \<Rightarrow> Undefined))"

definition buckets_hash_object_to_set_str :: "string option \<Rightarrow> string option \<Rightarrow> int \<Rightarrow> int outcome" where
  "buckets_hash_object_to_set_str object_name deployment_id_str set_count =
    (case deployment_id_str of
       None \<Rightarrow> Ok (-1)
     | Some _ \<Rightarrow>
       (case buckets_uuid_str_to_siphash_key deployment_id_str of
          Undefined \<Rightarrow> Undefined
        | Fail e \<Rightarrow> Ok (-1)
        | Ok (k0, k1) \<Rightarrow>
            Ok (buckets_hash_object_to_set object_name
                  (Some (store_le64 k0 @ store_le64 k1)) set_count)))"


section \<open>Words and bytes\<close>

lemma load_le64_le_word: "8 \<le> length p \<Longrightarrow> load_le64 p = le_word (take 8 p)"
  by (simp only: load_le64_def le_word_8)

lemma load_le64_append: "length p = 8 \<Longrightarrow> load_le64 (p @ q) = load_le64 p"
  by (simp add: load_le64_def nth_append)

lemma length_store_le64 [simp]: "length (store_le64 v) = 8"
  by (simp add: store_le64_def)

lemma store_le64_le_bytes: "store_le64 v = le_bytes 8 v"
  by (simp add: store_le64_def numeral_eq_Suc)

lemma load_store_le64 [simp]: "load_le64 (store_le64 v) = v"
  by (simp add: load_le64_le_word store_le64_le_bytes le_word_le_bytes take_bit_word_eq_self)

lemma store_load_le64: "length p = 8 \<Longrightarrow> store_le64 (load_le64 p) = p"
  using le_bytes_le_word [of p, where 'a = 64] by (simp add: load_le64_le_word store_le64_le_bytes)

section \<open>The incremental interface absorbs blocks\<close>

abbreviation sip_absorb :: "sip_vars \<Rightarrow> bytes \<Rightarrow> sip_vars" where
  "sip_absorb v b \<equiv> sip_compress v (load_le64 b)"

abbreviation sip_pending :: "buckets_siphash_state \<Rightarrow> bytes" where
  "sip_pending s \<equiv> take (sh_buf_len s) (sh_buf s)"

definition siphash_inv :: "buckets_siphash_state \<Rightarrow> bool" where
  "siphash_inv s \<longleftrightarrow> length (sh_buf s) = 8 \<and> sh_buf_len s < 8"

lemma sip_blocks_chunk_fold: "sip_blocks v inp = chunk_fold 8 7 sip_absorb v inp"
proof (induction v inp rule: sip_blocks.induct)
  case (1 v inp)
  have "8 \<le> length inp \<Longrightarrow> load_le64 (take 8 inp) = load_le64 inp"
    by (simp add: load_le64_def)
  then show ?case
    using 1 by (simp add: sip_blocks.simps [of v inp] chunk_fold.simps [of 8 7 _ v inp])
qed


lemma sip_vars_of_simps [simp]:
  "sip_vars_of (sip_save v s) = v"
  "sip_vars_of (s\<lparr>sh_total_len := t\<rparr>) = sip_vars_of s"
  "sip_vars_of (s\<lparr>sh_buf := b\<rparr>) = sip_vars_of s"
  "sip_vars_of (s\<lparr>sh_buf_len := n\<rparr>) = sip_vars_of s"
  by (simp_all add: sip_vars_of_def sip_save_def split: prod.split)

lemma sip_save_simps [simp]:
  "sh_buf (sip_save v s) = sh_buf s"
  "sh_buf_len (sip_save v s) = sh_buf_len s"
  "sh_total_len (sip_save v s) = sh_total_len s"
  "sh_k0 (sip_save v s) = sh_k0 s"
  "sh_k1 (sip_save v s) = sh_k1 s"
  by (simp_all add: sip_save_def split: prod.split)

text \<open>The last two stages of an update: the full blocks, then the rest into the buffer.\<close>

lemma sip_blocks_rest:
  assumes "sip_blocks v inp = (w, r)"
  shows "length r < 8" "chunk_fold 8 7 sip_absorb v inp = (w, r)"
  using assms chunk_fold_rest_length [of 8 7 sip_absorb v inp]
  by (simp_all add: sip_blocks_chunk_fold)

lemma siphash_update_stream:
  assumes "siphash_inv s"
  shows "siphash_inv (buckets_siphash_update s (Some xs)) \<and>
         (sip_vars_of (buckets_siphash_update s (Some xs)),
          sip_pending (buckets_siphash_update s (Some xs))) =
         chunk_fold 8 7 sip_absorb (sip_vars_of s) (sip_pending s @ xs)"
proof -
  let ?n = "sh_buf_len s"
  have len: "length (sh_buf s) = 8" "?n < 8"
    using assms by (auto simp: siphash_inv_def)
  consider "?n = 0" | "0 < ?n" "length xs < 8 - ?n" | "0 < ?n" "8 - ?n \<le> length xs"
    by linarith
  then show ?thesis
  proof cases
    case 1
    obtain w r where b: "sip_blocks (sip_vars_of s) xs = (w, r)" by fastforce
    show ?thesis
      using 1 len sip_blocks_rest [OF b]
      by (simp add: buckets_siphash_update_def b siphash_inv_def memcpy_def Let_def)
  next
    case 2
    then have "sip_blocks v [] = (v, [])" "?n + length xs < 8" for v
      using len by (simp_all add: sip_blocks.simps)
    with 2 len show ?thesis
      by (simp add: buckets_siphash_update_def siphash_inv_def memcpy_def Let_def)
  next
    case 3
    let ?blk = "take ?n (sh_buf s) @ take (8 - ?n) xs"
    have mem: "memcpy (sh_buf s) ?n xs (8 - ?n) = ?blk"
      using 3 len by (simp add: memcpy_def)
    have "chunk_fold 8 7 sip_absorb (sip_vars_of s) (?blk @ drop (8 - ?n) xs) =
          chunk_fold 8 7 sip_absorb (sip_absorb (sip_vars_of s) ?blk) (drop (8 - ?n) xs)"
      using 3 len by (intro chunk_fold_block) auto
    then have eq: "chunk_fold 8 7 sip_absorb (sip_vars_of s) (sip_pending s @ xs) =
                   chunk_fold 8 7 sip_absorb (sip_absorb (sip_vars_of s) ?blk) (drop (8 - ?n) xs)"
      by simp
    obtain w r where
      b: "sip_blocks (sip_absorb (sip_vars_of s) ?blk) (drop (8 - ?n) xs) = (w, r)"
      by fastforce
    show ?thesis
      unfolding eq
      using 3 len sip_blocks_rest [OF b]
      by (auto simp: buckets_siphash_update_def mem b siphash_inv_def Let_def memcpy_def)
  qed
qed


lemma siphash_update_frame [frame_simps]:
  "sh_total_len (buckets_siphash_update s (Some xs)) = sh_total_len s + of_nat (length xs)"
  "sh_k0 (buckets_siphash_update s data) = sh_k0 s"
  "sh_k1 (buckets_siphash_update s data) = sh_k1 s"
  by (simp_all add: buckets_siphash_update_def Let_def split: prod.split option.split)

lemma sip_last_block_cong:
  assumes "n \<le> length b" "n \<le> length c" "take n b = take n c" "n < 8"
  shows "sip_last_block t b n = sip_last_block t c n"
proof -
  have "b ! i = c ! i" if "i < n" for i
    using assms that by (metis nth_take)
  then show ?thesis by (simp add: sip_last_block_def Let_def)
qed

lemma siphash_final_obs:
  assumes "siphash_inv s" "siphash_inv t" "sip_vars_of s = sip_vars_of t"
    "sip_pending s = sip_pending t" "sh_total_len s = sh_total_len t"
  shows "buckets_siphash_final s = buckets_siphash_final t"
proof -
  have n: "sh_buf_len s = sh_buf_len t"
    using arg_cong [OF assms(4), of length] assms(1,2) by (auto simp: siphash_inv_def)
  then have "sip_last_block (sh_total_len s) (sh_buf s) (sh_buf_len s) =
             sip_last_block (sh_total_len t) (sh_buf t) (sh_buf_len t)"
    using assms by (simp add: siphash_inv_def) (rule sip_last_block_cong, simp_all)
  then show ?thesis
    using assms(3) by (simp add: buckets_siphash_final_def)
qed

interpretation sip: block_hash_digest 8 sip_absorb
  "\<lambda>s xs. buckets_siphash_update s (Some xs)" sip_vars_of sip_pending sh_total_len siphash_inv
  buckets_siphash_final "\<lambda>s. (sh_k0 s, sh_k1 s)"
  by unfold_locales
    (simp_all add: siphash_update_stream frame_simps, rule siphash_final_obs, assumption+)

lemma siphash_init_inv [wf_intros]:
  "length (sh_buf s) = 8 \<Longrightarrow> siphash_inv (buckets_siphash_init s k0 k1)"
  by (simp add: siphash_inv_def buckets_siphash_init_def)

lemma siphash_update_inv [wf_intros]:
  "siphash_inv s \<Longrightarrow> siphash_inv (buckets_siphash_update s data)"
  using siphash_update_stream by (cases data) (auto simp: buckets_siphash_update_def)

section \<open>The published function\<close>

text \<open>SipHash-2-4 of a whole message: the message is padded with zero bytes and its
  length modulo 256 to a multiple of eight bytes, and every little-endian word of it
  is compressed in turn.\<close>

definition sip_pad :: "bytes \<Rightarrow> bytes" where
  "sip_pad msg = replicate (7 - length msg mod 8) 0 @ [of_nat (length msg)]"

definition sip_start :: "u64 \<Rightarrow> u64 \<Rightarrow> sip_vars" where
  "sip_start k0 k1 =
    (k0 XOR 0x736f6d6570736575, k1 XOR 0x646f72616e646f6d,
     k0 XOR 0x6c7967656e657261, k1 XOR 0x7465646279746573)"

definition siphash_2_4 :: "u64 \<Rightarrow> u64 \<Rightarrow> bytes \<Rightarrow> u64" where
  "siphash_2_4 k0 k1 msg =
    (let (v0, v1, v2, v3) =
           foldl sip_compress (sip_start k0 k1) (map le_word (blocks 8 (msg @ sip_pad msg)))
     in sip_xor_out ((SIPROUND ^^ 4) (v0, v1, v2 XOR 0xff, v3)))"

lemma sip_last_block_le_word:
  assumes "length buf = 8" "n < 8"
  shows "sip_last_block t buf n = le_word (take n buf @ replicate (7 - n) 0 @ [ucast t])"
proof -
  have "(0xff :: u64) = mask 8" by (simp add: mask_eq_exp_minus_1)
  then have len: "push_bit 56 (t AND 0xff) = push_bit 56 (ucast (ucast t :: u8) :: u64)"
    by (simp only: flip: take_bit_eq_mask) (rule bit_word_eqI, auto simp: bit_simps)
  obtain a b c d e f g h r where "buf = a # b # c # d # e # f # g # h # r"
    using assms(1) by (elim list8E [of buf, rotated]) auto
  moreover have "n \<in> {0, 1, 2, 3, 4, 5, 6, 7}" using assms(2) by auto
  ultimately show ?thesis
    unfolding sip_last_block_def len
    by (auto simp: numeral_eq_Suc push_bit_or push_bit_push_bit or.assoc or.commute or.left_commute)
qed


lemma SIPROUND_4: "(SIPROUND ^^ 4) v = SIPROUND (SIPROUND (SIPROUND (SIPROUND v)))"
  by (simp add: numeral_eq_Suc del: SIPROUND.simps)

lemma siphash_one_shot:
  assumes "length (sh_buf frame) = 8"
  shows "buckets_siphash_in frame k0 k1 (Some msg) = siphash_2_4 k0 k1 msg"
proof -
  let ?s = "buckets_siphash_init frame k0 k1"
  let ?t = "buckets_siphash_update ?s (Some msg)"
  let ?rest = "drop (length msg - length msg mod 8) msg"
  have inv: "siphash_inv ?t" "siphash_inv ?s" by (intro wf_intros assms)+
  have "(sip_vars_of ?t, sip_pending ?t) = chunk_fold 8 (8 - 1) sip_absorb (sip_start k0 k1) msg"
    using siphash_update_stream [OF inv(2), of msg]
    by (simp add: buckets_siphash_init_def sip_vars_of_def sip_start_def)
  then have st: "sip_vars_of ?t = foldl sip_absorb (sip_start k0 k1) (blocks 8 msg)"
      "sip_pending ?t = ?rest"
    by (simp_all only: chunk_fold_blocks zero_less_numeral prod.inject)
  have n: "sh_buf_len ?t = length msg mod 8"
    using arg_cong [OF st(2), of length] inv(1) by (simp add: siphash_inv_def)
  have "sip_last_block (sh_total_len ?t) (sh_buf ?t) (sh_buf_len ?t) = le_word (?rest @ sip_pad msg)"
    using inv(1) sip_last_block_le_word [of "sh_buf ?t" "sh_buf_len ?t" "sh_total_len ?t"]
    by (simp add: siphash_inv_def frame_simps st(2) n [symmetric] sip_pad_def)
      (simp add: buckets_siphash_init_def n)
  moreover have "blocks 8 (msg @ sip_pad msg) = blocks 8 msg @ [?rest @ sip_pad msg]"
    by (rule blocks_append_last) (auto simp: sip_pad_def, presburger)
  moreover have "foldl (\<lambda>v b. sip_compress v (le_word b)) v (blocks 8 msg) =
                 foldl sip_absorb v (blocks 8 msg)" for v
    by (rule foldl_cong) (simp_all add: load_le64_le_word blocks_length)
  ultimately show ?thesis
    by (simp add: buckets_siphash_in_def buckets_siphash_final_def siphash_2_4_def st(1)
        foldl_map SIPROUND_4 del: SIPROUND.simps)
qed


lemma SIPROUND_w64:
  "SIPROUND (w64 a, w64 b, w64 c, w64 d) =
    (let v0 = w64 a + w64 b; v1 = ROTL64 (w64 b) 13; v1 = v1 XOR v0; v0 = ROTL64 v0 32;
         v2 = w64 c + w64 d; v3 = ROTL64 (w64 d) 16; v3 = v3 XOR v2;
         v0 = v0 + v3; v3 = ROTL64 v3 21; v3 = v3 XOR v0;
         v2 = v2 + v1; v1 = ROTL64 v1 17; v1 = v1 XOR v2; v2 = ROTL64 v2 32
     in (v0, v1, v2, v3))"
  by (simp only: SIPROUND.simps)

text \<open>C13: the incremental interface computes the published SipHash-2-4.  Whatever the
  automatic variable contained before initialisation and however the message is cut
  into updates, the final value is the function of the whole message.\<close>

theorem siphash_incremental_correct:
  assumes "length (sh_buf frame) = 8"
  shows "buckets_siphash_final
           (foldl (\<lambda>s xs. buckets_siphash_update s (Some xs)) (buckets_siphash_init frame k0 k1) xss) =
         siphash_2_4 k0 k1 (concat xss)"
proof -
  have "buckets_siphash_final
          (foldl (\<lambda>s xs. buckets_siphash_update s (Some xs)) (buckets_siphash_init frame k0 k1) ([] # xss)) =
        siphash_2_4 k0 k1 (concat xss)"
    using sip.digest_chunking [OF siphash_init_inv [OF assms], of k0 k1 "[]" xss]
      siphash_one_shot [OF assms, of k0 k1 "concat xss"]
    by (simp add: buckets_siphash_in_def)
  moreover have "buckets_siphash_update (buckets_siphash_init frame k0 k1) (Some []) =
                 buckets_siphash_init frame k0 k1"
    by (simp add: buckets_siphash_update_def buckets_siphash_init_def sip_blocks.simps
        sip_save_def sip_vars_of_def)
  ultimately show ?thesis by simp
qed

text \<open>The reference vector of the algorithm's authors: key \<open>00 .. 0f\<close>, message \<open>00 .. 0e\<close>,
  here in three pieces.\<close>

theorem siphash_incremental_correct_witness:
  "length (sh_buf siphash_frame) = 8 \<and>
   buckets_siphash_final
     (foldl (\<lambda>s xs. buckets_siphash_update s (Some xs))
        (buckets_siphash_init siphash_frame 0x0706050403020100 0x0f0e0d0c0b0a0908)
        [[0, 1, 2], [3, 4, 5, 6, 7, 8, 9, 10], [11, 12, 13, 14]]) = 0xa129ca6149be45e5"
proof -
  have "length (sh_buf siphash_frame) = 8"
    by (simp add: siphash_frame_def)
  moreover have "siphash_2_4 0x0706050403020100 0x0f0e0d0c0b0a0908
      (concat [[0, 1, 2], [3, 4, 5, 6, 7, 8, 9, 10], [11, 12, 13, 14]]) = 0xa129ca6149be45e5"
    by (simp add: siphash_2_4_def sip_start_def blocks.simps sip_pad_def SIPROUND_4
        sip_compress_def sip_xor_out_def SIPROUND_w64 ROTL64_def Let_def w64_eval
        del: SIPROUND.simps cong: let_weak_cong prod.case_cong_weak)
  ultimately show ?thesis
    by (simp only: siphash_incremental_correct simp_thms)
qed

text \<open>An object is placed on an existing set.  For a positive number of sets the
  result is an index below it; for any other argument the function answers \<open>-1\<close>.\<close>

theorem hash_object_to_set_range:
  assumes "0 < set_count" "in_i32 set_count"
  shows "0 \<le> buckets_hash_object_to_set (Some name) (Some did) set_count \<and>
         buckets_hash_object_to_set (Some name) (Some did) set_count < set_count"
proof -
  let ?h = "buckets_siphash (load_le64 did) (load_le64 (drop 8 did)) (Some (str_bytes name))"
  have "set_count < 2 ^ 64" using assms by (simp add: in_i32_def)
  then have "uint (of_int set_count :: u64) = set_count"
    using assms by (simp add: uint_word_of_int_eq take_bit_int_eq_self)
  then have e: "uint (?h mod of_int set_count) = uint ?h mod set_count"
    by (simp add: uint_mod)
  have r: "0 \<le> uint ?h mod set_count" "uint ?h mod set_count < set_count"
    using assms by simp_all
  then have "in_i32 (uint ?h mod set_count)"
    using assms(2) by (simp add: in_i32_def)
  then show ?thesis
    using assms(1) r e by (simp add: buckets_hash_object_to_set_def)
qed

theorem hash_object_to_set_range_witness:
  "0 \<le> buckets_hash_object_to_set (Some ''a/b'') (Some (replicate 16 7)) 12 \<and>
   buckets_hash_object_to_set (Some ''a/b'') (Some (replicate 16 7)) 12 < 12"
  by (rule hash_object_to_set_range) (simp_all add: in_i32_def)

section \<open>Deployment ids\<close>

text \<open>The canonical form: sixteen bytes as lower-case hexadecimal pairs in groups of
  4, 2, 2, 2 and 6 bytes, separated by hyphens.\<close>

definition hex_byte :: "u8 \<Rightarrow> string" where
  "hex_byte b = [hex_char (unat b div 16), hex_char (unat b mod 16)]"

definition uuid_canonical :: "bytes \<Rightarrow> string" where
  "uuid_canonical bs =
     concat (map hex_byte (take 4 bs)) @ ''-'' @
     concat (map hex_byte (take 2 (drop 4 bs))) @ ''-'' @
     concat (map hex_byte (take 2 (drop 6 bs))) @ ''-'' @
     concat (map hex_byte (take 2 (drop 8 bs))) @ ''-'' @
     concat (map hex_byte (drop 10 bs))"

lemma hex_char_not_hyphen [simp]: "d < 16 \<Longrightarrow> hex_char d \<noteq> CHR ''-''"
  using hex_val_hex_char [of d] by (auto simp: hex_val_def)

lemma u8_div_mod_16 [simp]: "unat (b :: u8) div 16 < 16" "unat (b :: u8) mod 16 < 16"
  using unsigned_less [of b, where 'a = nat] by (simp_all add: less_mult_imp_div_less)

lemma u8_from_nibbles: "(push_bit 4 (of_nat (unat b div 16)) OR of_nat (unat b mod 16)) = (b :: u8)"
proof -
  have "unat b div 16 = drop_bit 4 (unat b)" "unat b mod 16 = take_bit 4 (unat b)"
    by (simp_all add: drop_bit_eq_div take_bit_eq_mod)
  then have "of_nat (unat b div 16) = drop_bit 4 b" "of_nat (unat b mod 16) = take_bit 4 b"
    by (auto intro!: bit_word_eqI simp: bit_simps)
  moreover have "push_bit 4 (drop_bit 4 b) OR take_bit 4 b = b"
    by (rule bit_word_eqI) (auto simp: bit_simps)
  ultimately show ?thesis by simp
qed


lemma length_hex_byte [simp]: "length (hex_byte b) = 2"
  by (simp add: hex_byte_def)

lemma uuid_parse_byte:
  assumes "s = pre @ hex_byte b @ post"
  shows "uuid_parse_loop s (Suc n) (length pre) acc = uuid_parse_loop s n (length pre + 2) (acc @ [b])"
  using assms
  by (simp add: uuid_parse_loop.simps(2) hex_byte_def char_at_def nth_append u8_from_nibbles)

lemma uuid_parse_hyphen_byte:
  assumes "s = pre @ CHR ''-'' # hex_byte b @ post"
  shows "uuid_parse_loop s (Suc n) (length pre) acc = uuid_parse_loop s n (length pre + 3) (acc @ [b])"
  using assms
  by (simp add: uuid_parse_loop.simps(2) hex_byte_def char_at_def nth_append u8_from_nibbles
      numeral_3_eq_3)

lemma uuid_parse_bytes:
  "s = pre @ concat (map hex_byte bs) @ post \<Longrightarrow>
   uuid_parse_loop s (length bs + n) (length pre) acc =
   uuid_parse_loop s n (length pre + 2 * length bs) (acc @ bs)"
proof (induction bs arbitrary: pre acc)
  case (Cons b bs)
  then show ?case
    using uuid_parse_byte [of s pre b] Cons.IH [of "pre @ hex_byte b" "acc @ [b]"]
    by (simp add: add.commute add.assoc)
qed simp

text \<open>A group that follows a hyphen.\<close>

lemma uuid_parse_group:
  assumes "s = pre @ CHR ''-'' # concat (map hex_byte bs) @ post" "bs \<noteq> []"
  shows "uuid_parse_loop s (length bs + n) (length pre) acc =
         uuid_parse_loop s n (length pre + 1 + 2 * length bs) (acc @ bs)"
proof -
  obtain b cs where bs: "bs = b # cs" using assms(2) by (cases bs) auto
  show ?thesis
    using uuid_parse_hyphen_byte [of s pre b] assms bs
      uuid_parse_bytes [of s "pre @ CHR ''-'' # hex_byte b" cs post n "acc @ [b]"]
    by (simp add: add.commute add.assoc numeral_3_eq_3)
qed

text \<open>The reader of deployment ids accepts the canonical form of any sixteen bytes
  and yields the key those bytes encode, so the placement by id string is the
  placement by id bytes.\<close>

theorem uuid_str_roundtrip:
  assumes "length bs = 16"
  shows "buckets_uuid_str_to_siphash_key (Some (uuid_canonical bs)) = Ok (buckets_uuid_to_siphash_key bs) \<and>
         buckets_hash_object_to_set_str name (Some (uuid_canonical bs)) set_count =
         Ok (buckets_hash_object_to_set name (Some bs) set_count)"
proof -
  let ?s = "uuid_canonical bs"
  let ?g = "\<lambda>xs. concat (map hex_byte xs)"
  let ?a = "take 4 bs" and ?b = "take 2 (drop 4 bs)" and ?c = "take 2 (drop 6 bs)"
    and ?d = "take 2 (drop 8 bs)" and ?e = "drop 10 bs"
  have len: "length (?g xs) = 2 * length xs" for xs
    by (induction xs) simp_all
  have ls: "length ?s = 36" using assms by (simp add: uuid_canonical_def len)
  have "uuid_parse_loop ?s 16 0 [] = uuid_parse_loop ?s 12 8 ?a"
    using uuid_parse_bytes [of ?s "[]" ?a _ 12 "[]"] assms by (simp add: uuid_canonical_def)
  also have "\<dots> = uuid_parse_loop ?s 10 13 (?a @ ?b)"
    using uuid_parse_group [of ?s "?g ?a" ?b _ 10] assms by (simp add: uuid_canonical_def len)
  also have "\<dots> = uuid_parse_loop ?s 8 18 (?a @ ?b @ ?c)"
    using uuid_parse_group [of ?s "?g ?a @ ''-'' @ ?g ?b" ?c _ 8] assms
    by (simp add: uuid_canonical_def len)
  also have "\<dots> = uuid_parse_loop ?s 6 23 (?a @ ?b @ ?c @ ?d)"
    using uuid_parse_group [of ?s "?g ?a @ ''-'' @ ?g ?b @ ''-'' @ ?g ?c" ?d _ 6] assms
    by (simp add: uuid_canonical_def len)
  also have "\<dots> = Ok (?a @ ?b @ ?c @ ?d @ ?e)"
    using uuid_parse_group [of ?s "?g ?a @ ''-'' @ ?g ?b @ ''-'' @ ?g ?c @ ''-'' @ ?g ?d" ?e "[]" 0] assms
    by (simp add: uuid_canonical_def len)
  also have "?a @ ?b @ ?c @ ?d @ ?e = bs"
    using append_take_drop_id [of 2 "drop 8 bs"] append_take_drop_id [of 2 "drop 6 bs"]
      append_take_drop_id [of 2 "drop 4 bs"] append_take_drop_id [of 4 bs] by simp
  finally have p: "uuid_parse_loop ?s 16 0 [] = Ok bs" .
  have "store_le64 (load_le64 bs) = take 8 bs" "store_le64 (load_le64 (drop 8 bs)) = drop 8 bs"
    using store_load_le64 [of "take 8 bs"] store_load_le64 [of "drop 8 bs"]
      load_le64_append [of "take 8 bs" "drop 8 bs"] assms by simp_all
  then show ?thesis
    using p ls by (simp add: buckets_uuid_str_to_siphash_key_def buckets_hash_object_to_set_str_def
        buckets_uuid_to_siphash_key_def)
qed

text \<open>The reader can read past the terminator of its argument.  Twelve groups of a
  hyphen and one byte have the expected length of 36 characters, but the loop then
  asks for a thirteenth byte at the terminator and reads the character behind it.\<close>

theorem uuid_str_reads_past_terminator:
  assumes "length bs = 12"
  shows "buckets_uuid_str_to_siphash_key (Some (concat (map (\<lambda>b. CHR ''-'' # hex_byte b) bs))) = Undefined"
proof -
  let ?f = "\<lambda>xs. concat (map (\<lambda>b. CHR ''-'' # hex_byte b) xs)"
  let ?s = "?f bs"
  have len: "length (?f xs) = 3 * length xs" for xs
    by (induction xs) simp_all
  have "uuid_parse_loop ?s (length ys + n) (3 * length xs) acc =
        uuid_parse_loop ?s n (3 * length bs) (acc @ ys)"
    if "bs = xs @ ys" for xs ys n acc
    using that
  proof (induction ys arbitrary: xs acc)
    case (Cons y ys)
    then show ?case
      using uuid_parse_hyphen_byte [of ?s "?f xs" y "?f ys"] Cons.IH [of "xs @ [y]" "acc @ [y]"]
      by (simp add: len add.commute)
  qed simp
  from this [of "[]" bs 4 "[]"] have "uuid_parse_loop ?s 16 0 [] = uuid_parse_loop ?s 4 36 bs"
    using assms by simp
  also have "\<dots> = Undefined"
    using assms uuid_parse_loop.simps(2) [of ?s 3 36 bs] by (simp add: char_at_def len)
  finally show ?thesis
    using assms by (simp add: buckets_uuid_str_to_siphash_key_def len)
qed


theorem uuid_str_roundtrip_witness:
  "length [0x12, 0x34, 0x56, 0x78, 0x9a, 0xbc, 0xde, 0xf0, 1, 2, 3, 4, 5, 6, 7, 8 :: u8] = 16 \<and>
   buckets_uuid_str_to_siphash_key (Some ''12345678-9abc-def0-0102-030405060708'') =
     Ok (0xf0debc9a78563412, 0x0807060504030201) \<and>
   buckets_hash_object_to_set_str (Some ''k'') (Some ''12345678-9abc-def0-0102-030405060708'') 4 =
     Ok (buckets_hash_object_to_set (Some ''k'')
           (Some [0x12, 0x34, 0x56, 0x78, 0x9a, 0xbc, 0xde, 0xf0, 1, 2, 3, 4, 5, 6, 7, 8]) 4)"
proof -
  let ?bs = "[0x12, 0x34, 0x56, 0x78, 0x9a, 0xbc, 0xde, 0xf0, 1, 2, 3, 4, 5, 6, 7, 8 :: u8]"
  have "uuid_canonical ?bs = ''12345678-9abc-def0-0102-030405060708''"
    by (simp add: uuid_canonical_def hex_byte_def hex_char_def)
  moreover have "buckets_uuid_to_siphash_key ?bs = (0xf0debc9a78563412, 0x0807060504030201)"
    by (simp add: buckets_uuid_to_siphash_key_def load_le64_le_word)
  ultimately show ?thesis
    using uuid_str_roundtrip [of ?bs "Some ''k''" 4] by simp
qed

theorem uuid_str_reads_past_terminator_witness:
  "length [1, 2, 3, 4, 5, 6, 7, 8, 9, 10, 11, 0xab :: u8] = 12 \<and>
   buckets_uuid_str_to_siphash_key (Some ''-01-02-03-04-05-06-07-08-09-0a-0b-ab'') = Undefined"
  using uuid_str_reads_past_terminator [of "[1, 2, 3, 4, 5, 6, 7, 8, 9, 10, 11, 0xab]"]
  by (simp add: hex_byte_def hex_char_def)

end
