(* ===== verification/XXHash.thy ===== *)
theory XXHash
  imports Hash_Stream
begin

text \<open>
  xxHash64 as \<^verbatim>\<open>src/src/hash/xxhash.c\<close> computes it: four accumulators that absorb
  stripes of 32 bytes, a buffer for the last incomplete stripe, and a finalisation
  that consumes the buffered bytes eight, four and one at a time.  The lemmas show
  that the incremental code computes the published function of the whole input
  however it is split.
\<close>

section \<open>State and rounds\<close>

record buckets_xxhash_state =
  xx_v1 :: u64
  xx_v2 :: u64
  xx_v3 :: u64
  xx_v4 :: u64
  xx_total_len :: u64
  xx_seed :: u64
  xx_buf :: bytes
  xx_buf_len :: nat

type_synonym xx_vars = "u64 \<times> u64 \<times> u64 \<times> u64"

definition XXHASH_PRIME64_1 :: u64 where "XXHASH_PRIME64_1 = 0x9E3779B185EBCA87"
definition XXHASH_PRIME64_2 :: u64 where "XXHASH_PRIME64_2 = 0xC2B2AE3D27D4EB4F"
definition XXHASH_PRIME64_3 :: u64 where "XXHASH_PRIME64_3 = 0x165667B19E3779F9"
definition XXHASH_PRIME64_4 :: u64 where "XXHASH_PRIME64_4 = 0x85EBCA77C2B2AE63"
definition XXHASH_PRIME64_5 :: u64 where "XXHASH_PRIME64_5 = 0x27D4EB2F165667C5"

lemmas xx_primes = XXHASH_PRIME64_1_def XXHASH_PRIME64_2_def XXHASH_PRIME64_3_def
  XXHASH_PRIME64_4_def XXHASH_PRIME64_5_def

definition xxh_rotl64 :: "u64 \<Rightarrow> nat \<Rightarrow> u64" where
  "xxh_rotl64 x r = push_bit r x OR drop_bit (64 - r) x"

definition xxh_read64 :: "bytes \<Rightarrow> u64" where
  "xxh_read64 p =
     ucast (p ! 0) OR push_bit 8 (ucast (p ! 1)) OR
     push_bit 16 (ucast (p ! 2)) OR push_bit 24 (ucast (p ! 3)) OR
     push_bit 32 (ucast (p ! 4)) OR push_bit 40 (ucast (p ! 5)) OR
     push_bit 48 (ucast (p ! 6)) OR push_bit 56 (ucast (p ! 7))"

definition xxh_read32 :: "bytes \<Rightarrow> u32" where
  "xxh_read32 p =
     ucast (p ! 0) OR push_bit 8 (ucast (p ! 1)) OR
     push_bit 16 (ucast (p ! 2)) OR push_bit 24 (ucast (p ! 3))"

definition xxh_round :: "u64 \<Rightarrow> u64 \<Rightarrow> u64" where
  "xxh_round acc input =
    (let acc = acc + input * XXHASH_PRIME64_2;
         acc = xxh_rotl64 acc 31
     in acc * XXHASH_PRIME64_1)"

definition xxh_merge_round :: "u64 \<Rightarrow> u64 \<Rightarrow> u64" where
  "xxh_merge_round acc val =
    (let val = xxh_round 0 val;
         acc = acc XOR val
     in acc * XXHASH_PRIME64_1 + XXHASH_PRIME64_4)"

section \<open>The incremental interface\<close>

definition xx_vars_of :: "buckets_xxhash_state \<Rightarrow> xx_vars" where
  "xx_vars_of s = (xx_v1 s, xx_v2 s, xx_v3 s, xx_v4 s)"

definition xx_save :: "xx_vars \<Rightarrow> buckets_xxhash_state \<Rightarrow> buckets_xxhash_state" where
  "xx_save v s = (let (v1, v2, v3, v4) = v in
     s\<lparr>xx_v1 := v1, xx_v2 := v2, xx_v3 := v3, xx_v4 := v4\<rparr>)"

definition buckets_xxhash_init :: "buckets_xxhash_state \<Rightarrow> u64 \<Rightarrow> buckets_xxhash_state" where
  "buckets_xxhash_init s seed =
     s\<lparr>xx_seed := seed,
       xx_v1 := seed + XXHASH_PRIME64_1 + XXHASH_PRIME64_2,
       xx_v2 := seed + XXHASH_PRIME64_2,
       xx_v3 := seed,
       xx_v4 := seed - XXHASH_PRIME64_1,
       xx_total_len := 0, xx_buf_len := 0\<rparr>"

text \<open>The four rounds over one stripe, as both the buffered block and the loop run them.\<close>

definition xx_stripe :: "xx_vars \<Rightarrow> bytes \<Rightarrow> xx_vars" where
  "xx_stripe v p = (let (v1, v2, v3, v4) = v in
     (xxh_round v1 (xxh_read64 p), xxh_round v2 (xxh_read64 (drop 8 p)),
      xxh_round v3 (xxh_read64 (drop 16 p)), xxh_round v4 (xxh_read64 (drop 24 p))))"

function xx_stripes :: "xx_vars \<Rightarrow> bytes \<Rightarrow> xx_vars \<times> bytes" where
  "xx_stripes v p =
     (if 32 \<le> length p then xx_stripes (xx_stripe v p) (drop 32 p) else (v, p))"
  by pat_completeness auto
termination
  by (relation "measure (\<lambda>(v, p). length p)") auto

declare xx_stripes.simps [simp del]

definition buckets_xxhash_update ::
  "buckets_xxhash_state \<Rightarrow> bytes option \<Rightarrow> buckets_xxhash_state" where
  "buckets_xxhash_update s data =
    (case data of
       None \<Rightarrow> s
     | Some p \<Rightarrow>
       (let s = s\<lparr>xx_total_len := xx_total_len s + of_nat (length p)\<rparr>;
            (s, p) =
              (if 0 < xx_buf_len s then
                 (let to_copy = (if length p < 32 - xx_buf_len s then length p
                                 else 32 - xx_buf_len s);
                      s = s\<lparr>xx_buf := memcpy (xx_buf s) (xx_buf_len s) p to_copy,
                            xx_buf_len := xx_buf_len s + to_copy\<rparr>;
                      p = drop to_copy p
                  in if xx_buf_len s = 32
                     then ((xx_save (xx_stripe (xx_vars_of s) (xx_buf s)) s)\<lparr>xx_buf_len := 0\<rparr>, p)
                     else (s, p))
               else (s, p));
            (v, p) = xx_stripes (xx_vars_of s) p;
            s = xx_save v s
        in if 0 < length p
           then s\<lparr>xx_buf := memcpy (xx_buf s) 0 p (length p), xx_buf_len := length p\<rparr>
           else s))"

section \<open>Finalisation\<close>

text \<open>The three loops over the buffered bytes: eight, then four, then one at a time.\<close>

function xx_tail8 :: "u64 \<Rightarrow> bytes \<Rightarrow> u64 \<times> bytes" where
  "xx_tail8 h p =
     (if 8 \<le> length p then
        (let k1 = xxh_round 0 (xxh_read64 p);
             h = h XOR k1;
             h = xxh_rotl64 h 27 * XXHASH_PRIME64_1 + XXHASH_PRIME64_4
         in xx_tail8 h (drop 8 p))
      else (h, p))"
  by pat_completeness auto
termination
  by (relation "measure (\<lambda>(h, p). length p)") auto

declare xx_tail8.simps [simp del]

definition xx_tail4 :: "u64 \<Rightarrow> bytes \<Rightarrow> u64 \<times> bytes" where
  "xx_tail4 h p =
     (if 4 \<le> length p then
        (let h = h XOR (ucast (xxh_read32 p) * XXHASH_PRIME64_1);
             h = xxh_rotl64 h 23 * XXHASH_PRIME64_2 + XXHASH_PRIME64_3
         in (h, drop 4 p))
      else (h, p))"

fun xx_tail1 :: "u64 \<Rightarrow> bytes \<Rightarrow> u64" where
  "xx_tail1 h [] = h"
| "xx_tail1 h (b # p) =
     (let h = h XOR (ucast b * XXHASH_PRIME64_5);
          h = xxh_rotl64 h 11 * XXHASH_PRIME64_1
      in xx_tail1 h p)"

definition xx_avalanche :: "u64 \<Rightarrow> u64" where
  "xx_avalanche h =
    (let h = h XOR drop_bit 33 h;
         h = h * XXHASH_PRIME64_2;
         h = h XOR drop_bit 29 h;
         h = h * XXHASH_PRIME64_3
     in h XOR drop_bit 32 h)"

definition xx_converge :: "xx_vars \<Rightarrow> u64" where
  "xx_converge v =
    (let (v1, v2, v3, v4) = v;
         h = xxh_rotl64 v1 1 + xxh_rotl64 v2 7 + xxh_rotl64 v3 12 + xxh_rotl64 v4 18;
         h = xxh_merge_round h v1;
         h = xxh_merge_round h v2;
         h = xxh_merge_round h v3
     in xxh_merge_round h v4)"

definition buckets_xxhash_final :: "buckets_xxhash_state \<Rightarrow> u64" where
  "buckets_xxhash_final s =
    (let h = (if 32 \<le> xx_total_len s then xx_converge (xx_vars_of s)
              else xx_seed s + XXHASH_PRIME64_5);
         h = h + xx_total_len s;
         (h, p) = xx_tail8 h (take (xx_buf_len s) (xx_buf s));
         (h, p) = xx_tail4 h p;
         h = xx_tail1 h p
     in xx_avalanche h)"

text \<open>The automatic variable of the one-shot function; its initial contents do not matter.\<close>

definition xxhash_frame :: buckets_xxhash_state where
  "xxhash_frame = \<lparr>xx_v1 = 0, xx_v2 = 0, xx_v3 = 0, xx_v4 = 0, xx_total_len = 0, xx_seed = 0,
     xx_buf = replicate 32 0, xx_buf_len = 0\<rparr>"

definition buckets_xxhash64 :: "u64 \<Rightarrow> bytes option \<Rightarrow> u64" where
  "buckets_xxhash64 seed data =
     buckets_xxhash_final (buckets_xxhash_update (buckets_xxhash_init xxhash_frame seed) data)"

definition buckets_checksum :: "bytes option \<Rightarrow> u64" where
  "buckets_checksum data = buckets_xxhash64 0 data"

section \<open>The published function\<close>

text \<open>xxHash64 of a whole input: the stripes of 32 bytes, then the remaining bytes as
  little-endian numbers of eight, four and one bytes.\<close>

definition xxh64_lanes :: "xx_vars \<Rightarrow> bytes \<Rightarrow> xx_vars" where
  "xxh64_lanes v b = (let (v1, v2, v3, v4) = v in
     (xxh_round v1 (le_word (take 8 b)), xxh_round v2 (le_word (take 8 (drop 8 b))),
      xxh_round v3 (le_word (take 8 (drop 16 b))), xxh_round v4 (le_word (drop 24 b))))"

function xxh64_rest :: "u64 \<Rightarrow> bytes \<Rightarrow> u64" where
  "xxh64_rest h bs =
    (if 8 \<le> length bs then
       xxh64_rest (xxh_rotl64 (h XOR xxh_round 0 (le_word (take 8 bs))) 27 * XXHASH_PRIME64_1
                   + XXHASH_PRIME64_4) (drop 8 bs)
     else if 4 \<le> length bs then
       xxh64_rest (xxh_rotl64 (h XOR (le_word (take 4 bs) * XXHASH_PRIME64_1)) 23 * XXHASH_PRIME64_2
                   + XXHASH_PRIME64_3) (drop 4 bs)
     else (case bs of
             [] \<Rightarrow> h
           | b # bs' \<Rightarrow>
             xxh64_rest (xxh_rotl64 (h XOR (le_word [b] * XXHASH_PRIME64_5)) 11 * XXHASH_PRIME64_1) bs'))"
  by pat_completeness auto
termination
  by (relation "measure (\<lambda>(h, bs). length bs)") auto

declare xxh64_rest.simps [simp del]

definition xxh64 :: "u64 \<Rightarrow> bytes \<Rightarrow> u64" where
  "xxh64 seed msg =
    (let start = (seed + XXHASH_PRIME64_1 + XXHASH_PRIME64_2, seed + XXHASH_PRIME64_2, seed,
                  seed - XXHASH_PRIME64_1);
         h = (if 32 \<le> length msg then xx_converge (foldl xxh64_lanes start (blocks 32 msg))
              else seed + XXHASH_PRIME64_5)
     in xx_avalanche (xxh64_rest (h + of_nat (length msg)) (drop (length msg - length msg mod 32) msg)))"

section \<open>Reads\<close>

lemma xxh_read64_le_word: "8 \<le> length p \<Longrightarrow> xxh_read64 p = le_word (take 8 p)"
  by (simp only: xxh_read64_def le_word_8)

lemma xxh_read32_le_word: "4 \<le> length p \<Longrightarrow> xxh_read32 p = le_word (take 4 p)"
  by (auto simp: xxh_read32_def numeral_eq_Suc Suc_le_length_iff push_bit_or push_bit_push_bit or.assoc)

lemma xx_stripe_lanes: "length p = 32 \<Longrightarrow> xx_stripe v p = xxh64_lanes v p"
  by (simp add: xx_stripe_def xxh64_lanes_def xxh_read64_le_word split: prod.split)

lemma xx_stripe_take: "32 \<le> length p \<Longrightarrow> xx_stripe v (take 32 p) = xx_stripe v p"
  by (simp add: xx_stripe_def xxh_read64_le_word drop_take split: prod.split)

lemma xx_tail1_rest: "length p < 4 \<Longrightarrow> xx_tail1 h p = xxh64_rest h p"
  by (induction h p rule: xx_tail1.induct) (simp_all add: xxh64_rest.simps [of h] xxh64_rest.simps Let_def)

lemma xx_tail_rest:
  "(let (h, p) = xx_tail8 h p; (h, p) = xx_tail4 h p in xx_tail1 h p) = xxh64_rest h p"
proof (induction h p rule: xx_tail8.induct)
  case (1 h p)
  show ?case
  proof (cases "8 \<le> length p")
    case True
    with 1 show ?thesis
      by (simp add: xx_tail8.simps [of h p] xxh64_rest.simps [of h p] xxh_read64_le_word Let_def)
  next
    case False
    then show ?thesis
      by (simp add: xx_tail8.simps [of h p] xx_tail4_def Let_def xx_tail1_rest
          xxh64_rest.simps [of h p] xxh_read32_le_word ucast_le_word)
  qed
qed

section \<open>The incremental interface absorbs stripes\<close>

abbreviation xx_pending :: "buckets_xxhash_state \<Rightarrow> bytes" where
  "xx_pending s \<equiv> take (xx_buf_len s) (xx_buf s)"

definition xxhash_inv :: "buckets_xxhash_state \<Rightarrow> bool" where
  "xxhash_inv s \<longleftrightarrow> length (xx_buf s) = 32 \<and> xx_buf_len s < 32"

lemma xx_vars_of_simps [simp]:
  "xx_vars_of (xx_save v s) = v"
  "xx_vars_of (s\<lparr>xx_total_len := t\<rparr>) = xx_vars_of s"
  "xx_vars_of (s\<lparr>xx_buf := b\<rparr>) = xx_vars_of s"
  "xx_vars_of (s\<lparr>xx_buf_len := n\<rparr>) = xx_vars_of s"
  by (simp_all add: xx_vars_of_def xx_save_def split: prod.split)

lemma xx_save_simps [simp]:
  "xx_buf (xx_save v s) = xx_buf s"
  "xx_buf_len (xx_save v s) = xx_buf_len s"
  "xx_total_len (xx_save v s) = xx_total_len s"
  "xx_seed (xx_save v s) = xx_seed s"
  by (simp_all add: xx_save_def split: prod.split)

lemma xx_stripes_chunk_fold: "xx_stripes v p = chunk_fold 32 31 xx_stripe v p"
proof (induction v p rule: xx_stripes.induct)
  case (1 v p)
  then show ?case
    by (simp add: xx_stripes.simps [of v p] chunk_fold.simps [of 32 31 _ v p] xx_stripe_take)
qed

lemma xx_stripes_rest:
  assumes "xx_stripes v p = (w, r)"
  shows "length r < 32" "chunk_fold 32 31 xx_stripe v p = (w, r)"
  using assms chunk_fold_rest_length [of 32 31 xx_stripe v p]
  by (simp_all add: xx_stripes_chunk_fold)

lemma xxhash_update_stream:
  assumes "xxhash_inv s"
  shows "xxhash_inv (buckets_xxhash_update s (Some xs)) \<and>
         (xx_vars_of (buckets_xxhash_update s (Some xs)),
          xx_pending (buckets_xxhash_update s (Some xs))) =
         chunk_fold 32 31 xx_stripe (xx_vars_of s) (xx_pending s @ xs)"
proof -
  let ?n = "xx_buf_len s"
  have len: "length (xx_buf s) = 32" "?n < 32"
    using assms by (auto simp: xxhash_inv_def)
  consider "?n = 0" | "0 < ?n" "length xs < 32 - ?n" | "0 < ?n" "32 - ?n \<le> length xs"
    by linarith
  then show ?thesis
  proof cases
    case 1
    obtain w r where b: "xx_stripes (xx_vars_of s) xs = (w, r)" by fastforce
    show ?thesis
      using 1 len xx_stripes_rest [OF b]
      by (simp add: buckets_xxhash_update_def b xxhash_inv_def memcpy_def Let_def)
  next
    case 2
    then have "xx_stripes v [] = (v, [])" "?n + length xs < 32" for v
      using len by (simp_all add: xx_stripes.simps)
    with 2 len show ?thesis
      by (simp add: buckets_xxhash_update_def xxhash_inv_def memcpy_def Let_def)
  next
    case 3
    let ?blk = "take ?n (xx_buf s) @ take (32 - ?n) xs"
    have mem: "memcpy (xx_buf s) ?n xs (32 - ?n) = ?blk"
      using 3 len by (simp add: memcpy_def)
    have "chunk_fold 32 31 xx_stripe (xx_vars_of s) (?blk @ drop (32 - ?n) xs) =
          chunk_fold 32 31 xx_stripe (xx_stripe (xx_vars_of s) ?blk) (drop (32 - ?n) xs)"
      using 3 len by (intro chunk_fold_block) auto
    then have eq: "chunk_fold 32 31 xx_stripe (xx_vars_of s) (xx_pending s @ xs) =
                   chunk_fold 32 31 xx_stripe (xx_stripe (xx_vars_of s) ?blk) (drop (32 - ?n) xs)"
      by simp
    obtain w r where
      b: "xx_stripes (xx_stripe (xx_vars_of s) ?blk) (drop (32 - ?n) xs) = (w, r)"
      by fastforce
    show ?thesis
      unfolding eq
      using 3 len xx_stripes_rest [OF b]
      by (auto simp: buckets_xxhash_update_def mem b xxhash_inv_def Let_def memcpy_def)
  qed
qed

lemma xxhash_update_frame [frame_simps]:
  "xx_total_len (buckets_xxhash_update s (Some xs)) = xx_total_len s + of_nat (length xs)"
  "xx_seed (buckets_xxhash_update s data) = xx_seed s"
  by (simp_all add: buckets_xxhash_update_def Let_def split: prod.split option.split)

interpretation xx: block_hash_digest 32 xx_stripe
  "\<lambda>s xs. buckets_xxhash_update s (Some xs)" xx_vars_of xx_pending xx_total_len xxhash_inv
  buckets_xxhash_final xx_seed
  by unfold_locales
    (simp_all add: xxhash_update_stream frame_simps buckets_xxhash_final_def)

lemma xxhash_init_inv [wf_intros]:
  "length (xx_buf s) = 32 \<Longrightarrow> xxhash_inv (buckets_xxhash_init s seed)"
  by (simp add: xxhash_inv_def buckets_xxhash_init_def)

lemma xxhash_one_shot:
  assumes "length (xx_buf frame) = 32" "length msg < 2 ^ 64"
  shows "buckets_xxhash_final (buckets_xxhash_update (buckets_xxhash_init frame seed) (Some msg)) =
         xxh64 seed msg"
proof -
  let ?s = "buckets_xxhash_init frame seed"
  let ?t = "buckets_xxhash_update ?s (Some msg)"
  let ?v = "(seed + XXHASH_PRIME64_1 + XXHASH_PRIME64_2, seed + XXHASH_PRIME64_2, seed,
             seed - XXHASH_PRIME64_1)"
  have "(xx_vars_of ?t, xx_pending ?t) = chunk_fold 32 (32 - 1) xx_stripe ?v msg"
    using xxhash_update_stream [OF xxhash_init_inv [OF assms(1)], of seed msg]
    by (simp add: buckets_xxhash_init_def xx_vars_of_def)
  then have st: "xx_vars_of ?t = foldl xx_stripe ?v (blocks 32 msg)"
      "xx_pending ?t = drop (length msg - length msg mod 32) msg"
    by (simp_all only: chunk_fold_blocks zero_less_numeral prod.inject)
  have "foldl xx_stripe ?v (blocks 32 msg) = foldl xxh64_lanes ?v (blocks 32 msg)"
    by (rule foldl_cong) (simp_all add: xx_stripe_lanes blocks_length)
  moreover have "xx_total_len ?t = of_nat (length msg)" "xx_seed ?t = seed"
    by (simp_all add: frame_simps) (simp_all add: buckets_xxhash_init_def)
  moreover have "(32 \<le> (of_nat (length msg) :: u64)) = (32 \<le> length msg)"
    using assms(2) by (simp add: word_le_nat_alt unsigned_of_nat take_bit_nat_eq_self)
  ultimately show ?thesis
    using xx_tail_rest by (simp add: buckets_xxhash_final_def xxh64_def st Let_def split_def)
qed

text \<open>C14: the incremental checksum computes the published xxHash64.  Whatever the
  automatic variable contained before initialisation and however the input is cut into
  updates, the final value is the function of the whole input.\<close>

theorem xxhash_incremental_correct:
  assumes "length (xx_buf frame) = 32" "length (concat xss) < 2 ^ 64"
  shows "buckets_xxhash_final
           (foldl (\<lambda>s xs. buckets_xxhash_update s (Some xs)) (buckets_xxhash_init frame seed) xss) =
         xxh64 seed (concat xss)"
proof -
  have "buckets_xxhash_final
          (foldl (\<lambda>s xs. buckets_xxhash_update s (Some xs)) (buckets_xxhash_init frame seed) ([] # xss)) =
        xxh64 seed (concat xss)"
    using xx.digest_chunking [OF xxhash_init_inv [OF assms(1)], of seed "[]" xss]
      xxhash_one_shot [OF assms, of seed] by simp
  moreover have "buckets_xxhash_update (buckets_xxhash_init frame seed) (Some []) =
                 buckets_xxhash_init frame seed"
    by (simp add: buckets_xxhash_update_def buckets_xxhash_init_def xx_stripes.simps
        xx_save_def xx_vars_of_def)
  ultimately show ?thesis by simp
qed

text \<open>The published vector for the letters \<open>abc\<close> under the seed 0, in two updates.\<close>

theorem xxhash_incremental_correct_witness:
  "length (xx_buf xxhash_frame) = 32 \<and>
   buckets_xxhash_final
     (foldl (\<lambda>s xs. buckets_xxhash_update s (Some xs)) (buckets_xxhash_init xxhash_frame 0)
        [[0x61], [0x62, 0x63]]) = 0x44bc2cf5ad770999"
proof -
  have "length (xx_buf xxhash_frame) = 32"
    by (simp add: xxhash_frame_def)
  moreover have "xxh64 0 (concat [[0x61], [0x62, 0x63]]) = 0x44bc2cf5ad770999"
    by (simp add: xxh64_def xxh64_rest.simps xx_avalanche_def xxh_rotl64_def xx_primes
        Let_def w64_eval cong: let_weak_cong)
  ultimately show ?thesis
    using xxhash_incremental_correct [of xxhash_frame "[[0x61], [0x62, 0x63]]" 0] by simp
qed

end
