(* ===== verification/Ring_Search.thy ===== *)
theory Ring_Search
  imports Buckets_Prelude "HOL-Library.Multiset"
begin

text \<open>
  Consistent hashing, as \<^verbatim>\<open>src/src/hash/ring.c\<close> and \<^verbatim>\<open>src/src/placement/placement.c\<close> both
  implement it: an array of virtual nodes sorted by position, searched by bisection
  for the first one at or after a hash, with wrap-around.  The interface
  \<open>ring_search\<close> states what a search must return; what follows from it - the search
  finds the nearest virtual node clockwise, and adding or removing the virtual nodes
  of one owner moves nothing between the others - is proved once.
\<close>

section \<open>Bisection\<close>

text \<open>The loop of every search: \<open>lt mid\<close> is \<^verbatim>\<open>vnodes[mid].hash < hash\<close>.\<close>

function bisect :: "(nat \<Rightarrow> bool) \<Rightarrow> nat \<Rightarrow> nat \<Rightarrow> nat" where
  "bisect lt left right =
     (if left < right then
        (let mid = left + (right - left) div 2 in
         if lt mid then bisect lt (mid + 1) right else bisect lt left mid)
      else left)"
  by pat_completeness auto
termination
  by (relation "measure (\<lambda>(lt, left, right). right - left)") (auto simp: Let_def)

declare bisect.simps [simp del]

lemma bisect_correct:
  assumes "left \<le> right" "right \<le> n"
    and mono: "\<And>i j. i \<le> j \<Longrightarrow> j < n \<Longrightarrow> lt j \<Longrightarrow> lt i"
    and below: "\<And>i. i < left \<Longrightarrow> lt i"
    and above: "\<And>i. right \<le> i \<Longrightarrow> i < n \<Longrightarrow> \<not> lt i"
  shows "bisect lt left right \<le> n \<and> (\<forall>i < n. lt i \<longleftrightarrow> i < bisect lt left right)"
  using assms
proof (induction lt left right rule: bisect.induct)
  case (1 lt left right)
  show ?case
  proof (cases "left < right")
    case False
    then have "bisect lt left right = left" "right = left"
      using "1.prems"(1) by (simp_all add: bisect.simps)
    moreover have "lt i \<longleftrightarrow> i < left" if "i < n" for i
      using "1.prems"(4) [of i] "1.prems"(5) [of i] that \<open>right = left\<close> by (cases "i < left") auto
    ultimately show ?thesis using "1.prems"(2) by simp
  next
    case True
    define mid where "mid = left + (right - left) div 2"
    have m: "left \<le> mid" "mid < right" using True by (auto simp: mid_def)
    have step: "bisect lt left right =
        (if lt mid then bisect lt (mid + 1) right else bisect lt left mid)"
      using True by (simp add: bisect.simps [of lt left right] Let_def mid_def)
    show ?thesis
    proof (cases "lt mid")
      case True': True
      have below: "lt i" if "i < mid + 1" for i
        using "1.prems"(3) [of i mid] True' m "1.prems"(2) that by simp
      have "bisect lt (mid + 1) right \<le> n \<and> (\<forall>i<n. lt i \<longleftrightarrow> i < bisect lt (mid + 1) right)"
        by (rule 1(1) [OF True mid_def True'])
          (use m below "1.prems" in \<open>simp, blast+\<close>)
      then show ?thesis unfolding step using True' by simp
    next
      case False
      have above: "\<not> lt i" if "mid \<le> i" "i < n" for i
        using "1.prems"(3) [of mid i] False that by blast
      have "bisect lt left mid \<le> n \<and> (\<forall>i<n. lt i \<longleftrightarrow> i < bisect lt left mid)"
        by (rule 1(2) [OF True mid_def False])
          (use m above "1.prems" in \<open>simp, simp, blast+\<close>)
      then show ?thesis unfolding step using False by simp
    qed
  qed
qed

section \<open>Positions on the ring\<close>

text \<open>The reference: the first virtual node at or after a hash, else the first one.\<close>

definition clockwise :: "('v \<Rightarrow> u64) \<Rightarrow> 'v list \<Rightarrow> u64 \<Rightarrow> 'v" where
  "clockwise pos vs h = (case dropWhile (\<lambda>v. pos v < h) vs of [] \<Rightarrow> hd vs | v # _ \<Rightarrow> v)"

lemma clockwise_cases:
  assumes "vs \<noteq> []"
  obtains (ahead) us v ws where "vs = us @ v # ws" "\<forall>u\<in>set us. pos u < h" "h \<le> pos v"
      "clockwise pos vs h = v"
  | (wrap) "\<forall>v\<in>set vs. pos v < h" "clockwise pos vs h = hd vs"
proof (cases "dropWhile (\<lambda>v. pos v < h) vs")
  case Nil
  then show ?thesis
    by (intro wrap) (simp add: dropWhile_eq_Nil_conv, simp only: clockwise_def list.case)
next
  case (Cons v ws)
  show ?thesis
  proof (rule ahead)
    show "vs = takeWhile (\<lambda>v. pos v < h) vs @ v # ws"
      using takeWhile_dropWhile_id [of "\<lambda>v. pos v < h" vs] Cons by simp
    show "\<forall>u\<in>set (takeWhile (\<lambda>v. pos v < h) vs). pos u < h"
      using set_takeWhileD by fastforce
    show "h \<le> pos v" using hd_dropWhile [of "\<lambda>v. pos v < h" vs] Cons by simp
    show "clockwise pos vs h = v" using Cons by (simp add: clockwise_def)
  qed
qed

lemma clockwise_in_set: "vs \<noteq> [] \<Longrightarrow> clockwise pos vs h \<in> set vs"
  by (rule clockwise_cases [of vs pos h]) auto

text \<open>The distance from a hash to a position, clockwise, is the wrapped difference.\<close>

lemma clockwise_nearest:
  assumes "sorted (map pos vs)" "w \<in> set vs"
  shows "pos (clockwise pos vs h) - h \<le> pos w - h"
proof -
  have ne: "vs \<noteq> []" using assms(2) by auto
  show ?thesis
  proof (cases rule: clockwise_cases [OF ne, of pos h])
    case (1 us v ws)
    then have "pos w < h \<or> pos v \<le> pos w"
      using assms by (auto simp: sorted_append)
    then show ?thesis
    proof
      assume "pos w < h"
      then show ?thesis using 1 unsigned_less [of "pos v", where 'a = nat]
        by (simp add: word_le_nat_alt word_less_nat_alt unat_sub_if_size word_size)
    next
      assume "pos v \<le> pos w"
      then show ?thesis using 1
        by (simp add: word_le_nat_alt unat_sub_if_size)
    qed
  next
    case 2
    have "pos (hd vs) \<le> pos w"
      using assms ne by (cases vs) auto
    then show ?thesis using 2 assms(2) ne
      by (auto simp: word_le_nat_alt word_less_nat_alt unat_sub_if_size word_size)
  qed
qed

text \<open>Dropping virtual nodes that were not chosen changes nothing.\<close>

lemma clockwise_filter:
  assumes "vs \<noteq> []" "P (clockwise pos vs h)"
  shows "clockwise pos (filter P vs) h = clockwise pos vs h"
proof (cases rule: clockwise_cases [OF assms(1), of pos h])
  case (1 us v ws)
  have "dropWhile (\<lambda>v. pos v < h) (filter P us @ v # filter P ws) = v # filter P ws"
    using 1 by (subst dropWhile_append2) auto
  then show ?thesis using 1 assms(2) by (simp add: clockwise_def)
next
  case 2
  then have "dropWhile (\<lambda>v. pos v < h) (filter P vs) = []"
    by (auto simp: dropWhile_eq_Nil_conv)
  moreover have "hd (filter P vs) = hd vs"
    using assms 2 by (cases vs) auto
  ultimately show ?thesis using 2(2) by (simp only: clockwise_def list.case)
qed

section \<open>The interface\<close>

text \<open>A ring of virtual nodes: their positions, their owners, and a search for the index
  of the virtual node that serves a hash.\<close>

locale ring_search =
  fixes pos :: "'v \<Rightarrow> u64"
    and owner :: "'v \<Rightarrow> 'o"
    and search :: "'v list \<Rightarrow> u64 \<Rightarrow> nat"
  assumes search_clockwise: "\<lbrakk>sorted (map pos vs); vs \<noteq> []\<rbrakk> \<Longrightarrow>
      search vs h < length vs \<and> vs ! search vs h = clockwise pos vs h"
begin

definition serves :: "'v list \<Rightarrow> u64 \<Rightarrow> 'o" where
  "serves vs h = owner (vs ! search vs h)"

lemma serves_nearest:
  assumes "sorted (map pos vs)" "vs \<noteq> []"
  shows "\<exists>v\<in>set vs. serves vs h = owner v \<and> (\<forall>w\<in>set vs. pos v - h \<le> pos w - h)"
  using search_clockwise [OF assms] clockwise_in_set [OF assms(2)] clockwise_nearest [OF assms(1)]
  by (auto simp: serves_def)

text \<open>Removing the virtual nodes of owners that did not serve a hash keeps its owner.\<close>

lemma serves_filter:
  assumes "sorted (map pos vs)" "vs \<noteq> []" "P (vs ! search vs h)"
  shows "filter P vs \<noteq> [] \<and> serves (filter P vs) h = serves vs h"
proof -
  have c: "vs ! search vs h = clockwise pos vs h" "clockwise pos vs h \<in> set vs"
    using search_clockwise [OF assms(1,2)] clockwise_in_set [OF assms(2)] by simp_all
  then have ne: "filter P vs \<noteq> []" using assms(3) by (auto simp: filter_empty_conv)
  then have "filter P vs ! search (filter P vs) h = clockwise pos (filter P vs) h"
    using search_clockwise [of "filter P vs" h] assms(1) by (simp add: sorted_filter)
  then show ?thesis
    using ne c clockwise_filter [OF assms(2), of P pos h] assms(3) by (simp add: serves_def)
qed

lemma serves_after_remove:
  assumes "sorted (map pos vs)" "vs \<noteq> []" "serves vs h \<noteq> o'"
  shows "serves (filter (\<lambda>v. owner v \<noteq> o') vs) h = serves vs h"
  using serves_filter [OF assms(1,2), of "\<lambda>v. owner v \<noteq> o'" h] assms(3) by (simp add: serves_def)

text \<open>Conversely, a ring that only has virtual nodes of one more owner moves hashes to it only.\<close>

lemma serves_extend:
  assumes "sorted (map pos all)" "filter (\<lambda>v. owner v \<noteq> o') all \<noteq> []"
  shows "serves all h = o' \<or> serves all h = serves (filter (\<lambda>v. owner v \<noteq> o') all) h"
proof (cases "serves all h = o'")
  case False
  moreover have "all \<noteq> []" using assms(2) by (cases all) auto
  ultimately show ?thesis
    using serves_after_remove [OF assms(1), of h o'] by auto
qed simp

text \<open>Adding virtual nodes of a new owner by a stable sort moves hashes to it only.\<close>

lemma serves_after_add:
  assumes "sorted (map pos vs)" "vs \<noteq> []" "\<forall>v\<in>set vs. owner v \<noteq> o'" "\<forall>v\<in>set us. owner v = o'"
  shows "serves (sort_key pos (vs @ us)) h = o' \<or> serves (sort_key pos (vs @ us)) h = serves vs h"
proof -
  have "filter (\<lambda>v. owner v \<noteq> o') vs = vs" "filter (\<lambda>v. owner v \<noteq> o') us = []"
    using assms(3,4) by (auto simp: filter_id_conv filter_empty_conv)
  then have "filter (\<lambda>v. owner v \<noteq> o') (sort_key pos (vs @ us)) = vs"
    using assms(1) by (simp add: filter_sort sort_key_id_if_sorted)
  then show ?thesis
    using serves_extend [of "sort_key pos (vs @ us)" o' h] assms(2) by simp
qed

end

text \<open>Bisection followed by wrap-around is such a search.\<close>

definition bisect_search :: "('v \<Rightarrow> u64) \<Rightarrow> 'v list \<Rightarrow> u64 \<Rightarrow> nat" where
  "bisect_search pos vs h =
    (let left = bisect (\<lambda>i. pos (vs ! i) < h) 0 (length vs)
     in if length vs \<le> left then 0 else left)"

lemma bisect_bound:
  assumes "sorted (map pos vs)"
  shows "bisect (\<lambda>i. pos (vs ! i) < h) 0 (length vs) \<le> length vs \<and>
         (\<forall>i<length vs. pos (vs ! i) < h \<longleftrightarrow> i < bisect (\<lambda>i. pos (vs ! i) < h) 0 (length vs))"
proof -
  have "pos (vs ! i) \<le> pos (vs ! j)" if "i \<le> j" "j < length vs" for i j
    using assms that by (simp add: sorted_iff_nth_mono)
  then show ?thesis
    using bisect_correct [of 0 "length vs" "length vs" "\<lambda>i. pos (vs ! i) < h"] by (auto intro: le_less_trans)
qed

lemma bisect_search_clockwise:
  assumes "sorted (map pos vs)" "vs \<noteq> []"
  shows "bisect_search pos vs h < length vs \<and> vs ! bisect_search pos vs h = clockwise pos vs h"
proof -
  define l where "l = bisect (\<lambda>i. pos (vs ! i) < h) 0 (length vs)"
  have l: "l \<le> length vs" "\<forall>i<length vs. pos (vs ! i) < h \<longleftrightarrow> i < l"
    using bisect_bound [OF assms(1), of h] by (simp_all add: l_def)
  have split: "vs = take l vs @ drop l vs" by simp
  have "dropWhile (\<lambda>v. pos v < h) vs = drop l vs"
  proof -
    have "\<forall>v\<in>set (take l vs). pos v < h" using l by (auto simp: in_set_conv_nth)
    moreover have "dropWhile (\<lambda>v. pos v < h) (drop l vs) = drop l vs"
      using l by (cases "l < length vs") (auto simp: Cons_nth_drop_Suc [symmetric])
    ultimately show ?thesis by (subst split, subst dropWhile_append2) auto
  qed
  then have "clockwise pos vs h = (case drop l vs of [] \<Rightarrow> hd vs | v # _ \<Rightarrow> v)"
    by (simp only: clockwise_def)
  then show ?thesis
    using assms(2) l(1)
    by (cases "l < length vs")
      (auto simp: bisect_search_def l_def [symmetric] Cons_nth_drop_Suc [symmetric] hd_conv_nth)
qed

text \<open>Clockwise distances: they grow with the position, and the positions before the hash are the farthest.\<close>

lemma distance_mono:
  "h \<le> a \<Longrightarrow> a \<le> b \<Longrightarrow> a - h \<le> b - h" "a \<le> b \<Longrightarrow> b < h \<Longrightarrow> a - h \<le> b - h" "h \<le> a \<Longrightarrow> b < h \<Longrightarrow> a - h \<le> b - h"
  for a b h :: u64
  using unsigned_less [of a, where 'a = nat]
  by (simp_all add: word_le_nat_alt word_less_nat_alt unat_sub_if_size word_size)

text \<open>The array read from the position found, around the ring, is sorted by the distance from the hash.\<close>

lemma rotate_bisect_search:
  assumes "sorted (map pos vs)"
  shows "rotate (bisect_search pos vs h) vs = sort_key (\<lambda>v. pos v - h) vs"
proof -
  define l where "l = bisect (\<lambda>i. pos (vs ! i) < h) 0 (length vs)"
  let ?a = "take l vs" and ?b = "drop l vs" and ?d = "\<lambda>v. pos v - h"
  have l: "l \<le> length vs" "\<forall>i<length vs. pos (vs ! i) < h \<longleftrightarrow> i < l"
    using bisect_bound [OF assms, of h] by (simp_all add: l_def)
  have before: "\<forall>v\<in>set ?a. pos v < h" and after: "\<forall>v\<in>set ?b. h \<le> pos v"
    using l by (auto simp: in_set_conv_nth not_less [symmetric])
  have rot: "rotate (bisect_search pos vs h) vs = ?b @ ?a"
    using l(1) by (auto simp: bisect_search_def l_def [symmetric] rotate_drop_take)
  have ab: "sorted (map pos ?a)" "sorted (map pos ?b)"
    using assms by (simp_all add: take_map [symmetric] drop_map [symmetric] sorted_wrt_take sorted_wrt_drop)
  have "sort_key ?d vs = ?b @ ?a"
  proof (rule properties_for_sort_key)
    have "mset vs = mset ?a + mset ?b" by (metis append_take_drop_id mset_append)
    then show "mset (?b @ ?a) = mset vs" by simp
    fix k
    have "filter (\<lambda>x. ?d k = ?d x) ?a = [] \<or> filter (\<lambda>x. ?d k = ?d x) ?b = []"
      using before after by (fastforce simp: filter_empty_conv)
    then have "filter (\<lambda>x. ?d k = ?d x) (?b @ ?a) = filter (\<lambda>x. ?d k = ?d x) (?a @ ?b)"
      by (elim disjE) (simp_all only: filter_append append_Nil append_Nil2)
    then show "filter (\<lambda>x. ?d k = ?d x) (?b @ ?a) = filter (\<lambda>x. ?d k = ?d x) vs" by (simp only: append_take_drop_id)
    have "sorted_wrt (\<lambda>x y. ?d x \<le> ?d y) ?a"
      by (rule sorted_wrt_mono_rel [OF _ ab(1) [unfolded sorted_map]]) (use before in \<open>blast intro: distance_mono(2)\<close>)
    moreover have "sorted_wrt (\<lambda>x y. ?d x \<le> ?d y) ?b"
      by (rule sorted_wrt_mono_rel [OF _ ab(2) [unfolded sorted_map]]) (use after in \<open>blast intro: distance_mono(1)\<close>)
    moreover have "\<forall>x\<in>set ?b. \<forall>y\<in>set ?a. ?d x \<le> ?d y" using before after by (blast intro: distance_mono(3))
    ultimately show "sorted (map ?d (?b @ ?a))" unfolding sorted_map sorted_wrt_append by blast
  qed
  then show ?thesis using rot by simp
qed

end
