(* ===== verification/Hash_Ring.thy ===== *)
theory Hash_Ring
  imports Ring_Search XXHash
begin

text \<open>
  The consistent-hash ring of \<^verbatim>\<open>src/src/hash/ring.c\<close>: nodes with their virtual nodes,
  added, removed and looked up by object name.  The lemmas give the invariant of the
  ring, the meaning of a lookup, that adding or removing a node moves no object
  between other nodes, and what the walk for several nodes returns.

  The array of virtual nodes is sorted by the C library's \<^verbatim>\<open>qsort\<close>; the model uses a
  stable sort, which fixes the order of virtual nodes with the same position.
  Allocation failures end the program (\<^verbatim>\<open>buckets_malloc\<close> aborts) and are not modelled.
\<close>

section \<open>The ring\<close>

record buckets_vnode =
  vn_hash :: u64
  vn_node_id :: int
  vn_node_name :: string

record buckets_ring =
  rg_vnodes :: "buckets_vnode list"
  rg_vnode_count :: nat
  rg_node_count :: nat
  rg_vnodes_per_node :: int
  rg_seed :: u64

definition BUCKETS_DEFAULT_VNODES :: int where
  "BUCKETS_DEFAULT_VNODES = 150"

definition buckets_ring_create :: "int \<Rightarrow> u64 \<Rightarrow> buckets_ring option" where
  "buckets_ring_create vnodes_per_node seed =
    (if vnodes_per_node < 0 then None
     else let vnodes_per_node = (if vnodes_per_node = 0 then BUCKETS_DEFAULT_VNODES else vnodes_per_node)
          in Some \<lparr>rg_vnodes = [], rg_vnode_count = 0, rg_node_count = 0,
                   rg_vnodes_per_node = vnodes_per_node, rg_seed = seed\<rparr>)"

text \<open>\<^verbatim>\<open>snprintf(vnode_key, 256, "%s:%d", node_name, i)\<close> and its hash.\<close>

definition ring_vnode_key :: "string \<Rightarrow> nat \<Rightarrow> string" where
  "ring_vnode_key node_name i = snprintf_s 256 (node_name @ '':'' @ dec_nat i)"

definition ring_new_vnodes :: "buckets_ring \<Rightarrow> int \<Rightarrow> string \<Rightarrow> buckets_vnode list" where
  "ring_new_vnodes ring node_id node_name =
     map (\<lambda>i. \<lparr>vn_hash = buckets_xxhash64 (rg_seed ring) (Some (str_bytes (ring_vnode_key node_name i))),
               vn_node_id = node_id, vn_node_name = node_name\<rparr>)
       [0..<nat (rg_vnodes_per_node ring)]"

definition buckets_ring_add_node ::
  "buckets_ring \<Rightarrow> int \<Rightarrow> string option \<Rightarrow> buckets_error \<times> buckets_ring" where
  "buckets_ring_add_node ring node_id node_name =
    (case node_name of
       None \<Rightarrow> (BUCKETS_ERR_INVALID_ARG, ring)
     | Some name \<Rightarrow>
       if list_ex (\<lambda>v. vn_node_id v = node_id) (rg_vnodes ring) then (BUCKETS_ERR_EXISTS, ring)
       else (let vnodes = rg_vnodes ring @ ring_new_vnodes ring node_id name;
                 new_vnode_count = rg_vnode_count ring + nat (rg_vnodes_per_node ring)
             in (BUCKETS_OK,
                 ring\<lparr>rg_vnodes := sort_key vn_hash vnodes,
                      rg_vnode_count := new_vnode_count,
                      rg_node_count := rg_node_count ring + 1\<rparr>)))"

definition buckets_ring_remove_node :: "buckets_ring \<Rightarrow> int \<Rightarrow> buckets_error \<times> buckets_ring" where
  "buckets_ring_remove_node ring node_id =
    (let remove_count = length (filter (\<lambda>v. vn_node_id v = node_id) (rg_vnodes ring)) in
     if remove_count = 0 then (BUCKETS_ERR_NOT_FOUND, ring)
     else (BUCKETS_OK,
           ring\<lparr>rg_vnodes := filter (\<lambda>v. vn_node_id v \<noteq> node_id) (rg_vnodes ring),
                rg_vnode_count := rg_vnode_count ring - remove_count,
                rg_node_count := rg_node_count ring - 1\<rparr>))"

section \<open>Lookups\<close>

text \<open>The bisection over the virtual nodes with its wrap-around, shared by both lookups.\<close>

definition ring_position :: "buckets_ring \<Rightarrow> u64 \<Rightarrow> nat" where
  "ring_position ring hash =
    (let left = bisect (\<lambda>mid. vn_hash (rg_vnodes ring ! mid) < hash) 0 (rg_vnode_count ring)
     in if rg_vnode_count ring \<le> left then 0 else left)"

definition ring_object_hash :: "buckets_ring \<Rightarrow> string \<Rightarrow> u64" where
  "ring_object_hash ring object_name = buckets_xxhash64 (rg_seed ring) (Some (str_bytes object_name))"

definition buckets_ring_lookup :: "buckets_ring \<Rightarrow> string option \<Rightarrow> int" where
  "buckets_ring_lookup ring object_name =
    (case object_name of
       None \<Rightarrow> -1
     | Some name \<Rightarrow>
       if rg_vnode_count ring = 0 then -1
       else vn_node_id (rg_vnodes ring ! ring_position ring (ring_object_hash ring name)))"

text \<open>The walk around the ring: \<open>k\<close> virtual nodes to go, at \<open>pos\<close>, with the array \<open>seen\<close>
  of \<^verbatim>\<open>node_count + 1\<close> flags that is indexed by node id.\<close>

fun ring_walk :: "buckets_ring \<Rightarrow> nat \<Rightarrow> nat \<Rightarrow> nat \<Rightarrow> bool list \<Rightarrow> int list \<Rightarrow> int list outcome" where
  "ring_walk ring n 0 pos seen out = Ok out"
| "ring_walk ring n (Suc k) pos seen out =
    (if length out < n then
       (let node_id = vn_node_id (rg_vnodes ring ! pos) in
        if node_id < 0 \<or> int (length seen) \<le> node_id then Undefined
        else let (seen, out) =
                   (if \<not> seen ! nat node_id then (seen[nat node_id := True], out @ [node_id])
                    else (seen, out))
             in ring_walk ring n k ((pos + 1) mod rg_vnode_count ring) seen out)
     else Ok out)"

definition buckets_ring_lookup_n :: "buckets_ring \<Rightarrow> string option \<Rightarrow> nat \<Rightarrow> int list outcome" where
  "buckets_ring_lookup_n ring object_name n =
    (case object_name of
       None \<Rightarrow> Ok []
     | Some name \<Rightarrow>
       if n = 0 \<or> rg_vnode_count ring = 0 then Ok []
       else ring_walk ring n (rg_vnode_count ring) (ring_position ring (ring_object_hash ring name))
              (replicate (rg_node_count ring + 1) False) [])"

section \<open>The invariant\<close>

abbreviation ring_ids :: "buckets_ring \<Rightarrow> int set" where
  "ring_ids ring \<equiv> vn_node_id ` set (rg_vnodes ring)"

definition ring_wf :: "buckets_ring \<Rightarrow> bool" where
  "ring_wf ring \<longleftrightarrow>
     rg_vnode_count ring = length (rg_vnodes ring) \<and>
     sorted (map vn_hash (rg_vnodes ring)) \<and>
     0 < rg_vnodes_per_node ring \<and>
     rg_node_count ring = card (ring_ids ring) \<and>
     (\<forall>i\<in>ring_ids ring.
        length (filter (\<lambda>v. vn_node_id v = i) (rg_vnodes ring)) = nat (rg_vnodes_per_node ring))"

lemma ring_new_vnodes_simps [simp]:
  "length (ring_new_vnodes ring i name) = nat (rg_vnodes_per_node ring)"
  "v \<in> set (ring_new_vnodes ring i name) \<Longrightarrow> vn_node_id v = i"
  by (auto simp: ring_new_vnodes_def)

lemma ring_new_vnodes_ids:
  "0 < rg_vnodes_per_node ring \<Longrightarrow> vn_node_id ` set (ring_new_vnodes ring i name) = {i}"
  by (simp add: ring_new_vnodes_def image_image image_constant_conv)

lemma ring_create_wf [wf_intros]: "buckets_ring_create k seed = Some ring \<Longrightarrow> ring_wf ring"
  by (auto simp: buckets_ring_create_def ring_wf_def BUCKETS_DEFAULT_VNODES_def Let_def split: if_splits)

lemma filter_sort_length: "length (filter P (sort_key f xs)) = length (filter P xs)"
  by (simp add: filter_sort)

lemma ring_add_wf [wf_intros]:
  assumes "ring_wf ring"
  shows "ring_wf (snd (buckets_ring_add_node ring i name))"
proof (cases "\<exists>n. name = Some n \<and> i \<notin> ring_ids ring")
  case False
  then have "snd (buckets_ring_add_node ring i name) = ring"
    by (auto simp: buckets_ring_add_node_def list_ex_iff split: option.split)
  with assms show ?thesis by simp
next
  case True
  then obtain n where n: "name = Some n" "i \<notin> ring_ids ring" by auto
  let ?new = "ring_new_vnodes ring i n"
  have ids: "vn_node_id ` set ?new = {i}"
    using assms by (intro ring_new_vnodes_ids) (simp add: ring_wf_def)
  have "filter (\<lambda>v. vn_node_id v = i) (rg_vnodes ring) = []"
    using n(2) by (auto simp: filter_empty_conv)
  moreover have "filter (\<lambda>v. vn_node_id v = i) ?new = ?new"
    by (auto simp: filter_id_conv)
  moreover have "filter (\<lambda>v. vn_node_id v = j) ?new = []" if "j \<noteq> i" for j
    using that by (auto simp: filter_empty_conv)
  ultimately have cnt: "length (filter (\<lambda>v. vn_node_id v = j) (rg_vnodes ring @ ?new)) =
      nat (rg_vnodes_per_node ring)" if "j \<in> insert i (ring_ids ring)" for j
    using assms that by (cases "j = i") (auto simp: ring_wf_def)
  have "snd (buckets_ring_add_node ring i name) =
      ring\<lparr>rg_vnodes := sort_key vn_hash (rg_vnodes ring @ ?new),
           rg_vnode_count := rg_vnode_count ring + nat (rg_vnodes_per_node ring),
           rg_node_count := rg_node_count ring + 1\<rparr>"
    using n by (auto simp: buckets_ring_add_node_def list_ex_iff Let_def)
  then show ?thesis
    using assms n(2) ids cnt
    by (simp add: ring_wf_def image_Un filter_sort_length)
qed

lemma ring_remove_wf [wf_intros]:
  assumes "ring_wf ring"
  shows "ring_wf (snd (buckets_ring_remove_node ring i))"
proof (cases "i \<in> ring_ids ring")
  case False
  then have "filter (\<lambda>v. vn_node_id v = i) (rg_vnodes ring) = []"
    by (auto simp: filter_empty_conv)
  then show ?thesis using assms by (simp add: buckets_ring_remove_node_def)
next
  case True
  let ?rest = "filter (\<lambda>v. vn_node_id v \<noteq> i) (rg_vnodes ring)"
  let ?gone = "filter (\<lambda>v. vn_node_id v = i) (rg_vnodes ring)"
  have ne: "?gone \<noteq> []" using True by (auto simp: filter_empty_conv)
  have "length ?rest = length (rg_vnodes ring) - length ?gone"
    using sum_length_filter_compl [of "\<lambda>v. vn_node_id v = i" "rg_vnodes ring"] by simp
  moreover have "vn_node_id ` set ?rest = ring_ids ring - {i}" by auto
  moreover have "filter (\<lambda>v. vn_node_id v = j) ?rest = filter (\<lambda>v. vn_node_id v = j) (rg_vnodes ring)"
    if "j \<noteq> i" for j
    using that by (auto intro: filter_cong)
  ultimately show ?thesis
    using assms True ne
    by (simp add: buckets_ring_remove_node_def ring_wf_def sorted_filter del: filter_filter) auto
qed

text \<open>The administrative operations in any order.\<close>

datatype ring_op = Ring_Add int "string option" | Ring_Remove int

fun ring_step :: "ring_op \<Rightarrow> buckets_ring \<Rightarrow> buckets_ring" where
  "ring_step (Ring_Add i name) ring = snd (buckets_ring_add_node ring i name)"
| "ring_step (Ring_Remove i) ring = snd (buckets_ring_remove_node ring i)"

lemma ring_steps_wf: "ring_wf ring \<Longrightarrow> ring_wf (fold ring_step ops ring)"
proof (induction ops arbitrary: ring)
  case (Cons x xs)
  then show ?case by (cases x) (simp_all add: ring_add_wf ring_remove_wf)
qed simp

section \<open>What a lookup returns\<close>

abbreviation ring_over :: "buckets_vnode list \<Rightarrow> buckets_ring" where
  "ring_over vs \<equiv> \<lparr>rg_vnodes = vs, rg_vnode_count = length vs, rg_node_count = 0,
                    rg_vnodes_per_node = 1, rg_seed = 0\<rparr>"

interpretation ring: ring_search vn_hash vn_node_id "\<lambda>vs. ring_position (ring_over vs)"
  using bisect_search_clockwise [where pos = vn_hash]
  by unfold_locales (simp add: ring_position_def bisect_search_def)

lemma ring_position_over:
  "ring_wf r \<Longrightarrow> ring_position r = ring_position (ring_over (rg_vnodes r))"
  by (simp add: ring_position_def ring_wf_def fun_eq_iff)

lemma ring_lookup_serves:
  "ring_wf r \<Longrightarrow> rg_vnodes r \<noteq> [] \<Longrightarrow>
   buckets_ring_lookup r (Some name) = ring.serves (rg_vnodes r) (ring_object_hash r name)"
  by (simp add: buckets_ring_lookup_def ring.serves_def ring_position_over) (simp add: ring_wf_def)

lemma ring_add_ok:
  assumes "buckets_ring_add_node r i name = (BUCKETS_OK, r')"
  obtains n where "name = Some n" "i \<notin> ring_ids r"
    "rg_vnodes r' = sort_key vn_hash (rg_vnodes r @ ring_new_vnodes r i n)" "rg_seed r' = rg_seed r"
proof -
  from assms obtain n where n: "name = Some n" "\<not> list_ex (\<lambda>v. vn_node_id v = i) (rg_vnodes r)"
    by (auto simp: buckets_ring_add_node_def split: option.splits if_splits)
  then have "i \<notin> ring_ids r" by (auto simp: list_ex_iff)
  with n assms show ?thesis
    by (intro that) (auto simp: buckets_ring_add_node_def Let_def)
qed

lemma ring_remove_ok:
  assumes "buckets_ring_remove_node r i = (BUCKETS_OK, r')"
  shows "rg_vnodes r' = filter (\<lambda>v. vn_node_id v \<noteq> i) (rg_vnodes r)" "rg_seed r' = rg_seed r"
  using assms by (auto simp: buckets_ring_remove_node_def Let_def split: if_splits)

text \<open>Adding a node: an object stays or goes to the new node.\<close>

lemma ring_add_moves:
  assumes "ring_wf ring" "rg_vnodes ring \<noteq> []" "buckets_ring_add_node ring i name = (BUCKETS_OK, ring')"
  shows "buckets_ring_lookup ring' (Some obj) \<in> {i, buckets_ring_lookup ring (Some obj)}" "rg_vnodes ring' \<noteq> []"
proof -
  have s: "sorted (map vn_hash (rg_vnodes ring))" using assms(1) by (simp add: ring_wf_def)
  have wf': "ring_wf ring'" using ring_add_wf [OF assms(1), of i name] assms(3) by simp
  obtain n where n: "i \<notin> ring_ids ring"
    "rg_vnodes ring' = sort_key vn_hash (rg_vnodes ring @ ring_new_vnodes ring i n)"
    "rg_seed ring' = rg_seed ring"
    using ring_add_ok [OF assms(3)] by metis
  have h: "ring_object_hash ring' obj = ring_object_hash ring obj" using n(3) by (simp add: ring_object_hash_def)
  show ne: "rg_vnodes ring' \<noteq> []"
    using assms(2) n(2) by (metis append_is_Nil_conv mset_sort mset_zero_iff)
  have "ring.serves (rg_vnodes ring') (ring_object_hash ring obj) \<in>
        {i, ring.serves (rg_vnodes ring) (ring_object_hash ring obj)}"
    using ring.serves_after_add [OF s assms(2), of i "ring_new_vnodes ring i n"] n(1,2) by auto
  then show "buckets_ring_lookup ring' (Some obj) \<in> {i, buckets_ring_lookup ring (Some obj)}"
    using h ring_lookup_serves [OF assms(1,2)] ring_lookup_serves [OF wf' ne] by simp
qed

section \<open>The walk for several nodes\<close>

text \<open>The reference: the first \<open>n\<close> different elements of a list, in order.\<close>

fun collect :: "nat \<Rightarrow> 'a list \<Rightarrow> 'a list \<Rightarrow> 'a list" where
  "collect n out [] = out"
| "collect n out (x # xs) =
     (if length out < n then collect n (if x \<in> set out then out else out @ [x]) xs else out)"

lemma collect_full [simp]: "n \<le> length out \<Longrightarrow> collect n out xs = out"
  by (cases xs) auto

lemma collect_spec:
  assumes "distinct out" "length out \<le> n"
  shows "distinct (collect n out xs) \<and> set (collect n out xs) \<subseteq> set out \<union> set xs \<and>
         length (collect n out xs) = min n (card (set out \<union> set xs)) \<and>
         (\<exists>ys. collect n out xs = out @ ys)"
  using assms
proof (induction n out xs rule: collect.induct)
  case (1 n out)
  then show ?case by (simp add: distinct_card)
next
  case (2 n out x xs)
  show ?case
  proof (cases "length out < n")
    case True
    let ?out = "if x \<in> set out then out else out @ [x]"
    have "distinct ?out" "length ?out \<le> n" "set ?out \<union> set xs = set out \<union> set (x # xs)"
      using 2 True by auto
    with 2(1) [OF True] True show ?thesis by (auto split: if_splits)
  next
    case False
    then have "card (set out) \<le> card (set out \<union> set (x # xs))" "length out = n"
      using 2 by (auto intro: card_mono)
    with False 2 show ?thesis by (auto simp: distinct_card)
  qed
qed

text \<open>The first occurrences in a list.\<close>

fun firsts :: "'a list \<Rightarrow> 'a list" where
  "firsts [] = []"
| "firsts (x # xs) = x # filter (\<lambda>y. y \<noteq> x) (firsts xs)"

lemma collect_firsts: "length out \<le> n \<Longrightarrow> collect n out xs = take n (out @ filter (\<lambda>y. y \<notin> set out) (firsts xs))"
proof (induction xs arbitrary: out)
  case (Cons x xs)
  have "(\<lambda>y. y \<notin> set out \<and> y \<noteq> x) = (\<lambda>y. y \<notin> set (out @ [x]))" by auto
  then show ?case using Cons.IH [of out] Cons.IH [of "out @ [x]"] Cons.prems
    by (auto intro!: arg_cong [where f = "take (n - length out)"] filter_cong)
qed simp

text \<open>The node ids met by a walk of \<open>k\<close> steps.\<close>

fun ids_from :: "buckets_ring \<Rightarrow> nat \<Rightarrow> nat \<Rightarrow> int list" where
  "ids_from r 0 p = []"
| "ids_from r (Suc k) p = vn_node_id (rg_vnodes r ! p) # ids_from r k ((p + 1) mod rg_vnode_count r)"

lemma ring_walk_collect:
  assumes "length seen = N" "\<forall>v\<in>set (rg_vnodes r). 0 \<le> vn_node_id v \<and> vn_node_id v < int N"
    and "\<forall>i<N. seen ! i \<longleftrightarrow> int i \<in> set out"
    and "rg_vnode_count r = length (rg_vnodes r)" "p < length (rg_vnodes r)"
  shows "ring_walk r n k p seen out = Ok (collect n out (ids_from r k p))"
  using assms
proof (induction k arbitrary: p seen out)
  case (Suc k)
  let ?i = "vn_node_id (rg_vnodes r ! p)"
  have i: "0 \<le> ?i" "?i < int N" using Suc.prems nth_mem by blast+
  have q: "(p + 1) mod rg_vnode_count r < length (rg_vnodes r)"
    using Suc.prems by (metis gr_implies_not0 mod_less_divisor neq0_conv)
  have s: "seen ! nat ?i \<longleftrightarrow> ?i \<in> set out" using Suc.prems(3) i by (metis int_nat_eq nat_less_iff)
  show ?case
  proof (cases "?i \<in> set out")
    case True
    then show ?thesis
      using Suc.IH [OF Suc.prems(1-4) q] i s Suc.prems(1) by (simp add: Let_def)
  next
    case False
    have "\<forall>j<N. seen[nat ?i := True] ! j \<longleftrightarrow> int j \<in> set (out @ [?i])"
      using Suc.prems(1,3) i by (auto simp: nth_list_update)
    then show ?thesis
      using Suc.IH [of "seen[nat ?i := True]" "out @ [?i]", OF _ Suc.prems(2) _ Suc.prems(4) q]
        False i s Suc.prems(1) by (simp add: Let_def)
  qed
qed simp

lemma ids_from_nth:
  "p < rg_vnode_count r \<Longrightarrow>
   ids_from r k p = map (\<lambda>j. vn_node_id (rg_vnodes r ! ((p + j) mod rg_vnode_count r))) [0..<k]"
proof (induction k arbitrary: p)
  case (Suc k)
  then have "(p + 1) mod rg_vnode_count r < rg_vnode_count r" by simp
  with Suc show ?case
    by (simp add: upt_conv_Cons map_Suc_upt [symmetric] mod_simps del: upt_Suc)
qed simp

lemma ids_from_rotate:
  "p < rg_vnode_count r \<Longrightarrow> rg_vnode_count r = length (rg_vnodes r) \<Longrightarrow>
   ids_from r (rg_vnode_count r) p = map vn_node_id (rotate p (rg_vnodes r))"
  by (intro nth_equalityI) (simp_all add: ids_from_nth nth_rotate)

lemma nth_image_all: "(!) xs ` {0..<length xs} = set xs"
  by (auto simp: in_set_conv_nth)

lemma ids_from_all:
  assumes "rg_vnode_count r = length (rg_vnodes r)" "p < length (rg_vnodes r)"
  shows "set (ids_from r (rg_vnode_count r) p) = ring_ids r"
proof -
  let ?c = "rg_vnode_count r"
  have "(\<lambda>j. (p + j) mod ?c) ` {0..<?c} = {0..<?c}"
  proof (intro equalityI subsetI)
    fix t assume "t \<in> {0..<?c}"
    moreover from this have "(p + (t + (?c - p)) mod ?c) mod ?c = t"
      using assms by (simp add: mod_simps)
    ultimately show "t \<in> (\<lambda>j. (p + j) mod ?c) ` {0..<?c}"
      by (intro image_eqI [of _ _ "(t + (?c - p)) mod ?c"]) auto
  qed auto
  moreover have "ring_ids r = (\<lambda>i. vn_node_id (rg_vnodes r ! i)) ` {0..<?c}"
    using assms(1) by (metis atLeast0LessThan image_image lessThan_atLeast0 nth_image_all)
  ultimately have "ring_ids r = (\<lambda>i. vn_node_id (rg_vnodes r ! i)) ` (\<lambda>j. (p + j) mod ?c) ` {0..<?c}"
    by simp
  then show ?thesis
    using assms by (simp add: ids_from_nth image_image)
qed

section \<open>Properties\<close>

text \<open>C15: every ring that administrative operations can produce from a fresh one is
  well formed: the array is sorted by position, its length is the recorded one, every node
  present has exactly the configured number of virtual nodes, and the node counter is the
  number of different nodes.\<close>

theorem ring_invariant:
  assumes "buckets_ring_create k seed = Some ring"
  shows "ring_wf (fold ring_step ops ring)"
  using assms by (intro ring_steps_wf ring_create_wf)

theorem ring_invariant_witness:
  "ring_wf (fold ring_step [Ring_Add 1 (Some ''a''), Ring_Add 2 (Some ''b''), Ring_Remove 1]
     \<lparr>rg_vnodes = [], rg_vnode_count = 0, rg_node_count = 0, rg_vnodes_per_node = 150, rg_seed = 7\<rparr>)"
  by (rule ring_invariant [of 0 7]) (simp add: buckets_ring_create_def BUCKETS_DEFAULT_VNODES_def)

text \<open>C16: a lookup answers with the owner of the virtual node that is nearest clockwise to
  the object's hash: no virtual node of the ring has a smaller wrapped distance.\<close>

theorem ring_lookup_nearest:
  assumes "ring_wf ring" "rg_vnodes ring \<noteq> []"
  shows "\<exists>v\<in>set (rg_vnodes ring).
           buckets_ring_lookup ring (Some name) = vn_node_id v \<and>
           (\<forall>w\<in>set (rg_vnodes ring).
              vn_hash v - ring_object_hash ring name \<le> vn_hash w - ring_object_hash ring name)"
  using assms ring.serves_nearest [of "rg_vnodes ring"]
  by (simp add: ring_lookup_serves) (simp add: ring_wf_def)

abbreviation ring_example :: buckets_ring where
  "ring_example \<equiv>
     \<lparr>rg_vnodes = [\<lparr>vn_hash = 0x4000000000000000, vn_node_id = 1, vn_node_name = ''a''\<rparr>,
                   \<lparr>vn_hash = 0x9000000000000000, vn_node_id = 2, vn_node_name = ''b''\<rparr>,
                   \<lparr>vn_hash = 0xF000000000000000, vn_node_id = 0, vn_node_name = ''c''\<rparr>],
      rg_vnode_count = 3, rg_node_count = 3, rg_vnodes_per_node = 1, rg_seed = 0\<rparr>"

lemma ring_example_wf: "ring_wf ring_example"
  by (simp add: ring_wf_def)

theorem ring_lookup_nearest_witness:
  "\<exists>v\<in>set (rg_vnodes ring_example).
     buckets_ring_lookup ring_example (Some ''obj'') = vn_node_id v \<and>
     (\<forall>w\<in>set (rg_vnodes ring_example).
        vn_hash v - ring_object_hash ring_example ''obj'' \<le> vn_hash w - ring_object_hash ring_example ''obj'')"
  by (rule ring_lookup_nearest [OF ring_example_wf]) simp

text \<open>C8: consistent hashing moves nothing it need not.  After a node is added, an object
  is served by the new node or by the node that served it before; after a node is
  removed, an object that another node served stays where it was.\<close>

theorem ring_minimal_movement:
  assumes "ring_wf ring" "rg_vnodes ring \<noteq> []"
    and "buckets_ring_add_node ring i name = (BUCKETS_OK, ring')"
    and "buckets_ring_remove_node ring j = (BUCKETS_OK, ring'')"
  shows "buckets_ring_lookup ring' (Some obj) \<in> {i, buckets_ring_lookup ring (Some obj)} \<and>
         (buckets_ring_lookup ring (Some obj) \<noteq> j \<longrightarrow>
          buckets_ring_lookup ring'' (Some obj) = buckets_ring_lookup ring (Some obj))"
proof -
  have s: "sorted (map vn_hash (rg_vnodes ring))" using assms(1) by (simp add: ring_wf_def)
  have wf'': "ring_wf ring''" using ring_remove_wf [OF assms(1), of j] assms(4) by simp
  have h: "ring_object_hash ring'' obj = ring_object_hash ring obj"
    using ring_remove_ok(2) [OF assms(4)] by (simp add: ring_object_hash_def)
  have "ring.serves (rg_vnodes ring'') h = ring.serves (rg_vnodes ring) h \<and> rg_vnodes ring'' \<noteq> []"
    if "ring.serves (rg_vnodes ring) h \<noteq> j" for h
    using ring.serves_filter [OF s assms(2), of "\<lambda>v. vn_node_id v \<noteq> j" h] that
    by (simp add: ring_remove_ok(1) [OF assms(4)] ring.serves_def)
  then show ?thesis
    using h ring_lookup_serves [OF assms(1,2)] ring_lookup_serves [OF wf''] ring_add_moves(1) [OF assms(1,2,3), of obj]
    by auto
qed

theorem ring_minimal_movement_witness:
  "buckets_ring_lookup (snd (buckets_ring_add_node ring_example 3 (Some ''d''))) (Some ''obj'')
     \<in> {3, buckets_ring_lookup ring_example (Some ''obj'')} \<and>
   (\<exists>j\<in>{1, 2}. buckets_ring_lookup ring_example (Some ''obj'') \<noteq> j \<and>
    buckets_ring_lookup (snd (buckets_ring_remove_node ring_example j)) (Some ''obj'') =
    buckets_ring_lookup ring_example (Some ''obj''))"
proof -
  have a: "buckets_ring_add_node ring_example 3 (Some ''d'') =
      (BUCKETS_OK, snd (buckets_ring_add_node ring_example 3 (Some ''d'')))"
    by (simp add: buckets_ring_add_node_def prod_eq_iff)
  have r: "buckets_ring_remove_node ring_example j =
      (BUCKETS_OK, snd (buckets_ring_remove_node ring_example j))" if "j \<in> {1, 2}" for j
    using that by (auto simp: buckets_ring_remove_node_def prod_eq_iff)
  have m: "buckets_ring_lookup (snd (buckets_ring_add_node ring_example 3 (Some ''d''))) (Some ''obj'')
      \<in> {3, buckets_ring_lookup ring_example (Some ''obj'')} \<and>
    (buckets_ring_lookup ring_example (Some ''obj'') \<noteq> j \<longrightarrow>
     buckets_ring_lookup (snd (buckets_ring_remove_node ring_example j)) (Some ''obj'') =
     buckets_ring_lookup ring_example (Some ''obj''))" if "j \<in> {1, 2}" for j
    by (rule ring_minimal_movement [OF ring_example_wf _ a r [OF that]]) simp
  show ?thesis
    using m [of 1] m [of 2] by (cases "buckets_ring_lookup ring_example (Some ''obj'') = 1") auto
qed

text \<open>C17: where the node ids are at most the number of nodes, the walk for several nodes
  returns as many different nodes as were asked for, or all of them if there are fewer.  They
  are the first different owners of the virtual nodes in the order of their clockwise distance
  from the object's hash, and the first is the one a plain lookup returns.\<close>

theorem ring_lookup_n_distinct:
  assumes "ring_wf ring" "rg_vnodes ring \<noteq> []" "0 < n"
    and "\<forall>v\<in>set (rg_vnodes ring). 0 \<le> vn_node_id v \<and> vn_node_id v \<le> int (rg_node_count ring)"
  shows "\<exists>nodes. buckets_ring_lookup_n ring (Some name) n = Ok nodes \<and>
           distinct nodes \<and> set nodes \<subseteq> ring_ids ring \<and>
           length nodes = min n (rg_node_count ring) \<and>
           nodes = take n (firsts (map vn_node_id
             (sort_key (\<lambda>v. vn_hash v - ring_object_hash ring name) (rg_vnodes ring)))) \<and>
           hd nodes = buckets_ring_lookup ring (Some name)"
proof -
  let ?p = "ring_position ring (ring_object_hash ring name)"
  let ?c = "rg_vnode_count ring"
  have c: "?c = length (rg_vnodes ring)" "0 < ?c" and cnt: "rg_node_count ring = card (ring_ids ring)"
    using assms(1,2) by (simp_all add: ring_wf_def)
  have p: "?p < length (rg_vnodes ring)"
    using ring.search_clockwise [of "rg_vnodes ring"] assms(1,2)
    by (simp add: ring_position_over) (simp add: ring_wf_def)
  let ?ids = "ids_from ring ?c ?p"
  have walk: "buckets_ring_lookup_n ring (Some name) n = Ok (collect n [] ?ids)"
    using assms(3,4) c p
      ring_walk_collect [of "replicate (rg_node_count ring + 1) False" "rg_node_count ring + 1"
        ring "[]" ?p n ?c]
    by (simp add: buckets_ring_lookup_n_def del: replicate_Suc) fastforce
  obtain x xs where x: "?ids = x # xs" "x = vn_node_id (rg_vnodes ring ! ?p)"
    using c(2) by (cases ?c) auto
  have "collect n [] ?ids = collect n [x] xs" using assms(3) x by simp
  then have hd: "hd (collect n [] ?ids) = x"
    using collect_spec [of "[x]" n xs] assms(3) by auto
  have "?ids = map vn_node_id (sort_key (\<lambda>v. vn_hash v - ring_object_hash ring name) (rg_vnodes ring))"
    using ids_from_rotate [of ?p ring] p c assms(1) rotate_bisect_search [of vn_hash "rg_vnodes ring" "ring_object_hash ring name"]
    by (simp add: ring_wf_def ring_position_def bisect_search_def)
  then have order: "collect n [] ?ids =
      take n (firsts (map vn_node_id (sort_key (\<lambda>v. vn_hash v - ring_object_hash ring name) (rg_vnodes ring))))"
    using collect_firsts [of "[]" n ?ids] by simp
  have spec: "distinct (collect n [] ?ids)" "set (collect n [] ?ids) \<subseteq> ring_ids ring"
      "length (collect n [] ?ids) = min n (rg_node_count ring)"
    using collect_spec [of "[]" n ?ids] ids_from_all [OF c(1) p] cnt by simp_all
  have "x = buckets_ring_lookup ring (Some name)" using x(2) c(2) by (simp add: buckets_ring_lookup_def)
  with walk spec order hd show ?thesis by blast
qed

theorem ring_lookup_n_distinct_witness:
  "\<exists>nodes. buckets_ring_lookup_n ring_example (Some ''obj'') 2 = Ok nodes \<and>
     distinct nodes \<and> set nodes \<subseteq> ring_ids ring_example \<and>
     length nodes = min 2 (rg_node_count ring_example) \<and>
     nodes = take 2 (firsts (map vn_node_id
       (sort_key (\<lambda>v. vn_hash v - ring_object_hash ring_example ''obj'') (rg_vnodes ring_example)))) \<and>
     hd nodes = buckets_ring_lookup ring_example (Some ''obj'')"
  by (rule ring_lookup_n_distinct [OF ring_example_wf]) simp_all

text \<open>The array of seen flags has one entry per node and one more, but it is indexed
  by node id.  On a ring with one node, any id that is negative or greater than one makes
  the walk access the array outside its bounds.\<close>

theorem ring_lookup_n_out_of_bounds:
  assumes "buckets_ring_create k seed = Some ring" "i < 0 \<or> 1 < i" "0 < n"
  shows "buckets_ring_lookup_n (snd (buckets_ring_add_node ring i (Some node))) (Some name) n = Undefined"
proof -
  let ?r = "snd (buckets_ring_add_node ring i (Some node))"
  have wf: "ring_wf ?r" by (intro wf_intros) (rule assms(1))
  have e: "rg_vnodes ring = []" "rg_node_count ring = 0" "rg_vnode_count ring = 0"
    "0 < rg_vnodes_per_node ring"
    using assms(1) ring_create_wf [OF assms(1)]
    by (auto simp: buckets_ring_create_def ring_wf_def Let_def split: if_splits)
  then have v: "rg_vnodes ?r = sort_key vn_hash (ring_new_vnodes ring i node)" "rg_node_count ?r = 1"
    "rg_vnode_count ?r = nat (rg_vnodes_per_node ring)"
    by (simp_all add: buckets_ring_add_node_def)
  have c: "0 < rg_vnode_count ?r" using e(4) v(3) by simp
  moreover have "rg_vnode_count ?r = length (rg_vnodes ?r)" using wf by (simp add: ring_wf_def)
  ultimately have ne: "rg_vnodes ?r \<noteq> []" by auto
  let ?p = "ring_position ?r (ring_object_hash ?r name)"
  have "?p < length (rg_vnodes ?r)"
    using ring.search_clockwise [of "rg_vnodes ?r"] wf ne
    by (simp add: ring_position_over) (simp add: ring_wf_def)
  then have "rg_vnodes ?r ! ?p \<in> set (rg_vnodes ?r)" by simp
  then have "vn_node_id (rg_vnodes ?r ! ?p) = i" using v(1) by simp
  moreover obtain m where "rg_vnode_count ?r = Suc m" using c by (cases "rg_vnode_count ?r") auto
  ultimately show ?thesis
    using assms(2,3) v(2) by (auto simp: buckets_ring_lookup_n_def Let_def)
qed

theorem ring_lookup_n_out_of_bounds_witness:
  "buckets_ring_lookup_n
     (snd (buckets_ring_add_node
        \<lparr>rg_vnodes = [], rg_vnode_count = 0, rg_node_count = 0, rg_vnodes_per_node = 150, rg_seed = 0\<rparr>
        1000 (Some ''pool1-set0''))) (Some ''obj'') 1 = Undefined"
  by (rule ring_lookup_n_out_of_bounds [of 150 0])
    (simp_all add: buckets_ring_create_def)

end
