(* ===== verification/Cluster_Io.thy ===== *)
theory Cluster_Io
  imports Buckets_Prelude
begin

text \<open>
  Files and JSON as the cluster code uses them: the atomic replacement of a file
  (\<^verbatim>\<open>src/src/cluster/atomic_io.c\<close>), the paths of the metadata files
  (\<^verbatim>\<open>src/src/cluster/disk_utils.c\<close>) and the JSON helpers
  (\<^verbatim>\<open>src/src/cluster/json_helpers.c\<close>) over the trees of the vendored cJSON.

  The file system is a map from paths to contents.  Every system call whose result the
  code tests is a field of \<open>io_env\<close>, chosen by the environment; an operation returns
  all the states it goes through, so that a crash between two calls is one of them.  The
  printer and the parser of cJSON are arguments of the functions that call them.
\<close>

section \<open>Replacing a file\<close>

type_synonym fs = "string \<Rightarrow> string option"

record io_env =
  io_mkdir :: buckets_error
  io_fopen :: bool
  io_written :: nat
  io_fflush :: bool
  io_fsync :: bool
  io_rename :: bool
  io_syncdir :: buckets_error
  io_pid :: nat

definition temp_path :: "io_env \<Rightarrow> string \<Rightarrow> string" where
  "temp_path env path = path @ ''.tmp.'' @ dec_nat (io_pid env)"

text \<open>The result and the states after each system call, the initial one first.\<close>

definition buckets_atomic_write :: "io_env \<Rightarrow> fs \<Rightarrow> string \<Rightarrow> string \<Rightarrow> buckets_error \<times> fs list" where
  "buckets_atomic_write env fs path data =
    (let tmp = temp_path env path in
     if io_mkdir env \<noteq> BUCKETS_OK then (io_mkdir env, [fs])
     else if \<not> io_fopen env then (BUCKETS_ERR_IO, [fs])
     else
       let opened = fs(tmp \<mapsto> []);
           wrote = fs(tmp \<mapsto> take (io_written env) data);
           unlinked = fs(tmp := None)
       in if io_written env \<noteq> length data then (BUCKETS_ERR_IO, [fs, opened, wrote, unlinked])
          else if \<not> io_fflush env then (BUCKETS_ERR_IO, [fs, opened, wrote, unlinked])
          else if \<not> io_fsync env then (BUCKETS_ERR_IO, [fs, opened, wrote, unlinked])
          else if \<not> io_rename env then (BUCKETS_ERR_IO, [fs, opened, wrote, unlinked])
          else (io_syncdir env, [fs, opened, wrote, fs(tmp := None, path \<mapsto> data)]))"

definition atomic_write_result :: "io_env \<Rightarrow> fs \<Rightarrow> string \<Rightarrow> string \<Rightarrow> buckets_error \<times> fs" where
  "atomic_write_result env fs path data =
     (fst (buckets_atomic_write env fs path data), last (snd (buckets_atomic_write env fs path data)))"

text \<open>Reading back: \<open>rd\<close> says which paths can be read.\<close>

definition buckets_atomic_read :: "(string \<Rightarrow> bool) \<Rightarrow> fs \<Rightarrow> string \<Rightarrow> string outcome" where
  "buckets_atomic_read rd fs path =
    (case fs path of
       None \<Rightarrow> Fail BUCKETS_ERR_IO
     | Some data \<Rightarrow> if rd path then Ok data else Fail BUCKETS_ERR_IO)"

lemma temp_path_neq [simp]: "temp_path env path \<noteq> path" "path \<noteq> temp_path env path"
  by (simp_all add: temp_path_def)

lemma atomic_write_ok:
  assumes "atomic_write_result env fs path data = (BUCKETS_OK, fs')"
  shows "fs' path = Some data" "\<And>p. p \<noteq> path \<Longrightarrow> p \<noteq> temp_path env path \<Longrightarrow> fs' p = fs p"
  using assms
  by (auto simp: atomic_write_result_def buckets_atomic_write_def Let_def split: if_splits)

lemma atomic_write_frame:
  "p \<noteq> path \<Longrightarrow> p \<noteq> temp_path env path \<Longrightarrow> snd (atomic_write_result env fs path data) p = fs p"
  by (simp add: atomic_write_result_def buckets_atomic_write_def Let_def)

lemma atomic_write_all_ok:
  assumes "io_mkdir env = BUCKETS_OK" "io_fopen env" "io_written env = length data" "io_fflush env"
    "io_fsync env" "io_rename env" "io_syncdir env = BUCKETS_OK"
  shows "fst (atomic_write_result env fs path data) = BUCKETS_OK"
  using assms by (simp add: atomic_write_result_def buckets_atomic_write_def Let_def)

text \<open>C18: replacing a file is atomic.  In every state the write goes through - wherever a
  crash stops it - the file holds either its complete old contents or the complete new
  contents, and no other file but the temporary one has changed; the new contents are
  there whenever the call reports success.\<close>

theorem atomic_write_atomic:
  "(\<forall>st \<in> set (snd (buckets_atomic_write env fs path data)).
      (st path = fs path \<or> st path = Some data) \<and>
      (\<forall>p. p \<noteq> path \<and> p \<noteq> temp_path env path \<longrightarrow> st p = fs p)) \<and>
   (fst (buckets_atomic_write env fs path data) = BUCKETS_OK \<longrightarrow>
      last (snd (buckets_atomic_write env fs path data)) path = Some data)"
  by (auto simp: buckets_atomic_write_def Let_def)

theorem atomic_write_atomic_witness:
  "snd (buckets_atomic_write
          \<lparr>io_mkdir = BUCKETS_OK, io_fopen = True, io_written = 3, io_fflush = True, io_fsync = True,
           io_rename = True, io_syncdir = BUCKETS_OK, io_pid = 7\<rparr> [''/d/f'' \<mapsto> ''old''] ''/d/f'' ''new'') \<noteq> [] \<and>
   last (snd (buckets_atomic_write
          \<lparr>io_mkdir = BUCKETS_OK, io_fopen = True, io_written = 3, io_fflush = True, io_fsync = True,
           io_rename = True, io_syncdir = BUCKETS_OK, io_pid = 7\<rparr> [''/d/f'' \<mapsto> ''old''] ''/d/f'' ''new'')) ''/d/f''
     = Some ''new''"
  using atomic_write_atomic [of
      "\<lparr>io_mkdir = BUCKETS_OK, io_fopen = True, io_written = 3, io_fflush = True, io_fsync = True,
        io_rename = True, io_syncdir = BUCKETS_OK, io_pid = 7\<rparr>" "[''/d/f'' \<mapsto> ''old'']" "''/d/f''" "''new''"]
  by (simp add: buckets_atomic_write_def Let_def)

section \<open>Metadata paths\<close>

definition buckets_get_meta_dir :: "string \<Rightarrow> string" where
  "buckets_get_meta_dir disk_path =
    (if disk_path \<noteq> [] \<and> last disk_path = CHR ''/''
     then butlast disk_path @ ''/'' @ ''.buckets.sys''
     else disk_path @ ''/'' @ ''.buckets.sys'')"

definition buckets_get_format_path :: "string \<Rightarrow> string" where
  "buckets_get_format_path disk_path = buckets_get_meta_dir disk_path @ ''/'' @ ''format.json''"

definition buckets_get_topology_path :: "string \<Rightarrow> string" where
  "buckets_get_topology_path disk_path = buckets_get_meta_dir disk_path @ ''/'' @ ''topology.json''"

text \<open>A disk path without its trailing slash, which names the same metadata files.\<close>

definition strip_slash :: "string \<Rightarrow> string" where
  "strip_slash s = (if s \<noteq> [] \<and> last s = CHR ''/'' then butlast s else s)"

lemma topology_path_strip: "buckets_get_topology_path s = strip_slash s @ ''/.buckets.sys/topology.json''"
  by (simp add: buckets_get_topology_path_def buckets_get_meta_dir_def strip_slash_def)

lemma topology_path_inj [simp]:
  "buckets_get_topology_path a = buckets_get_topology_path b \<longleftrightarrow> strip_slash a = strip_slash b"
  by (simp add: topology_path_strip)

lemma temp_path_not_topology [simp]:
  "temp_path env p \<noteq> buckets_get_topology_path d"
proof
  assume "temp_path env p = buckets_get_topology_path d"
  then have "last (temp_path env p) = last (buckets_get_topology_path d)" by simp
  then have "last (dec_nat (io_pid env)) = CHR ''n''"
    by (simp add: temp_path_def topology_path_strip)
  moreover have "last (dec_nat (io_pid env)) \<in> set (dec_nat (io_pid env))" by simp
  ultimately show False using digit_val_dec_nat by (force simp: digit_val_def)
qed

section \<open>JSON trees\<close>

text \<open>The trees the code builds and reads.  All its numbers are integers.\<close>

datatype json =
    JNull
  | JBool bool
  | JNum int
  | JStr string
  | JArr "json list"
  | JObj "(string \<times> json) list"

text \<open>The first member of that name.\<close>

fun get_object_item :: "json \<Rightarrow> string \<Rightarrow> json option" where
  "get_object_item (JObj kvs) name = map_of kvs name"
| "get_object_item _ name = None"

text \<open>\<^verbatim>\<open>cJSON_GetObjectItem\<close>: the first member whose name is equal up to case.\<close>

definition tolower :: "char \<Rightarrow> char" where
  "tolower c = (let n = of_char c :: nat in if 65 \<le> n \<and> n \<le> 90 then char_of (n + 32) else c)"

fun get_object_item_ci :: "json \<Rightarrow> string \<Rightarrow> json option" where
  "get_object_item_ci (JObj kvs) name =
     map_option snd (find (\<lambda>(k, _). map tolower k = map tolower name) kvs)"
| "get_object_item_ci _ name = None"

text \<open>\<^verbatim>\<open>(double)n\<close>: integers up to \<open>2 ^ 53\<close> are exact, larger ones are rounded to 53 binary
  digits, to the even neighbour when halfway.\<close>

fun binary_digits :: "nat \<Rightarrow> nat" where
  "binary_digits n = (if n = 0 then 0 else binary_digits (n div 2) + 1)"

declare binary_digits.simps [simp del]

definition double_of_int :: "int \<Rightarrow> int" where
  "double_of_int n =
    (let m = nat \<bar>n\<bar> in
     if m \<le> 2 ^ 53 then n
     else let e = binary_digits m - 53;
              q = m div 2 ^ e;
              r = m mod 2 ^ e;
              q = (if 2 ^ (e - 1) < r \<or> r = 2 ^ (e - 1) \<and> odd q then q + 1 else q)
          in sgn n * int (q * 2 ^ e))"

lemma double_of_int_exact [simp]: "\<bar>n\<bar> \<le> 2 ^ 53 \<Longrightarrow> double_of_int n = n"
  by (simp add: double_of_int_def nat_le_iff)

text \<open>\<^verbatim>\<open>item->valueint\<close>: the number, saturated to the range of \<^verbatim>\<open>int\<close>.\<close>

definition valueint :: "int \<Rightarrow> int" where
  "valueint n = (if i32_max \<le> n then i32_max else if n \<le> i32_min then i32_min else n)"

lemma valueint_id [simp]: "in_i32 n \<Longrightarrow> valueint n = n"
  by (simp add: valueint_def in_i32_def)

definition buckets_json_get_string :: "json \<Rightarrow> string \<Rightarrow> string option \<Rightarrow> string option" where
  "buckets_json_get_string obj key default_value =
    (case get_object_item obj key of Some (JStr s) \<Rightarrow> Some s | _ \<Rightarrow> default_value)"

definition buckets_json_get_int :: "json \<Rightarrow> string \<Rightarrow> int \<Rightarrow> int" where
  "buckets_json_get_int obj key default_value =
    (case get_object_item obj key of Some (JNum n) \<Rightarrow> valueint n | _ \<Rightarrow> default_value)"

definition buckets_json_get_bool :: "json \<Rightarrow> string \<Rightarrow> bool \<Rightarrow> bool" where
  "buckets_json_get_bool obj key default_value =
    (case get_object_item obj key of Some (JBool b) \<Rightarrow> b | _ \<Rightarrow> default_value)"

definition buckets_json_get_object :: "json \<Rightarrow> string \<Rightarrow> json option" where
  "buckets_json_get_object obj key =
    (case get_object_item obj key of Some (JObj kvs) \<Rightarrow> Some (JObj kvs) | _ \<Rightarrow> None)"

definition buckets_json_get_array :: "json \<Rightarrow> string \<Rightarrow> json list option" where
  "buckets_json_get_array obj key =
    (case get_object_item obj key of Some (JArr xs) \<Rightarrow> Some xs | _ \<Rightarrow> None)"

text \<open>Adding a member appends it.\<close>

fun json_add :: "json \<Rightarrow> string \<Rightarrow> json \<Rightarrow> json" where
  "json_add (JObj kvs) key v = JObj (kvs @ [(key, v)])"
| "json_add j key v = j"

definition buckets_json_add_string :: "json \<Rightarrow> string \<Rightarrow> string option \<Rightarrow> json" where
  "buckets_json_add_string obj key v = (case v of None \<Rightarrow> obj | Some s \<Rightarrow> json_add obj key (JStr s))"

definition buckets_json_add_int :: "json \<Rightarrow> string \<Rightarrow> int \<Rightarrow> json" where
  "buckets_json_add_int obj key v = json_add obj key (JNum v)"

definition buckets_json_add_array :: "json \<Rightarrow> string \<Rightarrow> json list \<Rightarrow> json" where
  "buckets_json_add_array obj key v = json_add obj key (JArr v)"

lemmas json_simps = buckets_json_get_string_def buckets_json_get_int_def buckets_json_get_bool_def
  buckets_json_get_object_def buckets_json_get_array_def buckets_json_add_string_def
  buckets_json_add_int_def buckets_json_add_array_def

text \<open>Loading and saving a tree, over a printer and a parser.\<close>

definition buckets_json_load :: "(string \<Rightarrow> json option) \<Rightarrow> (string \<Rightarrow> bool) \<Rightarrow> fs \<Rightarrow> string \<Rightarrow> json option" where
  "buckets_json_load parse rd fs path =
    (case buckets_atomic_read rd fs path of Ok data \<Rightarrow> parse data | _ \<Rightarrow> None)"

definition buckets_json_save ::
  "(json \<Rightarrow> string) \<Rightarrow> io_env \<Rightarrow> fs \<Rightarrow> string \<Rightarrow> json \<Rightarrow> buckets_error \<times> fs" where
  "buckets_json_save print env fs path json = atomic_write_result env fs path (print json)"

section \<open>Reading a number\<close>

text \<open>\<^verbatim>\<open>strtoull(s, NULL, 10)\<close>: white space, a sign, digits; saturated above.\<close>

fun skip_space :: "string \<Rightarrow> string" where
  "skip_space (c # cs) =
     (if c = CHR '' '' \<or> 9 \<le> (of_char c :: nat) \<and> (of_char c :: nat) \<le> 13 then skip_space cs else c # cs)"
| "skip_space [] = []"

definition strtoull :: "string \<Rightarrow> u64" where
  "strtoull s =
    (let s = skip_space s;
         neg = (s \<noteq> [] \<and> hd s = CHR ''-'');
         s = (if s \<noteq> [] \<and> (hd s = CHR ''-'' \<or> hd s = CHR ''+'') then tl s else s);
         n = fst (read_digits 0 s)
     in if 2 ^ 64 \<le> n then - 1 else if neg then - of_nat n else of_nat n)"

lemma dec_nat_hd: "\<exists>d<10. hd (dec_nat n) = digit_char d"
  using dec_nat_digits [of "hd (dec_nat n)" n] by simp

lemma digit_char_not:
  assumes "d < 10"
  shows "digit_char d \<noteq> CHR '' ''" "digit_char d \<noteq> CHR ''-''" "digit_char d \<noteq> CHR ''+''"
    "\<not> (of_char (digit_char d) :: nat) \<le> 13"
  using digit_val_digit_char [OF assms] by (auto simp: digit_val_def Let_def split: if_splits)

lemma skip_space_dec_nat [simp]: "skip_space (dec_nat n) = dec_nat n"
  using dec_nat_hd [of n] digit_char_not by (cases "dec_nat n") auto

lemma strtoull_dec_nat: "n < 2 ^ 64 \<Longrightarrow> strtoull (dec_nat n) = of_nat n"
proof -
  assume n: "n < 2 ^ 64"
  have "hd (dec_nat n) \<noteq> CHR ''-''" "hd (dec_nat n) \<noteq> CHR ''+''"
    using dec_nat_hd [of n] digit_char_not by metis+
  then show ?thesis
    using n by (simp add: strtoull_def read_digits_dec_nat_acc)
qed

end
