(* ===== verification/Json_Text.thy ===== *)
theory Json_Text
  imports Cluster_Io
begin

text \<open>
  The text form of JSON trees: the printer and the parser of
  \<^verbatim>\<open>src/third_party/cJSON/cJSON.c\<close>, through which topologies, locations and checkpoints reach the
  disk.  A parse buffer is the list of its unread characters and the output buffer is the text
  written so far; memory for both is taken to suffice.  The tree keeps a number as the integer the
  code reads out of it, that is truncated towards zero.
\<close>

unbundle bit_operations_syntax

section \<open>Numbers\<close>

text \<open>\<^verbatim>\<open>strtod\<close> on a text of digits, signs, point and exponent: a mantissa, the number of its
  digits after the point, and an exponent.  A number has no upper limit here; the code reads a text of
  \<open>2 ^ 1024\<close> or more as infinity.\<close>

definition read_sign :: "string \<Rightarrow> bool \<times> string" where
  "read_sign s = (case s of c # t \<Rightarrow> if c = CHR ''-'' then (True, t) else if c = CHR ''+'' then (False, t) else (False, s)
                  | [] \<Rightarrow> (False, s))"

definition read_mantissa :: "string \<Rightarrow> (nat \<times> nat \<times> string) option" where
  "read_mantissa s =
    (let (i, r) = read_digits 0 s;
         (m, k, r') = (case r of c # t \<Rightarrow> if c = CHR ''.'' then let (m, t') = read_digits i t in (m, length t - length t', t')
                                          else (i, 0, r)
                       | [] \<Rightarrow> (i, 0, r))
     in if length s = length r \<and> k = 0 then None else Some (m, k, r'))"

definition read_exponent :: "string \<Rightarrow> int \<times> string" where
  "read_exponent s =
    (case s of
       [] \<Rightarrow> (0, s)
     | c # t \<Rightarrow>
         if c = CHR ''e'' \<or> c = CHR ''E''
         then let (neg, u) = read_sign t; (x, r) = read_digits 0 u
              in if length u = length r then (0, s) else (if neg then - int x else int x, r)
         else (0, s))"

text \<open>The double nearest to \<open>a / b\<close>, truncated: the quotient is scaled to 53 binary digits and
  rounded, to the even neighbour when halfway.\<close>

definition scaled_quotient :: "nat \<Rightarrow> nat \<Rightarrow> int \<Rightarrow> nat" where
  "scaled_quotient a b e =
    (let n = a * 2 ^ nat e; d = b * 2 ^ nat (- e); q = n div d; r = n mod d
     in if d < 2 * r \<or> 2 * r = d \<and> odd q then q + 1 else q)"

definition double_of_ratio :: "nat \<Rightarrow> nat \<Rightarrow> nat" where
  "double_of_ratio a b =
    (let e = 53 + int (binary_digits b) - int (binary_digits a);
         e = (if 2 ^ 53 * b * 2 ^ nat (- e) \<le> a * 2 ^ nat e then e - 1 else e);
         q = scaled_quotient a b e
     in q * 2 ^ nat (- e) div 2 ^ nat e)"

definition decimal_value :: "bool \<Rightarrow> nat \<Rightarrow> int \<Rightarrow> int" where
  "decimal_value neg m x =
    (let v = (if 0 \<le> x then double_of_int (int (m * 10 ^ nat x)) else int (double_of_ratio m (10 ^ nat (- x))))
     in if neg then - v else v)"

definition strtod :: "string \<Rightarrow> (int \<times> string) option" where
  "strtod s =
    (let (neg, t) = read_sign s in
     case read_mantissa t of
       None \<Rightarrow> None
     | Some (m, k, r) \<Rightarrow> let (x, r') = read_exponent r in Some (decimal_value neg m (x - int k), r'))"

definition number_char :: "char \<Rightarrow> bool" where
  "number_char c \<longleftrightarrow> digit_val c \<noteq> None \<or> c \<in> set ''+-eE.''"

definition parse_number :: "string \<Rightarrow> (json \<times> string) option" where
  "parse_number s =
    (let number_c_string = takeWhile number_char s in
     case strtod number_c_string of
       None \<Rightarrow> None
     | Some (number, after_end) \<Rightarrow> Some (JNum number, drop (length number_c_string - length after_end) s))"

text \<open>\<^verbatim>\<open>%1.<P>g\<close> of an integral double: all digits if there are at most \<open>P\<close>, otherwise \<open>P\<close>
  rounded digits without trailing zeros, and the exponent.\<close>

definition format_g :: "nat \<Rightarrow> int \<Rightarrow> string" where
  "format_g P n =
    (let a = nat \<bar>n\<bar>; len = length (dec_nat a); sign = (if n < 0 then ''-'' else '''') in
     if len \<le> P then sign @ dec_nat a
     else let e = 10 ^ (len - P);
              q = a div e;
              q = (if e < 2 * (a mod e) \<or> 2 * (a mod e) = e \<and> odd q then q + 1 else q);
              x = (if q = 10 ^ P then len else len - 1);
              digits = rev (dropWhile (\<lambda>c. c = CHR ''0'') (rev (dec_nat q)))
          in sign @ hd digits # (if tl digits = [] then [] else CHR ''.'' # tl digits) @ ''e+'' @ dec_nat x)"

definition compare_double :: "int \<Rightarrow> int \<Rightarrow> bool" where
  "compare_double a b \<longleftrightarrow> \<bar>a - b\<bar> * 2 ^ 52 \<le> max \<bar>a\<bar> \<bar>b\<bar>"

definition print_number :: "int \<Rightarrow> string" where
  "print_number d =
    (if d = valueint d then dec_int d
     else let t = format_g 15 d in
          case strtod t of
            Some (test, _) \<Rightarrow> if compare_double test d then t else format_g 17 d
          | None \<Rightarrow> format_g 17 d)"

section \<open>Strings\<close>

definition escape_char :: "char \<Rightarrow> string" where
  "escape_char c =
    (let n = of_char c :: nat in
     if 31 < n \<and> c \<noteq> CHR 0x22 \<and> c \<noteq> CHR 0x5C then [c]
     else CHR 0x5C #
       (if c = CHR 0x5C then [CHR 0x5C]
        else if c = CHR 0x22 then [CHR 0x22]
        else if c = CHR 0x08 then ''b''
        else if c = CHR 0x0C then ''f''
        else if c = CHR 0x0A then ''n''
        else if c = CHR 0x0D then ''r''
        else if c = CHR 0x09 then ''t''
        else ''u00'' @ [hex_char (n div 16), hex_char (n mod 16)]))"

definition print_string_ptr :: "string \<Rightarrow> string" where
  "print_string_ptr s = CHR 0x22 # concat (map escape_char s) @ [CHR 0x22]"

text \<open>The end of a string literal: the first quote that no backslash precedes.\<close>

fun scan_string :: "string \<Rightarrow> (string \<times> string) option" where
  "scan_string [] = None"
| "scan_string (c # s) =
    (if c = CHR 0x22 then Some ([], s)
     else if c = CHR 0x5C
     then (case s of
             [] \<Rightarrow> None
           | d # t \<Rightarrow> map_option (\<lambda>(body, rest). (c # d # body, rest)) (scan_string t))
     else map_option (\<lambda>(body, rest). (c # body, rest)) (scan_string s))"

definition parse_hex4 :: "string \<Rightarrow> nat" where
  "parse_hex4 s =
    (case map hex_val (take 4 s) of
       [Some a, Some b, Some c, Some d] \<Rightarrow> ((a * 16 + b) * 16 + c) * 16 + d
     | _ \<Rightarrow> 0)"

text \<open>The bytes of a code point: all but the first hold six bits each, the last ones last.\<close>

definition utf8_bytes :: "nat \<Rightarrow> string" where
  "utf8_bytes codepoint =
    (let tail = (\<lambda>c. char_of ((c OR 0x80) AND 0xBF)); first = (\<lambda>mark c. char_of ((c OR mark) AND 0xFF)) in
     if codepoint < 0x80 then [char_of (codepoint AND 0x7F)]
     else if codepoint < 0x800 then [first 0xC0 (drop_bit 6 codepoint), tail codepoint]
     else if codepoint < 0x10000 then [first 0xE0 (drop_bit 12 codepoint), tail (drop_bit 6 codepoint), tail codepoint]
     else [first 0xF0 (drop_bit 18 codepoint), tail (drop_bit 12 codepoint), tail (drop_bit 6 codepoint), tail codepoint])"

text \<open>One or two sequences \<^verbatim>\<open>\uXXXX\<close>, with the number of characters used.\<close>

definition utf16_literal_to_utf8 :: "string \<Rightarrow> (string \<times> nat) option" where
  "utf16_literal_to_utf8 s =
    (if length s < 6 then None
     else let first_code = parse_hex4 (drop 2 s) in
       if 0xDC00 \<le> first_code \<and> first_code \<le> 0xDFFF then None
       else if 0xD800 \<le> first_code \<and> first_code \<le> 0xDBFF
       then (if length (drop 6 s) < 6 then None
             else if s ! 6 \<noteq> CHR 0x5C \<or> s ! 7 \<noteq> CHR ''u'' then None
             else let second_code = parse_hex4 (drop 8 s) in
               if second_code < 0xDC00 \<or> 0xDFFF < second_code then None
               else Some (utf8_bytes (0x10000 + (push_bit 10 (first_code AND 0x3FF) OR (second_code AND 0x3FF))), 12))
       else Some (utf8_bytes first_code, 6))"

text \<open>A backslash can be the last character of the literal if the sequence before it took the
  backslash that belonged to it; then the code reads the closing quote.\<close>

fun unescape :: "string \<Rightarrow> string option" where
  "unescape [] = Some []"
| "unescape (c # s) =
    (if c \<noteq> CHR 0x5C then map_option (Cons c) (unescape s)
     else case s of
       [] \<Rightarrow> Some [CHR 0x22]
     | d # t \<Rightarrow>
         if d = CHR ''b'' then map_option (Cons (CHR 0x08)) (unescape t)
         else if d = CHR ''f'' then map_option (Cons (CHR 0x0C)) (unescape t)
         else if d = CHR ''n'' then map_option (Cons (CHR 0x0A)) (unescape t)
         else if d = CHR ''r'' then map_option (Cons (CHR 0x0D)) (unescape t)
         else if d = CHR ''t'' then map_option (Cons (CHR 0x09)) (unescape t)
         else if d = CHR 0x22 \<or> d = CHR 0x5C \<or> d = CHR ''/'' then map_option (Cons d) (unescape t)
         else if d = CHR ''u''
         then (case utf16_literal_to_utf8 (c # s) of
                 None \<Rightarrow> None
               | Some (bytes, sequence_length) \<Rightarrow>
                   map_option (append bytes) (unescape (drop (sequence_length - 2) t)))
         else None)"

text \<open>The result is a C string, so a zero byte ends it.\<close>

definition parse_string :: "string \<Rightarrow> (string \<times> string) option" where
  "parse_string s =
    (case s of
       [] \<Rightarrow> None
     | c # t \<Rightarrow>
         if c \<noteq> CHR 0x22 then None
         else case scan_string t of
           None \<Rightarrow> None
         | Some (body, rest) \<Rightarrow>
             map_option (\<lambda>out. (takeWhile (\<lambda>c. c \<noteq> CHR 0x00) out, rest)) (unescape body))"

section \<open>Values\<close>

text \<open>White space is every byte up to 32, the terminating zero included; at the end of the buffer
  the last character is kept.\<close>

definition buffer_skip_whitespace :: "string \<Rightarrow> string" where
  "buffer_skip_whitespace s =
    (let r = dropWhile (\<lambda>c. of_char c \<le> (32 :: nat)) s in if r = [] then drop (length s - 1) s else r)"

text \<open>The elements of an array from the first one on, with a parser for values.  A parser uses at
  least one character, so the last test of the length always holds.\<close>

type_synonym value_parser = "string \<Rightarrow> (json \<times> string) option"

function parse_elements :: "value_parser \<Rightarrow> string \<Rightarrow> (json list \<times> string) option" where
  "parse_elements value s =
    (case value (buffer_skip_whitespace s) of
       None \<Rightarrow> None
     | Some (v, r) \<Rightarrow>
         (case buffer_skip_whitespace r of
            [] \<Rightarrow> None
          | c # t \<Rightarrow>
              if c = CHR '','' \<and> length t < length s
              then map_option (\<lambda>(vs, r). (v # vs, r)) (parse_elements value t)
              else if c = CHR '']'' then Some ([v], t) else None))"
  by pat_completeness auto
termination by (relation "measure (length \<circ> snd)") auto

definition parse_array :: "value_parser \<Rightarrow> value_parser" where
  "parse_array value s =
    (case s of
       [] \<Rightarrow> None
     | c # t \<Rightarrow>
         if c \<noteq> CHR ''['' then None
         else case buffer_skip_whitespace t of
           [] \<Rightarrow> None
         | d # u \<Rightarrow>
             if d = CHR '']'' then Some (JArr [], u)
             else map_option (\<lambda>(vs, r). (JArr vs, r)) (parse_elements value (d # u)))"

function parse_members :: "value_parser \<Rightarrow> string \<Rightarrow> ((string \<times> json) list \<times> string) option" where
  "parse_members value s =
    (case parse_string (buffer_skip_whitespace s) of
       None \<Rightarrow> None
     | Some (name, r) \<Rightarrow>
         (case buffer_skip_whitespace r of
            [] \<Rightarrow> None
          | c # t \<Rightarrow>
              if c \<noteq> CHR '':'' then None
              else case value (buffer_skip_whitespace t) of
                None \<Rightarrow> None
              | Some (v, r) \<Rightarrow>
                  (case buffer_skip_whitespace r of
                     [] \<Rightarrow> None
                   | c # t \<Rightarrow>
                       if c = CHR '','' \<and> length t < length s
                       then map_option (\<lambda>(kvs, r). ((name, v) # kvs, r)) (parse_members value t)
                       else if c = CHR ''}'' then Some ([(name, v)], t) else None)))"
  by pat_completeness auto
termination by (relation "measure (length \<circ> snd)") auto

definition parse_object :: "value_parser \<Rightarrow> value_parser" where
  "parse_object value s =
    (case s of
       [] \<Rightarrow> None
     | c # t \<Rightarrow>
         if c \<noteq> CHR ''{'' then None
         else case buffer_skip_whitespace t of
           [] \<Rightarrow> None
         | d # u \<Rightarrow>
             if d = CHR ''}'' then Some (JObj [], u)
             else map_option (\<lambda>(kvs, r). (JObj kvs, r)) (parse_members value (d # u)))"

text \<open>A value, given the parser for the values inside it if these are not nested too deeply.\<close>

definition parse_value_with :: "value_parser option \<Rightarrow> value_parser" where
  "parse_value_with value s =
    (if take 4 s = ''null'' then Some (JNull, drop 4 s)
     else if take 5 s = ''false'' then Some (JBool False, drop 5 s)
     else if take 4 s = ''true'' then Some (JBool True, drop 4 s)
     else case s of
       [] \<Rightarrow> None
     | c # _ \<Rightarrow>
         if c = CHR 0x22 then map_option (\<lambda>(t, r). (JStr t, r)) (parse_string s)
         else if c = CHR ''-'' \<or> digit_val c \<noteq> None then parse_number s
         else if c = CHR ''['' then Option.bind value (\<lambda>p. parse_array p s)
         else if c = CHR ''{'' then Option.bind value (\<lambda>p. parse_object p s)
         else None)"

primrec parse_value :: "nat \<Rightarrow> value_parser" where
  "parse_value 0 = parse_value_with None"
| "parse_value (Suc n) = parse_value_with (Some (parse_value n))"

definition CJSON_NESTING_LIMIT :: nat where
  "CJSON_NESTING_LIMIT = 1000"

definition skip_utf8_bom :: "string \<Rightarrow> string" where
  "skip_utf8_bom s = (if 4 < length s \<and> take 3 s = [CHR 0xEF, CHR 0xBB, CHR 0xBF] then drop 3 s else s)"

definition cJSON_Parse :: "string \<Rightarrow> json option" where
  "cJSON_Parse value =
     map_option fst (parse_value CJSON_NESTING_LIMIT (buffer_skip_whitespace (skip_utf8_bom (value @ [CHR 0x00]))))"

text \<open>Printing, formatted or not, at a depth.\<close>

fun separated :: "string \<Rightarrow> string list \<Rightarrow> string" where
  "separated sep [] = []"
| "separated sep [t] = t"
| "separated sep (t # ts) = t @ sep @ separated sep ts"

definition print_array :: "bool \<Rightarrow> string list \<Rightarrow> string" where
  "print_array format ts = ''['' @ separated (if format then '', '' else '','') ts @ '']''"

abbreviation tabs :: "nat \<Rightarrow> string" where
  "tabs n \<equiv> replicate n (CHR 0x09)"

definition print_object :: "bool \<Rightarrow> nat \<Rightarrow> (string \<times> string) list \<Rightarrow> string" where
  "print_object format depth kts =
    (let member = (\<lambda>(k, t). (if format then tabs (depth + 1) else []) @ print_string_ptr k @ '':'' @
                            (if format then tabs 1 else []) @ t);
         nl = (if format then [CHR 0x0A] else [])
     in ''{'' @ nl @ separated ('','' @ nl) (map member kts) @ (if kts = [] then [] else nl) @
        (if format then tabs depth else []) @ ''}'')"

fun print_value :: "bool \<Rightarrow> nat \<Rightarrow> json \<Rightarrow> string option" where
  "print_value format depth JNull = Some ''null''"
| "print_value format depth (JBool b) = Some (if b then ''true'' else ''false'')"
| "print_value format depth (JNum n) = Some (print_number n)"
| "print_value format depth (JStr s) = Some (print_string_ptr s)"
| "print_value format depth (JArr vs) =
    (if CJSON_NESTING_LIMIT \<le> depth then None
     else map_option (print_array format) (those (map (print_value format (depth + 1)) vs)))"
| "print_value format depth (JObj kvs) =
    (if CJSON_NESTING_LIMIT \<le> depth then None
     else map_option (\<lambda>ts. print_object format depth (zip (map fst kvs) ts))
            (those (map (\<lambda>(k, v). print_value format (depth + 1) v) kvs)))"

definition cJSON_Print :: "json \<Rightarrow> string option" where
  "cJSON_Print item = print_value True 0 item"

definition cJSON_PrintUnformatted :: "json \<Rightarrow> string option" where
  "cJSON_PrintUnformatted item = print_value False 0 item"

section \<open>Numbers are read back\<close>

lemma number_char_dec_int: "c \<in> set (dec_int n) \<Longrightarrow> number_char c"
  using digit_val_dec_nat by (auto simp: dec_int_def number_char_def split: if_splits)

definition ends_number :: "string \<Rightarrow> bool" where
  "ends_number rest \<longleftrightarrow> rest = [] \<or> \<not> number_char (hd rest)"

lemma takeWhile_number:
  "ends_number rest \<Longrightarrow> takeWhile number_char (dec_int n @ rest) = dec_int n"
  using number_char_dec_int by (cases rest) (auto simp: ends_number_def takeWhile_append)

lemma dec_nat_hd_digit: "digit_val (hd (dec_nat n)) \<noteq> None"
  using digit_val_dec_nat by (metis dec_nat_nonempty list.set_sel(1))

lemma read_sign_dec_int: "read_sign (dec_int n) = (n < 0, dec_nat (nat \<bar>n\<bar>))"
proof (cases "dec_nat (nat \<bar>n\<bar>)")
  case (Cons c t)
  then have "digit_val c \<noteq> None" using dec_nat_hd_digit [of "nat \<bar>n\<bar>"] by simp
  then have "c \<noteq> CHR ''-''" "c \<noteq> CHR ''+''" by (auto simp: digit_val_def)
  then show ?thesis using Cons by (auto simp: read_sign_def dec_int_def)
qed simp

lemma strtod_dec_int: "\<bar>n\<bar> \<le> 2 ^ 53 \<Longrightarrow> strtod (dec_int n) = Some (n, [])"
  by (simp add: strtod_def read_sign_dec_int read_mantissa_def read_digits_dec_nat_acc read_exponent_def decimal_value_def Let_def)

lemma parse_number_dec_int:
  assumes "\<bar>n\<bar> \<le> 2 ^ 53" "ends_number rest"
  shows "parse_number (dec_int n @ rest) = Some (JNum n, rest)"
  using assms by (simp add: parse_number_def takeWhile_number strtod_dec_int)

lemma length_dec_nat: "n < 10 ^ Suc k \<Longrightarrow> length (dec_nat n) \<le> Suc k"
proof (induction k arbitrary: n)
  case (Suc k)
  then show ?case by (cases "n < 10") (auto simp: dec_nat.simps [of n] Suc.IH less_mult_imp_div_less)
qed (simp add: dec_nat.simps)

lemma print_number_small:
  assumes "\<bar>n\<bar> < 10 ^ 15"
  shows "print_number n = dec_int n"
proof -
  have "length (dec_nat (nat \<bar>n\<bar>)) \<le> 15" using length_dec_nat [of "nat \<bar>n\<bar>" 14] assms by simp
  then have "format_g 15 n = dec_int n" by (auto simp: format_g_def dec_int_def Let_def)
  moreover have "strtod (dec_int n) = Some (n, [])" using assms by (intro strtod_dec_int) simp
  ultimately show ?thesis by (simp add: print_number_def compare_double_def)
qed

section \<open>Strings are read back\<close>

lemma control_char:
  assumes "of_char c < (32 :: nat)"
  obtains b0 b1 b2 b3 b4 where "c = Char b0 b1 b2 b3 b4 False False False"
proof (cases c)
  case (Char b0 b1 b2 b3 b4 b5 b6 b7)
  then have "\<not> b5 \<and> \<not> b6 \<and> \<not> b7" using assms by (auto split: if_splits)
  then show ?thesis using Char that by simp
qed

lemma hex_val_0: "hex_val CHR ''0'' = Some 0"
  by (simp add: hex_val_def)

lemma utf8_ascii: "n < 128 \<Longrightarrow> utf8_bytes n = [char_of n]"
proof -
  assume "n < 128"
  moreover have "n AND 127 = take_bit 7 n" by (simp add: take_bit_eq_mask mask_eq_exp_minus_1)
  ultimately show ?thesis by (simp add: utf8_bytes_def take_bit_nat_eq_self)
qed

lemma append_single: "(@) [c] = (#) c"
  by (simp add: fun_eq_iff)

lemma escape_control:
  assumes "of_char c < (32 :: nat)" "c \<noteq> CHR 0x00"
  shows "unescape (escape_char c @ s) = map_option (Cons c) (unescape s) \<and>
         scan_string (escape_char c @ s) = map_option (\<lambda>(b, r). (escape_char c @ b, r)) (scan_string s)"
proof -
  obtain b0 b1 b2 b3 b4 where c: "c = Char b0 b1 b2 b3 b4 False False False" by (rule control_char [OF assms(1)])
  have "unescape (escape_char c @ s) = map_option (Cons c) (unescape s)"
  proof (cases "c \<in> {CHR 0x08, CHR 0x0C, CHR 0x0A, CHR 0x0D, CHR 0x09}")
    case True
    then show ?thesis by (auto simp: escape_char_def)
  next
    case False
    have "c \<noteq> CHR 0x5C" "c \<noteq> CHR 0x22" using assms(1) by auto
    then show ?thesis using False assms(1)
      by (simp add: escape_char_def utf16_literal_to_utf8_def parse_hex4_def hex_val_0 utf8_ascii append_single Let_def)
  qed
  moreover have "scan_string (escape_char c @ s) = map_option (\<lambda>(b, r). (escape_char c @ b, r)) (scan_string s)"
    using assms(2) unfolding c
    by (cases b0; cases b1; cases b2; cases b3; cases b4;
        simp add: escape_char_def hex_char_def option.map_comp comp_def case_prod_unfold)
  ultimately show ?thesis by blast
qed

lemma escape_other:
  assumes "c \<noteq> CHR 0x00"
  shows "unescape (escape_char c @ s) = map_option (Cons c) (unescape s) \<and>
         scan_string (escape_char c @ s) = map_option (\<lambda>(b, r). (escape_char c @ b, r)) (scan_string s)"
proof (cases "of_char c < (32 :: nat)")
  case True
  then show ?thesis using escape_control assms by blast
next
  case False
  then have "31 < (of_char c :: nat)" by simp
  then show ?thesis by (auto simp: escape_char_def option.map_comp comp_def case_prod_unfold Let_def)
qed

lemma escape_string:
  assumes "CHR 0x00 \<notin> set s"
  shows "unescape (concat (map escape_char s)) = Some s"
    "scan_string (concat (map escape_char s) @ CHR 0x22 # rest) = Some (concat (map escape_char s), rest)"
  using assms by (induction s) (auto simp: escape_other)

lemma parse_string_print:
  assumes "CHR 0x00 \<notin> set s"
  shows "parse_string (print_string_ptr s @ rest) = Some (s, rest)"
proof -
  have "takeWhile (\<lambda>c. c \<noteq> CHR 0x00) s = s" using assms by (auto simp: takeWhile_eq_all_conv)
  then show ?thesis using escape_string [OF assms] by (simp add: parse_string_def print_string_ptr_def)
qed

section \<open>Trees are read back\<close>

text \<open>The trees the text keeps: strings without a zero byte and numbers of at most fifteen digits.\<close>

fun json_ok :: "json \<Rightarrow> bool" where
  "json_ok (JNum n) \<longleftrightarrow> \<bar>n\<bar> < 10 ^ 15"
| "json_ok (JStr s) \<longleftrightarrow> CHR 0x00 \<notin> set s"
| "json_ok (JArr vs) \<longleftrightarrow> list_all json_ok vs"
| "json_ok (JObj kvs) \<longleftrightarrow> list_all (\<lambda>(k, v). CHR 0x00 \<notin> set k \<and> json_ok v) kvs"
| "json_ok _ \<longleftrightarrow> True"

definition blank :: "string \<Rightarrow> bool" where
  "blank ws \<longleftrightarrow> list_all (\<lambda>c. of_char c \<le> (32 :: nat)) ws"

lemma skip_blank:
  assumes "blank ws" "\<not> of_char c \<le> (32 :: nat)"
  shows "buffer_skip_whitespace (ws @ c # s) = c # s"
proof -
  have "dropWhile (\<lambda>c. of_char c \<le> (32 :: nat)) (ws @ c # s) = c # s"
    using assms by (simp add: blank_def list_all_iff dropWhile_append2)
  then show ?thesis by (simp add: buffer_skip_whitespace_def)
qed

lemma skip_visible [simp]: "\<not> of_char c \<le> (32 :: nat) \<Longrightarrow> buffer_skip_whitespace (c # s) = c # s"
  using skip_blank [of "[]"] by (simp add: blank_def)

text \<open>A printed value begins with a visible character that selects its parser.\<close>

lemma print_value_hd:
  assumes "print_value format depth j = Some t" "json_ok j"
  obtains c t' where "t = c # t'" "\<not> of_char c \<le> (32 :: nat)" "c \<noteq> CHR '']''" "c \<noteq> CHR ''}''"
proof (cases j)
  case (JNum n)
  then have "t = dec_int n" using assms print_number_small by simp
  moreover obtain c u where "dec_nat (nat \<bar>n\<bar>) = c # u" by (cases "dec_nat (nat \<bar>n\<bar>)") auto
  moreover from this have "digit_val c \<noteq> None" using dec_nat_hd_digit [of "nat \<bar>n\<bar>"] by simp
  then have "\<not> of_char c \<le> (32 :: nat)" "c \<noteq> CHR '']''" "c \<noteq> CHR ''}''"
    by (auto simp: digit_val_def Let_def split: if_splits)
  ultimately show thesis using that by (cases "n < 0") (auto simp: dec_int_def)
next
  case (JArr vs)
  then obtain ts where "t = print_array format ts" using assms(1) by (auto split: if_splits)
  then show thesis using that by (simp add: print_array_def)
next
  case (JObj kvs)
  then obtain kts where "t = print_object format depth kts" using assms(1) by (auto split: if_splits)
  then show thesis using that by (simp add: print_object_def Let_def)
next
  case (JBool b)
  then have "t = (if b then ''true'' else ''false'')" using assms(1) by simp
  then show thesis using that by (cases b) simp_all
next
  case JNull
  then have "t = ''null''" using assms(1) by simp
  then show thesis using that by simp
next
  case (JStr s)
  then have "t = print_string_ptr s" using assms(1) by simp
  then show thesis using that by (simp add: print_string_ptr_def)
qed


definition reads_back :: "value_parser \<Rightarrow> json \<Rightarrow> string \<Rightarrow> bool" where
  "reads_back value v t \<longleftrightarrow> (\<forall>rest. ends_number rest \<longrightarrow> value (t @ rest) = Some (v, rest)) \<and>
     (\<exists>c u. t = c # u \<and> \<not> of_char c \<le> (32 :: nat) \<and> c \<noteq> CHR '']'')"

lemma ends_number_mark [simp]:
  "ends_number (CHR '','' # s)" "ends_number (CHR '']'' # s)" "ends_number (CHR ''}'' # s)"
  by (simp_all add: ends_number_def number_char_def digit_val_def)

lemma ends_number_blank:
  assumes "blank ws" "ends_number (c # s)"
  shows "ends_number (ws @ c # s)"
proof (cases ws)
  case (Cons d u)
  then have "of_char d \<le> (32 :: nat)" using assms(1) by (simp add: blank_def)
  then have "\<not> number_char d" by (auto simp: number_char_def digit_val_def)
  then show ?thesis using Cons by (simp add: ends_number_def)
qed (use assms in simp)

lemma reads_back_skip:
  assumes "reads_back value v t" "blank ws" "ends_number rest"
  shows "value (buffer_skip_whitespace (ws @ t @ rest)) = Some (v, rest)"
  using assms skip_blank [OF assms(2)] by (auto simp: reads_back_def)

lemma blank_Nil [simp]: "blank []"
  by (simp add: blank_def)

declare parse_elements.simps [simp del] parse_members.simps [simp del]

lemma elements_read_back:
  assumes "list_all2 (reads_back value) vs ts" "vs \<noteq> []" "blank ws" "blank ws'"
  shows "parse_elements value (ws @ separated (CHR '','' # ws') ts @ CHR '']'' # rest) = Some (vs, rest)"
  using assms
proof (induction arbitrary: ws rule: list_all2_induct)
  case (Cons v vs t ts)
  show ?case
  proof (cases ts)
    case Nil
    then have "vs = []" using Cons(2) by simp
    then show ?thesis
      using Nil reads_back_skip [OF Cons(1) Cons(5), of "CHR '']'' # rest"]
      by (subst parse_elements.simps) simp
  next
    case (Cons t' ts')
    let ?tail = "ws' @ separated (CHR '','' # ws') ts @ CHR '']'' # rest"
    have whole: "ws @ separated (CHR '','' # ws') (t # ts) @ CHR '']'' # rest = ws @ t @ CHR '','' # ?tail"
      using Cons by simp
    have "vs \<noteq> []" using Cons Cons.hyps(2) by auto
    then have "parse_elements value ?tail = Some (vs, rest)" using Cons.IH Cons.prems by blast
    then show ?thesis
      unfolding whole using reads_back_skip [OF Cons.hyps(1) Cons.prems(2), of "CHR '','' # ?tail"]
      by (subst parse_elements.simps) simp
  qed
qed simp

lemma members_read_back:
  assumes "list_all2 (\<lambda>(k, v) t. CHR 0x00 \<notin> set k \<and> reads_back value v t) kvs ts" "kvs \<noteq> []"
    and "blank ws" "blank gap" "blank nl" "blank final"
  shows "parse_members value
           (ws @ separated (CHR '','' # nl) (map (\<lambda>(k, t). print_string_ptr k @ CHR '':'' # gap @ t) (zip (map fst kvs) ts)) @
            final @ CHR ''}'' # rest) = Some (kvs, rest)"
  using assms
proof (induction arbitrary: ws rule: list_all2_induct)
  case (Cons kv kvs t ts)
  obtain k v where kv: "kv = (k, v)" by force
  have k: "CHR 0x00 \<notin> set k" and v: "reads_back value v t" using Cons.hyps(1) kv by auto
  let ?members = "\<lambda>kvs ts. separated (CHR '','' # nl)
    (map (\<lambda>(k, t). print_string_ptr k @ CHR '':'' # gap @ t) (zip (map fst kvs) ts))"
  have name: "parse_string (buffer_skip_whitespace (ws @ print_string_ptr k @ r)) = Some (k, r)" for r
  proof -
    obtain u where "print_string_ptr k = CHR 0x22 # u" by (simp add: print_string_ptr_def)
    then have "buffer_skip_whitespace (ws @ print_string_ptr k @ r) = print_string_ptr k @ r"
      using skip_blank [OF Cons.prems(2), of "CHR 0x22" "u @ r"] by simp
    then show ?thesis using parse_string_print [OF k] by simp
  qed
  show ?case
  proof (cases ts)
    case Nil
    then have "kvs = []" using Cons.hyps(2) by simp
    then show ?thesis
      using Nil kv name reads_back_skip [OF v Cons.prems(3), of "final @ CHR ''}'' # rest"]
        ends_number_blank [OF Cons.prems(5), of "CHR ''}''" rest] skip_blank [OF Cons.prems(5), of "CHR ''}''" rest]
      by (subst parse_members.simps) simp
  next
    case (Cons t' ts')
    let ?tail = "nl @ ?members kvs ts @ final @ CHR ''}'' # rest"
    have "kvs \<noteq> []" using Cons Cons.hyps(2) by auto
    then obtain kv' kvs' where kvs: "kvs = kv' # kvs'" by (cases kvs) auto
    have whole: "ws @ ?members (kv # kvs) (t # ts) @ final @ CHR ''}'' # rest =
        ws @ print_string_ptr k @ CHR '':'' # gap @ t @ CHR '','' # ?tail"
      using Cons kvs by (simp add: kv)
    have "parse_members value ?tail = Some (kvs, rest)" using Cons.IH [OF \<open>kvs \<noteq> []\<close>] Cons.prems by blast
    then show ?thesis
      unfolding whole using name reads_back_skip [OF v Cons.prems(3), of "CHR '','' # ?tail"] kv
      by (subst parse_members.simps) simp
  qed
qed simp


lemma separated_indent:
  "ts \<noteq> [] \<Longrightarrow> separated sep (map ((@) indent) ts) = indent @ separated (sep @ indent) ts"
  by (induction ts rule: induct_list012) auto

lemma parse_value_step: "parse_value n s = parse_value_with (case n of 0 \<Rightarrow> None | Suc m \<Rightarrow> Some (parse_value m)) s"
  by (cases n) simp_all

lemma parse_value_string:
  "CHR 0x00 \<notin> set s \<Longrightarrow> parse_value_with p (print_string_ptr s @ rest) = Some (JStr s, rest)"
  using parse_string_print [of s rest] by (simp add: parse_value_with_def print_string_ptr_def)

lemma parse_value_number:
  assumes "\<bar>n\<bar> < 10 ^ 15" "ends_number rest"
  shows "parse_value_with p (dec_int n @ rest) = Some (JNum n, rest)"
proof -
  obtain c u where cu: "dec_nat (nat \<bar>n\<bar>) = c # u" by (cases "dec_nat (nat \<bar>n\<bar>)") auto
  then have d: "digit_val c \<noteq> None" using dec_nat_hd_digit [of "nat \<bar>n\<bar>"] by simp
  then obtain c' u' where c': "dec_int n = c' # u'" "c' = CHR ''-'' \<or> digit_val c' \<noteq> None"
    using cu by (cases "n < 0") (auto simp: dec_int_def)
  then have "c' \<noteq> CHR ''n''" "c' \<noteq> CHR ''f''" "c' \<noteq> CHR ''t''" "c' \<noteq> CHR 0x22" by (auto simp: digit_val_def)
  then show ?thesis
    using parse_number_dec_int [of n rest] assms c' by (simp add: parse_value_with_def)
qed

lemma those_map: "those (map f xs) = Some ys \<longleftrightarrow> list_all2 (\<lambda>x y. f x = Some y) xs ys"
proof (induction xs arbitrary: ys)
  case (Cons x xs)
  then show ?case by (cases ys) (auto split: option.split)
qed auto

lemma print_value_reads_back:
  "json_ok j \<Longrightarrow> print_value format d j = Some t \<Longrightarrow> d \<le> CJSON_NESTING_LIMIT \<Longrightarrow>
     reads_back (parse_value (CJSON_NESTING_LIMIT - d)) j t"
proof (induction j arbitrary: d t)
  case JNull
  then have "t = ''null''" by simp
  then show ?case by (simp add: reads_back_def parse_value_step parse_value_with_def)
next
  case (JBool b)
  then have "t = (if b then ''true'' else ''false'')" by simp
  then show ?case by (cases b) (simp_all add: reads_back_def parse_value_step parse_value_with_def)
next
  case (JNum n)
  have t: "t = dec_int n" using JNum print_number_small by simp
  have "\<forall>rest. ends_number rest \<longrightarrow> parse_value (CJSON_NESTING_LIMIT - d) (t @ rest) = Some (JNum n, rest)"
    using parse_value_number JNum(1) by (simp add: parse_value_step t)
  moreover obtain c u where "t = c # u" "\<not> of_char c \<le> (32 :: nat)" "c \<noteq> CHR '']''" by (rule print_value_hd [OF JNum(2,1)])
  ultimately show ?case unfolding reads_back_def by blast
next
  case (JStr s)
  have t: "t = print_string_ptr s" using JStr by simp
  have "\<forall>rest. ends_number rest \<longrightarrow> parse_value (CJSON_NESTING_LIMIT - d) (t @ rest) = Some (JStr s, rest)"
    using parse_value_string JStr(1) by (simp add: parse_value_step t)
  moreover obtain c u where "t = c # u" "\<not> of_char c \<le> (32 :: nat)" "c \<noteq> CHR '']''" by (rule print_value_hd [OF JStr(2,1)])
  ultimately show ?case unfolding reads_back_def by blast
next
  case (JArr vs)
  then have d: "d < CJSON_NESTING_LIMIT" by (auto split: if_splits)
  obtain ts where t: "t = print_array format ts" and "those (map (print_value format (d + 1)) vs) = Some ts"
    using JArr.prems(2) d by auto
  then have "list_all2 (\<lambda>v t. print_value format (d + 1) v = Some t) vs ts" by (simp add: those_map)
  then have ok: "list_all2 (reads_back (parse_value (CJSON_NESTING_LIMIT - (d + 1)))) vs ts"
    using JArr.IH JArr.prems(1) d by (auto simp: list_all2_conv_all_nth list_all_length)
  let ?val = "parse_value (CJSON_NESTING_LIMIT - (d + 1))"
  have n: "CJSON_NESTING_LIMIT - d = Suc (CJSON_NESTING_LIMIT - (d + 1))" using d by simp
  have "parse_array ?val (t @ rest) = Some (JArr vs, rest)" for rest
  proof (cases "vs = []")
    case True
    then show ?thesis using ok t by (simp add: parse_array_def print_array_def)
  next
    case False
    define ws where "ws = (if format then '' '' else [])"
    have ws: "blank ws" by (simp add: ws_def blank_def)
    obtain v vs' t1 ts' where "vs = v # vs'" and ts: "ts = t1 # ts'" using ok False by (cases vs; cases ts) auto
    then obtain c u where cu: "t1 = c # u" "\<not> of_char c \<le> (32 :: nat)" "c \<noteq> CHR '']''" using ok unfolding reads_back_def by auto
    obtain u' where "separated (CHR '','' # ws) ts = c # u'" using ts cu(1) by (cases ts') simp_all
    moreover have "parse_elements ?val (separated (CHR '','' # ws) ts @ CHR '']'' # rest) = Some (vs, rest)"
      using elements_read_back [OF ok False blank_Nil ws, of rest] by simp
    moreover have "t @ rest = CHR ''['' # separated (CHR '','' # ws) ts @ CHR '']'' # rest"
      by (simp add: t print_array_def ws_def)
    ultimately show ?thesis using cu(2,3) by (simp add: parse_array_def)
  qed
  then show ?case unfolding n
    by (auto simp: reads_back_def parse_value_with_def t print_array_def digit_val_def)
next
  case (JObj kvs)
  then have d: "d < CJSON_NESTING_LIMIT" by (auto split: if_splits)
  obtain ts where t: "t = print_object format d (zip (map fst kvs) ts)"
      and "those (map (\<lambda>(k, v). print_value format (d + 1) v) kvs) = Some ts"
    using JObj.prems(2) d by auto
  then have pr: "list_all2 (\<lambda>kv t. print_value format (d + 1) (snd kv) = Some t) kvs ts" by (simp add: those_map case_prod_unfold)
  let ?val = "parse_value (CJSON_NESTING_LIMIT - (d + 1))"
  have ok: "list_all2 (\<lambda>(k, v) t. CHR 0x00 \<notin> set k \<and> reads_back ?val v t) kvs ts"
  proof (rule list_all2_all_nthI)
    show "length kvs = length ts" using pr by (rule list_all2_lengthD)
    fix i assume i: "i < length kvs"
    obtain k v where kv: "kvs ! i = (k, v)" by force
    have "CHR 0x00 \<notin> set k \<and> json_ok v" using JObj.prems(1) i kv by (auto simp: list_all_length)
    moreover have "print_value format (d + 1) v = Some (ts ! i)" using list_all2_nthD [OF pr i] kv by simp
    moreover have "(k, v) \<in> set kvs" using i kv nth_mem by metis
    ultimately show "(\<lambda>(k, v) t. CHR 0x00 \<notin> set k \<and> reads_back ?val v t) (kvs ! i) (ts ! i)"
      using JObj.IH [of "(k, v)" v "d + 1" "ts ! i"] d kv by auto
  qed
  have n: "CJSON_NESTING_LIMIT - d = Suc (CJSON_NESTING_LIMIT - (d + 1))" using d by simp
  define nl where "nl = (if format then [CHR 0x0A] else [])"
  define indent where "indent = (if format then tabs (d + 1) else [])"
  define gap where "gap = (if format then tabs 1 else [])"
  define final where "final = nl @ (if format then tabs d else [])"
  have blanks: "blank nl" "blank indent" "blank gap" "blank final"
    by (auto simp: blank_def nl_def indent_def gap_def final_def list_all_iff)
  have "parse_object ?val (t @ rest) = Some (JObj kvs, rest)" for rest
  proof (cases "kvs = []")
    case True
    have "blank final" by (rule blanks)
    then show ?thesis using t True skip_blank [of final "CHR ''}''" rest]
      by (simp add: parse_object_def print_object_def Let_def nl_def final_def)
  next
    case False
    let ?bodies = "map (\<lambda>(k, t). print_string_ptr k @ CHR '':'' # gap @ t) (zip (map fst kvs) ts)"
    let ?text = "separated (CHR '','' # nl @ indent) ?bodies @ final @ CHR ''}'' # rest"
    have ne: "zip (map fst kvs) ts \<noteq> []" using False list_all2_lengthD [OF pr] by (auto simp: zip_eq_Nil_iff)
    have sep: "separated (CHR '','' # nl) (map (\<lambda>(k, t). indent @ print_string_ptr k @ CHR '':'' # gap @ t) (zip (map fst kvs) ts)) =
        indent @ separated (CHR '','' # nl @ indent) ?bodies"
      using separated_indent [of ?bodies "CHR '','' # nl" indent] ne by (simp add: case_prod_unfold comp_def)
    then have whole: "t @ rest = CHR ''{'' # (nl @ indent) @ ?text"
      using ne by (simp add: t print_object_def Let_def flip: nl_def indent_def gap_def) (simp add: final_def)
    obtain k v kvs' t1 ts' where kv: "kvs = (k, v) # kvs'" "ts = t1 # ts'" using ne by (cases kvs; cases ts) auto
    have "\<exists>u. separated sep (print_string_ptr k # xs) = CHR 0x22 # u" for sep xs
      by (cases xs) (simp_all add: print_string_ptr_def)
    then obtain u where u: "?text = CHR 0x22 # u"
      using kv by (cases "zip (map fst kvs') ts'") (auto simp: print_string_ptr_def)
    have "blank (nl @ indent)" using blanks by (simp add: blank_def)
    then have skip: "buffer_skip_whitespace ((nl @ indent) @ ?text) = ?text" using skip_blank [of "nl @ indent" "CHR 0x22" u] u by simp
    have "parse_members ?val ?text = Some (kvs, rest)"
      using members_read_back [OF ok False blank_Nil blanks(3) \<open>blank (nl @ indent)\<close> blanks(4), of rest] by simp
    then show ?thesis unfolding whole using skip u by (simp add: parse_object_def)
  qed
  then show ?case unfolding n
    by (auto simp: reads_back_def parse_value_with_def t print_object_def digit_val_def Let_def)
qed

text \<open>The depth of a tree.\<close>

fun json_depth :: "json \<Rightarrow> nat" where
  "json_depth (JArr vs) = Suc (fold max (map json_depth vs) 0)"
| "json_depth (JObj kvs) = Suc (fold max (map (\<lambda>(k, v). json_depth v) kvs) 0)"
| "json_depth _ = 0"

lemma fold_max: "fold max ns n \<le> m \<longleftrightarrow> n \<le> m \<and> (\<forall>k\<in>set ns. k \<le> m)" for n m :: nat
  by (induction ns arbitrary: n) auto

lemma those_Some: "(\<exists>ys. those (map f xs) = Some ys) \<longleftrightarrow> (\<forall>x\<in>set xs. f x \<noteq> None)"
  by (induction xs) (auto split: option.split)

lemma print_value_total:
  "(\<exists>t. print_value format d j = Some t) \<longleftrightarrow> json_depth j = 0 \<or> d + json_depth j \<le> CJSON_NESTING_LIMIT"
proof (induction j arbitrary: d)
  case (JArr vs)
  have "(\<exists>t. print_value format d (JArr vs) = Some t) \<longleftrightarrow>
      d < CJSON_NESTING_LIMIT \<and> (\<exists>ts. those (map (print_value format (d + 1)) vs) = Some ts)"
    by auto
  also have "\<dots> \<longleftrightarrow> d < CJSON_NESTING_LIMIT \<and> (\<forall>v\<in>set vs. json_depth v = 0 \<or> d + 1 + json_depth v \<le> CJSON_NESTING_LIMIT)"
    unfolding those_Some using JArr by (metis not_None_eq)
  also have "\<dots> \<longleftrightarrow> d + json_depth (JArr vs) \<le> CJSON_NESTING_LIMIT"
    using fold_max [of "map json_depth vs" 0 "CJSON_NESTING_LIMIT - (d + 1)"] by fastforce
  finally show ?case by simp
next
  case (JObj kvs)
  have "(\<exists>t. print_value format d (JObj kvs) = Some t) \<longleftrightarrow>
      d < CJSON_NESTING_LIMIT \<and> (\<exists>ts. those (map (\<lambda>(k, v). print_value format (d + 1) v) kvs) = Some ts)"
    by auto
  also have "\<dots> \<longleftrightarrow> d < CJSON_NESTING_LIMIT \<and> (\<forall>kv\<in>set kvs. json_depth (snd kv) = 0 \<or> d + 1 + json_depth (snd kv) \<le> CJSON_NESTING_LIMIT)"
    unfolding those_Some case_prod_unfold using JObj by (metis not_None_eq prod.collapse snds.intros)
  also have "\<dots> \<longleftrightarrow> d + json_depth (JObj kvs) \<le> CJSON_NESTING_LIMIT"
    using fold_max [of "map (\<lambda>(k, v). json_depth v) kvs" 0 "CJSON_NESTING_LIMIT - (d + 1)"] by fastforce
  finally show ?case by simp
qed auto

lemma visible_not_bom:
  assumes "t = c # u" "c \<noteq> CHR 0xEF"
  shows "skip_utf8_bom (t @ s) = t @ s"
  using assms by (auto simp: skip_utf8_bom_def)

lemma print_value_not_bom:
  assumes "print_value format d j = Some t" "json_ok j" "t = c # u"
  shows "c \<noteq> CHR 0xEF"
proof (cases j)
  case (JNum n)
  then have "c \<in> set (dec_int n)" using assms print_number_small by auto
  then show ?thesis using number_char_dec_int [of c n] by (auto simp: number_char_def digit_val_def)
next
  case (JBool b)
  then show ?thesis using assms by (cases b) auto
qed (use assms in \<open>auto simp: print_string_ptr_def print_array_def print_object_def Let_def split: if_splits\<close>)

lemma print_value_parse:
  assumes "json_ok j" "print_value format 0 j = Some t"
  shows "cJSON_Parse t = Some j"
proof -
  obtain c u where cu: "t = c # u" "\<not> of_char c \<le> (32 :: nat)" by (rule print_value_hd [OF assms(2,1)])
  have "skip_utf8_bom (t @ [CHR 0x00]) = t @ [CHR 0x00]"
    using visible_not_bom [OF cu(1) print_value_not_bom [OF assms(2,1) cu(1)]] .
  moreover have "buffer_skip_whitespace (t @ [CHR 0x00]) = t @ [CHR 0x00]" using cu by simp
  moreover have "ends_number [CHR 0x00]" by (simp add: ends_number_def number_char_def digit_val_def)
  then have "parse_value CJSON_NESTING_LIMIT (t @ [CHR 0x00]) = Some (j, [CHR 0x00])"
    using print_value_reads_back [OF assms] unfolding reads_back_def by simp
  ultimately show ?thesis by (simp add: cJSON_Parse_def)
qed

text \<open>The text a caller writes, empty where printing fails.\<close>

definition json_text :: "bool \<Rightarrow> json \<Rightarrow> string" where
  "json_text formatted j = (case (if formatted then cJSON_Print j else cJSON_PrintUnformatted j) of Some t \<Rightarrow> t | None \<Rightarrow> [])"

lemma json_text_parse:
  assumes "json_ok j" "json_depth j \<le> 1000"
  shows "cJSON_Parse (json_text formatted j) = Some j"
proof -
  obtain t where "print_value formatted 0 j = Some t"
    using print_value_total [of formatted 0 j] assms(2) by (auto simp: CJSON_NESTING_LIMIT_def)
  then show ?thesis using print_value_parse [OF assms(1)]
    by (cases formatted) (simp_all add: json_text_def cJSON_Print_def cJSON_PrintUnformatted_def)
qed

text \<open>C7: the text of a tree is read back.  Printing, with or without formatting, succeeds exactly
  when the tree is nested at most a thousand levels deep; and if its strings hold no zero byte and
  its numbers have at most fifteen digits, parsing the text gives the same tree.\<close>

theorem json_text_roundtrip:
  assumes "json_ok j"
  shows "((\<exists>t. cJSON_Print j = Some t) \<longleftrightarrow> json_depth j \<le> 1000) \<and>
         (cJSON_Print j = Some t \<or> cJSON_PrintUnformatted j = Some t \<longrightarrow> cJSON_Parse t = Some j)"
  using print_value_total [of True 0 j] print_value_parse [OF assms]
  by (auto simp: cJSON_Print_def cJSON_PrintUnformatted_def CJSON_NESTING_LIMIT_def)


theorem json_text_roundtrip_witness:
  "\<exists>t. cJSON_Print (JObj [(''a'', JArr [JNum (- 5), JStr [CHR 0x22, CHR 0x01]]), ([], JObj [])]) = Some t \<and>
     cJSON_Parse t = Some (JObj [(''a'', JArr [JNum (- 5), JStr [CHR 0x22, CHR 0x01]]), ([], JObj [])])"
proof -
  let ?j = "JObj [(''a'', JArr [JNum (- 5), JStr [CHR 0x22, CHR 0x01]]), ([], JObj [])]"
  have ok: "json_ok ?j" by simp
  then obtain t where "cJSON_Print ?j = Some t" using json_text_roundtrip [of ?j] by auto
  then show ?thesis using json_text_roundtrip [OF ok, of t] by blast
qed

text \<open>Above fifteen digits the test of the printer, that the shorter text is within a relative
  distance of \<open>2 ^ -52\<close>, accepts texts of other numbers.\<close>

lemma json_number_inexact:
  "print_number 9007199254740991 = ''9.00719925474099e+15''" "strtod ''9.00719925474099e+15'' = Some (9007199254740990, [])"
proof -
  have d: "dec_nat 9007199254740991 = ''9007199254740991''" "dec_nat 900719925474099 = ''900719925474099''" "dec_nat 15 = ''15''"
    by (simp_all add: dec_nat.simps digit_char_def)
  show s: "strtod ''9.00719925474099e+15'' = Some (9007199254740990, [])"
    by (simp add: strtod_def read_sign_def read_mantissa_def read_exponent_def digit_val_def decimal_value_def Let_def)
  have d15: "dec_nat (Suc (Suc (Suc (Suc (Suc (Suc (Suc (Suc (Suc (Suc (Suc (Suc (Suc (Suc (Suc 0))))))))))))))) = ''15''"
    using d(3) by (simp add: eval_nat_numeral)
  have f: "format_g 15 9007199254740991 = ''9.00719925474099e+15''" by (simp add: format_g_def d d15 Let_def)
  show "print_number 9007199254740991 = ''9.00719925474099e+15''"
    by (simp add: print_number_def valueint_def f s compare_double_def)
qed

section \<open>The parser ends\<close>

lemma length_skip: "length (buffer_skip_whitespace s) \<le> length s"
  by (simp add: buffer_skip_whitespace_def Let_def length_dropWhile_le)

lemma scan_string_less: "scan_string s = Some (body, r) \<Longrightarrow> length r < length s"
proof (induction s arbitrary: body rule: scan_string.induct)
  case (2 c s)
  then show ?case by (auto split: if_splits list.splits) fastforce+
qed simp

lemma parse_string_less: "parse_string s = Some (t, r) \<Longrightarrow> length r < length s"
  by (auto simp: parse_string_def dest!: scan_string_less split: list.splits option.splits if_splits)

lemma read_digits_le: "read_digits a s = (n, r) \<Longrightarrow> length r \<le> length s"
  by (induction s arbitrary: a) (auto split: option.splits intro: le_SucI)

lemma read_mantissa_less: "read_mantissa s = Some (m, k, r) \<Longrightarrow> length r < length s"
proof -
  assume a: "read_mantissa s = Some (m, k, r)"
  obtain i r1 where i: "read_digits 0 s = (i, r1)" by force
  then have le: "length r1 \<le> length s" by (rule read_digits_le)
  show ?thesis
  proof (cases "\<exists>t. r1 = CHR ''.'' # t")
    case True
    then obtain t m' t' where "r1 = CHR ''.'' # t" "read_digits i t = (m', t')" by force
    moreover from this have "length t' \<le> length t" by (blast intro: read_digits_le)
    ultimately show ?thesis using a i le by (auto simp: read_mantissa_def split: if_splits)
  next
    case False
    then show ?thesis using a i le by (auto simp: read_mantissa_def split: if_splits list.splits)
  qed
qed

lemma read_sign_le: "read_sign s = (neg, r) \<Longrightarrow> length r \<le> length s"
  by (auto simp: read_sign_def split: list.splits if_splits)

lemma read_exponent_le: "read_exponent s = (x, r) \<Longrightarrow> length r \<le> length s"
proof (cases s)
  case (Cons c t)
  assume a: "read_exponent s = (x, r)"
  obtain neg u y r' where "read_sign t = (neg, u)" "read_digits 0 u = (y, r')" by force
  then show ?thesis
    using a Cons read_sign_le [of t neg u] read_digits_le [of 0 u y r'] by (auto simp: read_exponent_def split: if_splits)
qed (simp add: read_exponent_def)

lemma strtod_less: "strtod s = Some (v, r) \<Longrightarrow> length r < length s"
proof -
  assume a: "strtod s = Some (v, r)"
  obtain neg t where t: "read_sign s = (neg, t)" by force
  then obtain m k u where u: "read_mantissa t = Some (m, k, u)" using a by (auto simp: strtod_def split: option.splits)
  obtain x r' where "read_exponent u = (x, r')" by force
  then show ?thesis
    using a t u read_sign_le [OF t] read_mantissa_less [OF u] read_exponent_le [of u x r'] by (simp add: strtod_def)
qed

lemma parse_number_less: "parse_number s = Some (v, r) \<Longrightarrow> length r < length s"
proof -
  assume "parse_number s = Some (v, r)"
  then obtain x e where "strtod (takeWhile number_char s) = Some (x, e)" "r = drop (length (takeWhile number_char s) - length e) s"
    by (auto simp: parse_number_def Let_def split: option.splits)
  moreover from this have "length e < length (takeWhile number_char s)" by (blast dest: strtod_less)
  ultimately show ?thesis using length_takeWhile_le [of number_char s] by simp
qed

definition consumes :: "value_parser \<Rightarrow> bool" where
  "consumes value \<longleftrightarrow> (\<forall>s v r. value s = Some (v, r) \<longrightarrow> length r < length s)"

lemma elements_tail_less:
  assumes "consumes value" "value (buffer_skip_whitespace s) = Some (v, r)" "buffer_skip_whitespace r = c # t"
  shows "length t < length s"
proof -
  have "length r < length (buffer_skip_whitespace s)" using assms(1,2) by (auto simp: consumes_def)
  then show ?thesis using length_skip [of s] length_skip [of r] assms(3) by simp
qed

lemma members_tail_less:
  assumes "consumes value" "parse_string (buffer_skip_whitespace s) = Some (name, r)" "buffer_skip_whitespace r = c # u"
    and "value (buffer_skip_whitespace u) = Some (v, q)" "buffer_skip_whitespace q = d # t"
  shows "length t < length s"
proof -
  have "length r < length s" using parse_string_less [OF assms(2)] length_skip [of s] by simp
  moreover have "length u < length r" using length_skip [of r] assms(3) by simp
  moreover have "length t < length u" using elements_tail_less assms(1,4,5) by blast
  ultimately show ?thesis by simp
qed

text \<open>The loops without the tests of the length.\<close>

lemma parse_elements_loop:
  assumes "consumes value"
  shows "parse_elements value s =
    (case value (buffer_skip_whitespace s) of
       None \<Rightarrow> None
     | Some (v, r) \<Rightarrow>
         (case buffer_skip_whitespace r of
            [] \<Rightarrow> None
          | c # t \<Rightarrow>
              if c = CHR '','' then map_option (\<lambda>(vs, r). (v # vs, r)) (parse_elements value t)
              else if c = CHR '']'' then Some ([v], t) else None))"
  using elements_tail_less [OF assms, of s] by (subst parse_elements.simps) (auto split: option.splits list.splits)

lemma parse_members_loop:
  assumes "consumes value"
  shows "parse_members value s =
    (case parse_string (buffer_skip_whitespace s) of
       None \<Rightarrow> None
     | Some (name, r) \<Rightarrow>
         (case buffer_skip_whitespace r of
            [] \<Rightarrow> None
          | c # t \<Rightarrow>
              if c \<noteq> CHR '':'' then None
              else case value (buffer_skip_whitespace t) of
                None \<Rightarrow> None
              | Some (v, r) \<Rightarrow>
                  (case buffer_skip_whitespace r of
                     [] \<Rightarrow> None
                   | c # t \<Rightarrow>
                       if c = CHR '','' then map_option (\<lambda>(kvs, r). ((name, v) # kvs, r)) (parse_members value t)
                       else if c = CHR ''}'' then Some ([(name, v)], t) else None)))"
  using members_tail_less [OF assms, of s] by (subst parse_members.simps) (auto split: option.splits list.splits)

lemma parse_elements_less:
  assumes "consumes value" "parse_elements value s = Some (vs, r)"
  shows "length r < length s"
  using assms(2)
proof (induction s arbitrary: vs rule: length_induct)
  case (1 s)
  obtain v q c t where q: "value (buffer_skip_whitespace s) = Some (v, q)" "buffer_skip_whitespace q = c # t"
    using 1(2) unfolding parse_elements_loop [OF assms(1), of s] by (auto split: option.splits list.splits)
  have less: "length t < length s" using elements_tail_less [OF assms(1) q] .
  show ?case
  proof (cases "c = CHR '',''")
    case True
    then obtain vs' where "parse_elements value t = Some (vs', r)"
      using 1(2) q unfolding parse_elements_loop [OF assms(1), of s] by auto
    then show ?thesis using 1(1) less by (meson less_trans)
  next
    case False
    then show ?thesis using 1(2) q less unfolding parse_elements_loop [OF assms(1), of s] by (auto split: if_splits)
  qed
qed

lemma parse_members_less:
  assumes "consumes value" "parse_members value s = Some (kvs, r)"
  shows "length r < length s"
  using assms(2)
proof (induction s arbitrary: kvs rule: length_induct)
  case (1 s)
  note loop = parse_members_loop [OF assms(1), of s]
  obtain name p d u where p: "parse_string (buffer_skip_whitespace s) = Some (name, p)" "buffer_skip_whitespace p = d # u"
    using 1(2) unfolding loop by (auto split: option.splits list.splits)
  obtain v q c t where q: "value (buffer_skip_whitespace u) = Some (v, q)" "buffer_skip_whitespace q = c # t" "d = CHR '':''"
    using 1(2) p unfolding loop by (auto split: option.splits list.splits if_splits)
  have less: "length t < length s" using members_tail_less [OF assms(1) p q(1,2)] .
  show ?case
  proof (cases "c = CHR '',''")
    case True
    then obtain kvs' where "parse_members value t = Some (kvs', r)" using 1(2) p q unfolding loop by auto
    then show ?thesis using 1(1) less by (meson less_trans)
  next
    case False
    then show ?thesis using 1(2) p q less unfolding loop by (auto split: if_splits)
  qed
qed

lemma parse_array_less:
  assumes "consumes value" "parse_array value s = Some (v, r)"
  shows "length r < length s"
proof -
  obtain c t d u where t: "s = c # t" "buffer_skip_whitespace t = d # u"
    using assms(2) by (auto simp: parse_array_def split: list.splits if_splits)
  then have "length (d # u) \<le> length t" using length_skip [of t] by simp
  then show ?thesis using assms t parse_elements_less [OF assms(1), of "d # u"]
    by (fastforce simp: parse_array_def split: if_splits)
qed

lemma parse_object_less:
  assumes "consumes value" "parse_object value s = Some (v, r)"
  shows "length r < length s"
proof -
  obtain c t d u where t: "s = c # t" "buffer_skip_whitespace t = d # u"
    using assms(2) by (auto simp: parse_object_def split: list.splits if_splits)
  then have "length (d # u) \<le> length t" using length_skip [of t] by simp
  then show ?thesis using assms t parse_members_less [OF assms(1), of "d # u"]
    by (fastforce simp: parse_object_def split: if_splits)
qed

lemma parse_value_with_consumes:
  assumes "\<And>p. value = Some p \<Longrightarrow> consumes p"
  shows "consumes (parse_value_with value)"
  unfolding consumes_def
proof (intro allI impI)
  fix s v r
  assume a: "parse_value_with value s = Some (v, r)"
  then obtain c t where s: "s = c # t" by (cases s) (auto simp: parse_value_with_def)
  show "length r < length s"
  proof (cases "take 4 s = ''null'' \<or> take 5 s = ''false'' \<or> take 4 s = ''true''")
    case True
    then show ?thesis using a s by (auto simp: parse_value_with_def split: if_splits)
  next
    case False
    then show ?thesis using a s parse_string_less [of s] parse_number_less [of s v r] parse_array_less [of _ s v r]
        parse_object_less [of _ s v r] assms
      by (auto simp: parse_value_with_def bind_eq_Some_conv split: if_splits)
  qed
qed

lemma parse_value_consumes: "consumes (parse_value n)"
  by (induction n) (auto intro: parse_value_with_consumes)


text \<open>C40: The reader of JSON text ends on every input, at every allowance of nesting. A value that is read leaves a
  strictly shorter input behind; and the loops over the elements of an array and the members of an object satisfy the
  equations of the \<^verbatim>\<open>do ... while\<close> loops of the source, in which nothing but a comma decides about a
  further round: the test of the length in \<^const>\<open>parse_elements\<close> and \<^const>\<open>parse_members\<close>,
  which makes them total functions for every element parser, never stops a round here.\<close>

theorem json_parse_terminates:
  "(case parse_value n s of None \<Rightarrow> True | Some (v, r) \<Rightarrow> length r < length s) \<and>
   parse_elements (parse_value n) s =
     (case parse_value n (buffer_skip_whitespace s) of
        None \<Rightarrow> None
      | Some (v, r) \<Rightarrow>
          (case buffer_skip_whitespace r of
             [] \<Rightarrow> None
           | c # t \<Rightarrow>
               if c = CHR '','' then map_option (\<lambda>(vs, r). (v # vs, r)) (parse_elements (parse_value n) t)
               else if c = CHR '']'' then Some ([v], t) else None)) \<and>
   parse_members (parse_value n) s =
     (case parse_string (buffer_skip_whitespace s) of
        None \<Rightarrow> None
      | Some (name, r) \<Rightarrow>
          (case buffer_skip_whitespace r of
             [] \<Rightarrow> None
           | c # t \<Rightarrow>
               if c \<noteq> CHR '':'' then None
               else case parse_value n (buffer_skip_whitespace t) of
                 None \<Rightarrow> None
               | Some (v, r) \<Rightarrow>
                   (case buffer_skip_whitespace r of
                      [] \<Rightarrow> None
                    | c # t \<Rightarrow>
                        if c = CHR '','' then
                          map_option (\<lambda>(kvs, r). ((name, v) # kvs, r)) (parse_members (parse_value n) t)
                        else if c = CHR ''}'' then Some ([(name, v)], t) else None)))"
proof (intro conjI)
  show "case parse_value n s of None \<Rightarrow> True | Some (v, r) \<Rightarrow> length r < length s"
    using parse_value_consumes [of n] by (auto simp: consumes_def split: option.splits)
qed (rule parse_elements_loop [OF parse_value_consumes], rule parse_members_loop [OF parse_value_consumes])


end
