(* ===== verification/Topology.thy ===== *)
theory Topology
  imports Cluster_Io XXHash
begin

text \<open>
  The cluster topology of \<^verbatim>\<open>src/src/cluster/topology.c\<close>: pools of erasure sets of disks
  with a generation number, its JSON form, the operations that change it, and the quorum
  reads and writes over the disks.  The lemmas show that the operations keep the indices
  and count the changes, that the JSON form can be read back, when a quorum read returns
  what a quorum write stored, and when it does not.

  An array and its count field are one list.
\<close>

section \<open>Data\<close>

datatype buckets_set_state = SET_STATE_ACTIVE | SET_STATE_DRAINING | SET_STATE_REMOVED

record buckets_disk_info =
  dk_endpoint :: string
  dk_uuid :: string
  dk_capacity :: u64

record buckets_set_topology =
  st_idx :: int
  st_state :: buckets_set_state
  st_disks :: "buckets_disk_info list"

record buckets_pool_topology =
  pl_idx :: int
  pl_sets :: "buckets_set_topology list"

record buckets_cluster_topology =
  tp_version :: int
  tp_generation :: int
  tp_deployment_id :: string
  tp_vnode_factor :: int
  tp_pools :: "buckets_pool_topology list"

definition buckets_topology_new :: buckets_cluster_topology where
  "buckets_topology_new =
     \<lparr>tp_version = 1, tp_generation = 0, tp_deployment_id = [], tp_vnode_factor = 150, tp_pools = []\<rparr>"

text \<open>The part of \<^verbatim>\<open>buckets_format_t\<close> that a topology is made from: the deployment id and
  the disk ids of every set.\<close>

record buckets_format =
  fm_deployment_id :: string
  fm_sets :: "string list list"

definition disk_of_uuid :: "string \<Rightarrow> buckets_disk_info" where
  "disk_of_uuid uuid = \<lparr>dk_endpoint = [], dk_uuid = snprintf_s 37 uuid, dk_capacity = 0\<rparr>"

definition buckets_topology_from_format :: "buckets_format option \<Rightarrow> buckets_cluster_topology option" where
  "buckets_topology_from_format format =
    (case format of
       None \<Rightarrow> None
     | Some f \<Rightarrow>
       Some (buckets_topology_new
         \<lparr>tp_generation := 1,
          tp_deployment_id := fm_deployment_id f,
          tp_pools :=
            [\<lparr>pl_idx = 0,
              pl_sets = map (\<lambda>(i, uuids). \<lparr>st_idx = int i, st_state = SET_STATE_ACTIVE,
                                           st_disks = map disk_of_uuid uuids\<rparr>)
                          (enumerate 0 (fm_sets f))\<rparr>]\<rparr>))"

section \<open>JSON\<close>

definition set_state_to_string :: "buckets_set_state \<Rightarrow> string" where
  "set_state_to_string state =
    (case state of SET_STATE_ACTIVE \<Rightarrow> ''active'' | SET_STATE_DRAINING \<Rightarrow> ''draining''
     | SET_STATE_REMOVED \<Rightarrow> ''removed'')"

definition set_state_from_string :: "string option \<Rightarrow> buckets_set_state" where
  "set_state_from_string str =
    (case str of
       None \<Rightarrow> SET_STATE_ACTIVE
     | Some s \<Rightarrow> if s = ''active'' then SET_STATE_ACTIVE
                 else if s = ''draining'' then SET_STATE_DRAINING
                 else if s = ''removed'' then SET_STATE_REMOVED
                 else SET_STATE_ACTIVE)"

definition disk_to_json :: "buckets_disk_info \<Rightarrow> json" where
  "disk_to_json disk =
    (let obj = JObj [];
         obj = buckets_json_add_string obj ''uuid'' (Some (dk_uuid disk));
         obj = buckets_json_add_string obj ''endpoint'' (Some (dk_endpoint disk));
         obj = buckets_json_add_string obj ''capacity''
                 (Some (snprintf_s 32 (dec_nat (unat (dk_capacity disk)))))
     in obj)"

definition set_to_json :: "buckets_set_topology \<Rightarrow> json" where
  "set_to_json st =
    (let obj = JObj [];
         obj = buckets_json_add_int obj ''idx'' (st_idx st);
         obj = buckets_json_add_string obj ''state'' (Some (set_state_to_string (st_state st)));
         obj = buckets_json_add_array obj ''disks'' (map disk_to_json (st_disks st))
     in obj)"

definition pool_to_json :: "buckets_pool_topology \<Rightarrow> json" where
  "pool_to_json pool =
    (let obj = JObj [];
         obj = buckets_json_add_int obj ''idx'' (pl_idx pool);
         obj = buckets_json_add_array obj ''sets'' (map set_to_json (pl_sets pool))
     in obj)"

definition topology_to_json :: "buckets_cluster_topology \<Rightarrow> json" where
  "topology_to_json topology =
    (let root = JObj [];
         root = buckets_json_add_int root ''version'' (tp_version topology);
         root = buckets_json_add_int root ''generation'' (to_i32 (tp_generation topology));
         root = buckets_json_add_string root ''deploymentId'' (Some (tp_deployment_id topology));
         root = buckets_json_add_int root ''vnodeFactor'' (tp_vnode_factor topology);
         root = buckets_json_add_array root ''pools'' (map pool_to_json (tp_pools topology))
     in root)"

definition disk_from_json :: "json \<Rightarrow> buckets_disk_info" where
  "disk_from_json obj =
     \<lparr>dk_endpoint = snprintf_s 256 (the (buckets_json_get_string obj ''endpoint'' (Some []))),
      dk_uuid = snprintf_s 37 (the (buckets_json_get_string obj ''uuid'' (Some []))),
      dk_capacity = strtoull (the (buckets_json_get_string obj ''capacity'' (Some ''0'')))\<rparr>"

definition set_from_json :: "nat \<Rightarrow> json \<Rightarrow> buckets_set_topology option" where
  "set_from_json set_idx obj =
    (case buckets_json_get_array obj ''disks'' of
       None \<Rightarrow> None
     | Some disks \<Rightarrow>
       Some \<lparr>st_idx = buckets_json_get_int obj ''idx'' (int set_idx),
             st_state = set_state_from_string (buckets_json_get_string obj ''state'' (Some ''active'')),
             st_disks = map disk_from_json disks\<rparr>)"

fun sets_from_json :: "nat \<Rightarrow> json list \<Rightarrow> buckets_set_topology list option" where
  "sets_from_json i [] = Some []"
| "sets_from_json i (j # js) =
    (case set_from_json i j of
       None \<Rightarrow> None
     | Some s \<Rightarrow> (case sets_from_json (i + 1) js of None \<Rightarrow> None | Some ss \<Rightarrow> Some (s # ss)))"

definition pool_from_json :: "nat \<Rightarrow> json \<Rightarrow> buckets_pool_topology option" where
  "pool_from_json pool_idx obj =
    (case buckets_json_get_array obj ''sets'' of
       None \<Rightarrow> None
     | Some sets \<Rightarrow>
       (case sets_from_json 0 sets of
          None \<Rightarrow> None
        | Some ss \<Rightarrow> Some \<lparr>pl_idx = buckets_json_get_int obj ''idx'' (int pool_idx), pl_sets = ss\<rparr>))"

fun pools_from_json :: "nat \<Rightarrow> json list \<Rightarrow> buckets_pool_topology list option" where
  "pools_from_json i [] = Some []"
| "pools_from_json i (j # js) =
    (case pool_from_json i j of
       None \<Rightarrow> None
     | Some p \<Rightarrow> (case pools_from_json (i + 1) js of None \<Rightarrow> None | Some ps \<Rightarrow> Some (p # ps)))"

definition topology_from_json :: "json \<Rightarrow> buckets_cluster_topology option" where
  "topology_from_json json =
    (case buckets_json_get_string json ''deploymentId'' None of
       None \<Rightarrow> None
     | Some deployment_id \<Rightarrow>
       (case buckets_json_get_array json ''pools'' of
          None \<Rightarrow> None
        | Some pools_array \<Rightarrow>
          (case pools_from_json 0 pools_array of
             None \<Rightarrow> None
           | Some pools \<Rightarrow>
             Some \<lparr>tp_version = buckets_json_get_int json ''version'' 1,
                   tp_generation = buckets_json_get_int json ''generation'' 1,
                   tp_deployment_id = snprintf_s 37 deployment_id,
                   tp_vnode_factor = buckets_json_get_int json ''vnodeFactor'' 150,
                   tp_pools = pools\<rparr>)))"

section \<open>Changes\<close>

text \<open>The generation is an integer here; the code counts it in 64 bits, which are taken to suffice.\<close>

definition buckets_topology_add_pool ::
  "buckets_cluster_topology \<Rightarrow> buckets_error \<times> buckets_cluster_topology" where
  "buckets_topology_add_pool t =
     (BUCKETS_OK,
      t\<lparr>tp_pools := tp_pools t @ [\<lparr>pl_idx = int (length (tp_pools t)), pl_sets = []\<rparr>],
        tp_generation := tp_generation t + 1\<rparr>)"

definition buckets_topology_add_set ::
  "buckets_cluster_topology \<Rightarrow> int \<Rightarrow> buckets_disk_info list option
     \<Rightarrow> buckets_error \<times> buckets_cluster_topology" where
  "buckets_topology_add_set t pool_idx disks =
    (case disks of
       None \<Rightarrow> (BUCKETS_ERR_INVALID_ARG, t)
     | Some ds \<Rightarrow>
       if pool_idx < 0 \<or> int (length (tp_pools t)) \<le> pool_idx \<or> ds = []
       then (BUCKETS_ERR_INVALID_ARG, t)
       else let pool = tp_pools t ! nat pool_idx;
                new_set = \<lparr>st_idx = int (length (pl_sets pool)), st_state = SET_STATE_ACTIVE, st_disks = ds\<rparr>
            in (BUCKETS_OK,
                t\<lparr>tp_pools := (tp_pools t)[nat pool_idx := pool\<lparr>pl_sets := pl_sets pool @ [new_set]\<rparr>],
                  tp_generation := tp_generation t + 1\<rparr>))"

definition buckets_topology_set_state ::
  "buckets_cluster_topology \<Rightarrow> int \<Rightarrow> int \<Rightarrow> buckets_set_state
     \<Rightarrow> buckets_error \<times> buckets_cluster_topology" where
  "buckets_topology_set_state t pool_idx set_idx new_state =
    (if pool_idx < 0 \<or> int (length (tp_pools t)) \<le> pool_idx then (BUCKETS_ERR_INVALID_ARG, t)
     else let pool = tp_pools t ! nat pool_idx in
       if set_idx < 0 \<or> int (length (pl_sets pool)) \<le> set_idx then (BUCKETS_ERR_INVALID_ARG, t)
       else let st = pl_sets pool ! nat set_idx in
         if st_state st = new_state then (BUCKETS_OK, t)
         else (BUCKETS_OK,
               t\<lparr>tp_pools := (tp_pools t)[nat pool_idx :=
                    pool\<lparr>pl_sets := (pl_sets pool)[nat set_idx := st\<lparr>st_state := new_state\<rparr>]\<rparr>],
                 tp_generation := tp_generation t + 1\<rparr>))"

definition buckets_topology_mark_set_draining ::
  "buckets_cluster_topology \<Rightarrow> int \<Rightarrow> int \<Rightarrow> buckets_error \<times> buckets_cluster_topology" where
  "buckets_topology_mark_set_draining t pool_idx set_idx =
     buckets_topology_set_state t pool_idx set_idx SET_STATE_DRAINING"

definition buckets_topology_mark_set_removed ::
  "buckets_cluster_topology \<Rightarrow> int \<Rightarrow> int \<Rightarrow> buckets_error \<times> buckets_cluster_topology" where
  "buckets_topology_mark_set_removed t pool_idx set_idx =
     buckets_topology_set_state t pool_idx set_idx SET_STATE_REMOVED"

section \<open>Disks and quorums\<close>

definition buckets_topology_save ::
  "(json \<Rightarrow> string) \<Rightarrow> (string \<Rightarrow> io_env) \<Rightarrow> fs \<Rightarrow> string \<Rightarrow> buckets_cluster_topology
     \<Rightarrow> buckets_error \<times> fs" where
  "buckets_topology_save print env fs disk_path topology =
     buckets_json_save print (env disk_path) fs (buckets_get_topology_path disk_path)
       (topology_to_json topology)"

definition buckets_topology_load ::
  "(string \<Rightarrow> json option) \<Rightarrow> (string \<Rightarrow> bool) \<Rightarrow> fs \<Rightarrow> string \<Rightarrow> buckets_cluster_topology option" where
  "buckets_topology_load parse rd fs disk_path =
    (case buckets_json_load parse rd fs (buckets_get_topology_path disk_path) of
       None \<Rightarrow> None
     | Some json \<Rightarrow> topology_from_json json)"

text \<open>The loop over the disks, null paths skipped: the number of successful writes.\<close>

fun save_all ::
  "(json \<Rightarrow> string) \<Rightarrow> (string \<Rightarrow> io_env) \<Rightarrow> buckets_cluster_topology \<Rightarrow> fs \<Rightarrow> string option list \<Rightarrow> nat \<times> fs" where
  "save_all print env t fs [] = (0, fs)"
| "save_all print env t fs (None # ds) = save_all print env t fs ds"
| "save_all print env t fs (Some d # ds) =
    (let (ret, fs) = buckets_topology_save print env fs d t;
         (n, fs) = save_all print env t fs ds
     in (if ret = BUCKETS_OK then n + 1 else n, fs))"

definition buckets_topology_save_quorum ::
  "(json \<Rightarrow> string) \<Rightarrow> (string \<Rightarrow> io_env) \<Rightarrow> fs \<Rightarrow> string option list \<Rightarrow> buckets_cluster_topology
     \<Rightarrow> buckets_error \<times> fs" where
  "buckets_topology_save_quorum print env fs disk_paths topology =
    (if disk_paths = [] then (BUCKETS_ERR_INVALID_ARG, fs)
     else let required_quorum = length disk_paths div 2 + 1;
              (success_count, fs) = save_all print env topology fs disk_paths
          in if required_quorum \<le> success_count then (BUCKETS_OK, fs) else (BUCKETS_ERR_QUORUM, fs))"

definition topology_hash :: "(json \<Rightarrow> string) \<Rightarrow> buckets_cluster_topology \<Rightarrow> u64" where
  "topology_hash print_unformatted t =
     buckets_xxhash64 0 (Some (str_bytes (print_unformatted (topology_to_json t))))"

type_synonym vote = "u64 \<times> buckets_cluster_topology \<times> nat"

text \<open>One vote: the entry with that hash counts one more, or a new entry is appended.
  The result has the entry's topology and count.\<close>

fun cast_vote :: "vote list \<Rightarrow> u64 \<Rightarrow> buckets_cluster_topology \<Rightarrow> vote list \<times> buckets_cluster_topology \<times> nat" where
  "cast_vote [] hash topo = ([(hash, topo, 1)], topo, 1)"
| "cast_vote ((h, t, c) # votes) hash topo =
    (if h = hash then ((h, t, c + 1) # votes, t, c + 1)
     else let (votes', t', c') = cast_vote votes hash topo in ((h, t, c) # votes', t', c'))"

fun load_votes ::
  "(buckets_cluster_topology \<Rightarrow> u64) \<Rightarrow> (string \<Rightarrow> buckets_cluster_topology option) \<Rightarrow> nat
     \<Rightarrow> vote list \<Rightarrow> string option list \<Rightarrow> buckets_cluster_topology option" where
  "load_votes hash load read_quorum votes [] = None"
| "load_votes hash load read_quorum votes (None # ds) = load_votes hash load read_quorum votes ds"
| "load_votes hash load read_quorum votes (Some d # ds) =
    (case load d of
       None \<Rightarrow> load_votes hash load read_quorum votes ds
     | Some topo \<Rightarrow>
       (let (votes, winner, count) = cast_vote votes (hash topo) topo
        in if read_quorum \<le> count then Some winner
           else load_votes hash load read_quorum votes ds))"

definition buckets_topology_load_quorum ::
  "(json \<Rightarrow> string) \<Rightarrow> (string \<Rightarrow> json option) \<Rightarrow> (string \<Rightarrow> bool) \<Rightarrow> fs \<Rightarrow> string option list
     \<Rightarrow> buckets_cluster_topology option" where
  "buckets_topology_load_quorum print_unformatted parse rd fs disk_paths =
    (if disk_paths = [] then None
     else let read_quorum = (if 1 < length disk_paths then length disk_paths div 2 else 1)
          in load_votes (topology_hash print_unformatted) (buckets_topology_load parse rd fs)
               read_quorum [] disk_paths)"

section \<open>Endpoints from the configuration\<close>

record buckets_cluster_node =
  cn_endpoint :: string
  cn_disks :: "string list"

record buckets_cluster_config =
  cc_enabled :: bool
  cc_sets :: int
  cc_disks_per_set :: int
  cc_nodes :: "buckets_cluster_node list"

text \<open>The search through the cumulative disk counts for the node that owns the disk
  with a global index, and the disk's position on it.\<close>

fun owner_node :: "nat \<Rightarrow> buckets_cluster_node list \<Rightarrow> (buckets_cluster_node \<times> nat) option" where
  "owner_node i [] = None"
| "owner_node i (n # ns) =
    (if i < length (cn_disks n) then Some (n, i) else owner_node (i - length (cn_disks n)) ns)"

definition map_entry :: "buckets_cluster_node list \<Rightarrow> nat \<Rightarrow> buckets_disk_info \<Rightarrow> (string \<times> string) list" where
  "map_entry nodes i disk =
    (case owner_node i nodes of
       None \<Rightarrow> []
     | Some (node, k) \<Rightarrow>
       [(snprintf_s 37 (dk_uuid disk), snprintf_s 512 (cn_endpoint node @ cn_disks node ! k))])"

definition topology_disks :: "buckets_cluster_topology \<Rightarrow> buckets_disk_info list" where
  "topology_disks t = concat (map st_disks (concat (map pl_sets (tp_pools t))))"

definition uuid_endpoint_map :: "buckets_cluster_node list \<Rightarrow> buckets_cluster_topology \<Rightarrow> (string \<times> string) list" where
  "uuid_endpoint_map nodes t = concat (map (\<lambda>(i, d). map_entry nodes i d) (enumerate 0 (topology_disks t)))"

definition populate_disk :: "(string \<times> string) list \<Rightarrow> buckets_disk_info \<Rightarrow> buckets_disk_info" where
  "populate_disk m disk =
    (case map_of m (dk_uuid disk) of
       None \<Rightarrow> disk
     | Some endpoint \<Rightarrow> disk\<lparr>dk_endpoint := snprintf_s 256 endpoint\<rparr>)"

definition map_disks :: "(buckets_disk_info \<Rightarrow> buckets_disk_info) \<Rightarrow> buckets_cluster_topology \<Rightarrow> buckets_cluster_topology" where
  "map_disks f t = t\<lparr>tp_pools := map (\<lambda>p. p\<lparr>pl_sets := map (\<lambda>s. s\<lparr>st_disks := map f (st_disks s)\<rparr>) (pl_sets p)\<rparr>) (tp_pools t)\<rparr>"

text \<open>The map is an array with room for the configured number of disks; an entry beyond
  it is written outside the array.\<close>

definition buckets_topology_populate_endpoints_from_config ::
  "buckets_cluster_topology \<Rightarrow> buckets_cluster_config \<Rightarrow> buckets_cluster_topology outcome" where
  "buckets_topology_populate_endpoints_from_config t config =
    (if \<not> cc_enabled config \<or> cc_nodes config = [] then Ok t
     else let uuid_map = uuid_endpoint_map (cc_nodes config) t;
              total_disks = cc_sets config * cc_disks_per_set config
          in if total_disks < int (length uuid_map) then Undefined
             else Ok (map_disks (populate_disk uuid_map) t))"

section \<open>The JSON form can be read back\<close>

text \<open>The strings fit their fields and the small numbers their type.\<close>

definition disk_fits :: "buckets_disk_info \<Rightarrow> bool" where
  "disk_fits d \<longleftrightarrow> length (dk_uuid d) < 37 \<and> length (dk_endpoint d) < 256"

definition topology_fits :: "buckets_cluster_topology \<Rightarrow> bool" where
  "topology_fits t \<longleftrightarrow>
     in_i32 (tp_version t) \<and> in_i32 (tp_vnode_factor t) \<and> length (tp_deployment_id t) < 37 \<and>
     (\<forall>p\<in>set (tp_pools t). in_i32 (pl_idx p) \<and>
        (\<forall>s\<in>set (pl_sets p). in_i32 (st_idx s) \<and> (\<forall>d\<in>set (st_disks s). disk_fits d)))"

lemma dec_nat_length_u64: "length (dec_nat (unat (w :: u64))) < 32"
proof -
  have "length (dec_nat n) \<le> k" if "n < 10 ^ k" "0 < k" for n k
    using that
  proof (induction k arbitrary: n)
    case (Suc k)
    show ?case
    proof (cases "n < 10")
      case False
      then have "0 < k" using Suc.prems by (cases k) auto
      then show ?thesis using False Suc.IH [of "n div 10"] Suc.prems
        by (subst dec_nat.simps) (simp add: less_mult_imp_div_less mult.commute)
    qed (subst dec_nat.simps, simp)
  qed simp
  from this [of "unat w" 20] show ?thesis
    using unsigned_less [of w, where 'a = nat] by simp
qed

lemma set_state_roundtrip [simp]: "set_state_from_string (Some (set_state_to_string s)) = s"
  by (cases s) (simp_all add: set_state_to_string_def set_state_from_string_def)

lemma disk_json_roundtrip: "disk_fits d \<Longrightarrow> disk_from_json (disk_to_json d) = d"
  using dec_nat_length_u64 [of "dk_capacity d"] unsigned_less [of "dk_capacity d", where 'a = nat]
  by (simp add: disk_fits_def disk_to_json_def disk_from_json_def json_simps strtoull_dec_nat)

lemma set_json_roundtrip:
  "in_i32 (st_idx s) \<Longrightarrow> \<forall>d\<in>set (st_disks s). disk_fits d \<Longrightarrow> set_from_json i (set_to_json s) = Some s"
  by (simp add: set_to_json_def set_from_json_def json_simps map_idI disk_json_roundtrip)

lemma sets_json_roundtrip:
  "\<forall>s\<in>set ss. in_i32 (st_idx s) \<and> (\<forall>d\<in>set (st_disks s). disk_fits d) \<Longrightarrow>
   sets_from_json i (map set_to_json ss) = Some ss"
  by (induction ss arbitrary: i) (simp_all add: set_json_roundtrip)

lemma pool_json_roundtrip:
  "in_i32 (pl_idx p) \<Longrightarrow> \<forall>s\<in>set (pl_sets p). in_i32 (st_idx s) \<and> (\<forall>d\<in>set (st_disks s). disk_fits d) \<Longrightarrow>
   pool_from_json i (pool_to_json p) = Some p"
  by (simp add: pool_to_json_def pool_from_json_def json_simps sets_json_roundtrip)

lemma pools_json_roundtrip:
  "\<forall>p\<in>set ps. in_i32 (pl_idx p) \<and>
     (\<forall>s\<in>set (pl_sets p). in_i32 (st_idx s) \<and> (\<forall>d\<in>set (st_disks s). disk_fits d)) \<Longrightarrow>
   pools_from_json i (map pool_to_json ps) = Some ps"
  by (induction ps arbitrary: i) (simp_all add: pool_json_roundtrip)

lemma topology_json_reread:
  "topology_fits t \<Longrightarrow>
   topology_from_json (topology_to_json t) = Some (t\<lparr>tp_generation := to_i32 (tp_generation t)\<rparr>)"
  by (simp add: topology_fits_def topology_to_json_def topology_from_json_def json_simps
      pools_json_roundtrip to_i32_range)

text \<open>C19: a topology whose strings fit their fields is read back from its JSON form
  exactly, except that the generation is reduced to 32 bits; generations below \<open>2 ^ 31\<close>
  therefore survive and larger ones do not.\<close>

theorem topology_json_roundtrip:
  assumes "topology_fits t"
  shows "topology_from_json (topology_to_json t) = Some (t\<lparr>tp_generation := to_i32 (tp_generation t)\<rparr>) \<and>
         (topology_from_json (topology_to_json t) = Some t \<longleftrightarrow> in_i32 (tp_generation t))"
proof -
  have "to_i32 (tp_generation t) = tp_generation t \<longleftrightarrow> in_i32 (tp_generation t)"
    using to_i32_range [of "tp_generation t"] by auto
  moreover have "t\<lparr>tp_generation := g\<rparr> = t \<longleftrightarrow> g = tp_generation t" for g
    by (cases t) auto
  ultimately show ?thesis using topology_json_reread [OF assms] by auto
qed

abbreviation topology_example :: buckets_cluster_topology where
  "topology_example \<equiv>
    \<lparr>tp_version = 1, tp_generation = 4294967301, tp_deployment_id = ''d-1'', tp_vnode_factor = 150,
     tp_pools = [\<lparr>pl_idx = 0, pl_sets =
       [\<lparr>st_idx = 0, st_state = SET_STATE_DRAINING,
         st_disks = [\<lparr>dk_endpoint = ''http://n1:9000/d1'', dk_uuid = ''u1'', dk_capacity = 42\<rparr>]\<rparr>]\<rparr>]\<rparr>"

theorem topology_json_roundtrip_witness:
  "topology_fits topology_example \<and>
   topology_from_json (topology_to_json topology_example) = Some (topology_example\<lparr>tp_generation := 5\<rparr>) \<and>
   topology_from_json (topology_to_json topology_example) \<noteq> Some topology_example"
proof -
  have "topology_fits topology_example"
    by (simp add: topology_fits_def disk_fits_def in_i32_def)
  then show ?thesis
    using topology_json_roundtrip [of topology_example] by (simp add: in_i32_def to_i32_def)
qed

section \<open>Changes keep the indices and count themselves\<close>

definition sets_indexed :: "buckets_set_topology list \<Rightarrow> bool" where
  "sets_indexed ss \<longleftrightarrow> (\<forall>j<length ss. st_idx (ss ! j) = int j)"

definition topology_wf :: "buckets_cluster_topology \<Rightarrow> bool" where
  "topology_wf t \<longleftrightarrow>
     (\<forall>i<length (tp_pools t). pl_idx (tp_pools t ! i) = int i \<and> sets_indexed (pl_sets (tp_pools t ! i)))"

datatype topology_op =
    Add_Pool
  | Add_Set int "buckets_disk_info list option"
  | Mark_Draining int int
  | Mark_Removed int int

fun topology_apply :: "topology_op \<Rightarrow> buckets_cluster_topology \<Rightarrow> buckets_error \<times> buckets_cluster_topology" where
  "topology_apply Add_Pool t = buckets_topology_add_pool t"
| "topology_apply (Add_Set p ds) t = buckets_topology_add_set t p ds"
| "topology_apply (Mark_Draining p s) t = buckets_topology_mark_set_draining t p s"
| "topology_apply (Mark_Removed p s) t = buckets_topology_mark_set_removed t p s"

lemma topology_new_wf [wf_intros]: "topology_wf buckets_topology_new"
  by (simp add: topology_wf_def buckets_topology_new_def)

lemma topology_from_format_wf [wf_intros]:
  "buckets_topology_from_format f = Some t \<Longrightarrow> topology_wf t"
  by (auto simp: topology_wf_def buckets_topology_from_format_def buckets_topology_new_def
      sets_indexed_def nth_enumerate_eq split: option.splits)

lemma topology_add_pool_wf: "topology_wf t \<Longrightarrow> topology_wf (snd (buckets_topology_add_pool t))"
  by (auto simp: topology_wf_def buckets_topology_add_pool_def sets_indexed_def nth_append less_Suc_eq)

lemma sets_indexed_append [simp]:
  "sets_indexed (ss @ [s]) \<longleftrightarrow> sets_indexed ss \<and> st_idx s = int (length ss)"
  by (auto simp: sets_indexed_def nth_append less_Suc_eq)

lemma sets_indexed_update [simp]:
  "sets_indexed ss \<Longrightarrow> st_idx s = st_idx (ss ! j) \<Longrightarrow> sets_indexed (ss[j := s])"
  by (cases "j < length ss") (auto simp: sets_indexed_def nth_list_update)

lemma topology_wf_update:
  "topology_wf t \<Longrightarrow> pl_idx p = pl_idx (tp_pools t ! i) \<Longrightarrow> sets_indexed (pl_sets p) \<Longrightarrow>
   topology_wf (t\<lparr>tp_pools := (tp_pools t)[i := p], tp_generation := g\<rparr>)"
  by (cases "i < length (tp_pools t)") (auto simp: topology_wf_def nth_list_update)

lemma topology_wf_pool:
  "topology_wf t \<Longrightarrow> i < length (tp_pools t) \<Longrightarrow> sets_indexed (pl_sets (tp_pools t ! i))"
  by (simp add: topology_wf_def)

lemma topology_add_set_wf: "topology_wf t \<Longrightarrow> topology_wf (snd (buckets_topology_add_set t p ds))"
  by (auto simp: buckets_topology_add_set_def Let_def topology_wf_pool intro!: topology_wf_update
      split: option.split)

lemma topology_set_state_wf: "topology_wf t \<Longrightarrow> topology_wf (snd (buckets_topology_set_state t p s st))"
  by (auto simp: buckets_topology_set_state_def Let_def topology_wf_pool intro!: topology_wf_update)

lemma topology_apply_wf [wf_intros]: "topology_wf t \<Longrightarrow> topology_wf (snd (topology_apply op t))"
  by (cases op) (simp_all add: topology_add_pool_wf topology_add_set_wf topology_set_state_wf
      buckets_topology_mark_set_draining_def buckets_topology_mark_set_removed_def)

text \<open>What a topology says, abstractly: the number of pools, and for the sets that exist their state
  and disks.  An operation is accepted if what it names exists; it then has one effect.\<close>

type_synonym topology_view = "nat \<times> (nat \<times> nat \<Rightarrow> (buckets_set_state \<times> buckets_disk_info list) option)"

definition view_sets :: "buckets_cluster_topology \<Rightarrow> nat \<times> nat \<Rightarrow> (buckets_set_state \<times> buckets_disk_info list) option" where
  "view_sets t = (\<lambda>(p, s). if p < length (tp_pools t) \<and> s < length (pl_sets (tp_pools t ! p))
     then let st = pl_sets (tp_pools t ! p) ! s in Some (st_state st, st_disks st) else None)"

definition topology_view :: "buckets_cluster_topology \<Rightarrow> topology_view" where
  "topology_view t = (length (tp_pools t), view_sets t)"

definition names_set :: "buckets_cluster_topology \<Rightarrow> int \<Rightarrow> int \<Rightarrow> bool" where
  "names_set t p s \<longleftrightarrow> 0 \<le> p \<and> 0 \<le> s \<and> view_sets t (nat p, nat s) \<noteq> None"

fun op_accepted :: "topology_op \<Rightarrow> buckets_cluster_topology \<Rightarrow> bool" where
  "op_accepted Add_Pool t \<longleftrightarrow> True"
| "op_accepted (Add_Set p ds) t \<longleftrightarrow> 0 \<le> p \<and> nat p < length (tp_pools t) \<and> ds \<notin> {None, Some []}"
| "op_accepted (Mark_Draining p s) t \<longleftrightarrow> names_set t p s"
| "op_accepted (Mark_Removed p s) t \<longleftrightarrow> names_set t p s"

definition view_state :: "topology_view \<Rightarrow> int \<Rightarrow> int \<Rightarrow> buckets_set_state \<Rightarrow> topology_view" where
  "view_state v p s state = (fst v, (snd v)((nat p, nat s) \<mapsto> (state, snd (the (snd v (nat p, nat s))))))"

fun op_effect :: "topology_op \<Rightarrow> buckets_cluster_topology \<Rightarrow> topology_view" where
  "op_effect Add_Pool t = (length (tp_pools t) + 1, view_sets t)"
| "op_effect (Add_Set p ds) t =
     (length (tp_pools t), (view_sets t)((nat p, length (pl_sets (tp_pools t ! nat p))) \<mapsto> (SET_STATE_ACTIVE, the ds)))"
| "op_effect (Mark_Draining p s) t = view_state (topology_view t) p s SET_STATE_DRAINING"
| "op_effect (Mark_Removed p s) t = view_state (topology_view t) p s SET_STATE_REMOVED"

lemma names_set_iff:
  "names_set t p s \<longleftrightarrow>
     0 \<le> p \<and> p < int (length (tp_pools t)) \<and> 0 \<le> s \<and> s < int (length (pl_sets (tp_pools t ! nat p)))"
  by (auto simp: names_set_def view_sets_def Let_def nat_less_iff)

lemma set_state_effect:
  assumes "buckets_topology_set_state t p s state = (r, t')"
  shows "if names_set t p s
         then r = BUCKETS_OK \<and> topology_view t' = view_state (topology_view t) p s state \<and>
              tp_generation t' = tp_generation t + (if topology_view t' = topology_view t then 0 else 1)
         else r = BUCKETS_ERR_INVALID_ARG \<and> t' = t"
proof (cases "names_set t p s")
  case True
  let ?st = "pl_sets (tp_pools t ! nat p) ! nat s"
  have v: "view_sets t (nat p, nat s) = Some (st_state ?st, st_disks ?st)"
    using True by (auto simp: names_set_def view_sets_def Let_def split: if_splits)
  show ?thesis
  proof (cases "st_state ?st = state")
    case same: True
    then have "r = BUCKETS_OK" "t' = t"
      using assms True by (auto simp: names_set_iff buckets_topology_set_state_def Let_def)
    moreover have "view_state (topology_view t) p s state = topology_view t"
      using v same by (simp add: view_state_def topology_view_def map_upd_triv)
    ultimately show ?thesis using True by simp
  next
    case False
    then have t': "r = BUCKETS_OK" "t' = t\<lparr>tp_pools := (tp_pools t)[nat p :=
        (tp_pools t ! nat p)\<lparr>pl_sets := (pl_sets (tp_pools t ! nat p))[nat s := ?st\<lparr>st_state := state\<rparr>]\<rparr>],
        tp_generation := tp_generation t + 1\<rparr>"
      using assms True by (auto simp: names_set_iff buckets_topology_set_state_def Let_def)
    have "view_sets t' = (view_sets t)((nat p, nat s) \<mapsto> (state, st_disks ?st))"
      using True by (auto simp: t'(2) names_set_iff view_sets_def Let_def nth_list_update nat_less_iff fun_eq_iff)
    moreover from this have "view_sets t' \<noteq> view_sets t" using v False by (metis fst_conv fun_upd_same option.inject)
    ultimately show ?thesis using True t' v by (simp add: view_state_def topology_view_def)
  qed
qed (use assms in \<open>auto simp: names_set_iff buckets_topology_set_state_def Let_def split: if_splits\<close>)

lemma add_set_effect:
  assumes "buckets_topology_add_set t p ds = (r, t')"
  shows "if op_accepted (Add_Set p ds) t
         then r = BUCKETS_OK \<and> topology_view t' = op_effect (Add_Set p ds) t \<and>
              tp_generation t' = tp_generation t + (if topology_view t' = topology_view t then 0 else 1)
         else r = BUCKETS_ERR_INVALID_ARG \<and> t' = t"
proof (cases "op_accepted (Add_Set p ds) t")
  case True
  then obtain d where d: "ds = Some d" "d \<noteq> []" by (cases ds) auto
  let ?pool = "tp_pools t ! nat p"
  have t': "r = BUCKETS_OK" "t' = t\<lparr>tp_pools := (tp_pools t)[nat p := ?pool\<lparr>pl_sets := pl_sets ?pool @
      [\<lparr>st_idx = int (length (pl_sets ?pool)), st_state = SET_STATE_ACTIVE, st_disks = d\<rparr>]\<rparr>], tp_generation := tp_generation t + 1\<rparr>"
    using assms True d by (auto simp: buckets_topology_add_set_def Let_def nat_less_iff split: if_splits)
  have "view_sets t' = (view_sets t)((nat p, length (pl_sets ?pool)) \<mapsto> (SET_STATE_ACTIVE, d))"
    using True by (auto simp: t'(2) view_sets_def Let_def nth_list_update nth_append fun_eq_iff)
  moreover have "view_sets t (nat p, length (pl_sets ?pool)) = None" by (simp add: view_sets_def)
  ultimately have "view_sets t' \<noteq> view_sets t" by (metis fun_upd_same option.distinct(1))
  then show ?thesis using True t' d \<open>view_sets t' = _\<close> by (simp add: topology_view_def)
qed (use assms in \<open>auto simp: buckets_topology_add_set_def Let_def nat_less_iff split: option.splits if_splits\<close>)

lemma add_pool_effect:
  "topology_view (snd (buckets_topology_add_pool t)) = op_effect Add_Pool t"
  by (auto simp: buckets_topology_add_pool_def topology_view_def view_sets_def nth_append fun_eq_iff)

text \<open>C20: every change of a topology keeps pool and set indices equal to their positions.  It is
  accepted exactly if the pool or set it names exists, and a set that is added has disks; it then
  has its effect - a new empty pool, a new active set at the end of the pool, the new state of the
  set - and no other on pools and sets, and otherwise it reports an error and changes nothing.
  The generation advances by one if the topology changes, and not at all for a set that has the
  wanted state already, which is reported as success.\<close>

theorem topology_changes:
  assumes "topology_wf t" "topology_apply op t = (r, t')"
  shows "topology_wf t' \<and>
         (if op_accepted op t then r = BUCKETS_OK \<and> topology_view t' = op_effect op t
          else r = BUCKETS_ERR_INVALID_ARG \<and> t' = t) \<and>
         tp_generation t' = tp_generation t + (if topology_view t' = topology_view t then 0 else 1)"
proof -
  have "topology_wf t'" using topology_apply_wf [OF assms(1), of op] assms(2) by simp
  moreover have e: "if op_accepted op t
    then r = BUCKETS_OK \<and> topology_view t' = op_effect op t \<and>
         tp_generation t' = tp_generation t + (if topology_view t' = topology_view t then 0 else 1)
    else r = BUCKETS_ERR_INVALID_ARG \<and> t' = t"
  proof (cases op)
    case Add_Pool
    then have "t' = snd (buckets_topology_add_pool t)" "r = BUCKETS_OK" "tp_generation t' = tp_generation t + 1"
      using assms(2) by (auto simp: buckets_topology_add_pool_def)
    moreover from this have "topology_view t' \<noteq> topology_view t" using add_pool_effect [of t] by (simp add: topology_view_def)
    ultimately show ?thesis using Add_Pool add_pool_effect [of t] by simp
  next
    case (Add_Set p ds)
    then show ?thesis using add_set_effect [of t p ds r t'] assms(2) by auto
  next
    case (Mark_Draining p s)
    then show ?thesis using set_state_effect [of t p s SET_STATE_DRAINING r t'] assms(2)
      by (simp add: buckets_topology_mark_set_draining_def)
  next
    case (Mark_Removed p s)
    then show ?thesis using set_state_effect [of t p s SET_STATE_REMOVED r t'] assms(2)
      by (simp add: buckets_topology_mark_set_removed_def)
  qed
  ultimately show ?thesis by (auto split: if_splits)
qed

theorem topology_changes_witness:
  "topology_wf topology_example \<and>
   topology_wf (snd (topology_apply (Mark_Removed 0 0) topology_example)) \<and>
   fst (topology_apply (Mark_Removed 0 0) topology_example) = BUCKETS_OK \<and>
   tp_generation (snd (topology_apply (Mark_Removed 0 0) topology_example)) = 4294967302"
proof -
  obtain r t' where a: "topology_apply (Mark_Removed 0 0) topology_example = (r, t')" by fastforce
  have wf: "topology_wf topology_example" by (simp add: topology_wf_def sets_indexed_def)
  have ok: "op_accepted (Mark_Removed 0 0) topology_example" by (simp add: names_set_iff)
  note c = topology_changes [OF wf a]
  have "topology_view t' = view_state (topology_view topology_example) 0 0 SET_STATE_REMOVED"
    using c ok by (simp only: if_True op_effect.simps)
  then have "\<exists>d. snd (topology_view t') (0, 0) = Some (SET_STATE_REMOVED, d)" by (simp add: view_state_def)
  moreover have "snd (topology_view topology_example) (0, 0) \<noteq> Some (SET_STATE_REMOVED, d)" for d
    by (simp add: topology_view_def view_sets_def)
  ultimately have "topology_view t' \<noteq> topology_view topology_example" by metis
  then show ?thesis using c ok wf a by simp
qed

section \<open>Counting votes\<close>

fun vote_count :: "vote list \<Rightarrow> u64 \<Rightarrow> nat" where
  "vote_count [] h = 0"
| "vote_count ((h', t, c) # votes) h = (if h' = h then c else vote_count votes h)"

text \<open>The votes that a list of topologies has cast.\<close>

definition votes_for :: "(buckets_cluster_topology \<Rightarrow> u64) \<Rightarrow> buckets_cluster_topology list \<Rightarrow> vote list \<Rightarrow> bool" where
  "votes_for H seen votes \<longleftrightarrow>
     (\<forall>h. vote_count votes h = length (filter (\<lambda>t. H t = h) seen)) \<and>
     (\<forall>(h, t, c)\<in>set votes. t \<in> set seen \<and> H t = h)"

lemma cast_vote_count:
  "cast_vote votes hash topo = (votes', w, c) \<Longrightarrow>
   c = vote_count votes hash + 1 \<and>
   (\<forall>h. vote_count votes' h = (if h = hash then c else vote_count votes h))"
  by (induction votes hash topo arbitrary: votes' w c rule: cast_vote.induct)
    (auto split: if_splits prod.splits)

lemma cast_vote_entries:
  "cast_vote votes hash topo = (votes', w, c) \<Longrightarrow>
   (w = topo \<or> (\<exists>c'. (hash, w, c') \<in> set votes)) \<and>
   (\<forall>(h, t, n)\<in>set votes'. h = hash \<and> t = topo \<or> (\<exists>n'. (h, t, n') \<in> set votes))"
  by (induction votes hash topo arbitrary: votes' w c rule: cast_vote.induct)
    (fastforce split: if_splits prod.splits)+

lemma cast_vote_for:
  assumes "votes_for H seen votes" "cast_vote votes (H topo) topo = (votes', w, c)"
  shows "votes_for H (seen @ [topo]) votes'" "w \<in> set (seen @ [topo])" "H w = H topo"
    "c = length (filter (\<lambda>t. H t = H topo) (seen @ [topo]))"
proof -
  note cnt = cast_vote_count [OF assms(2)] and ent = cast_vote_entries [OF assms(2)]
  show "c = length (filter (\<lambda>t. H t = H topo) (seen @ [topo]))"
    using cnt assms(1) by (simp add: votes_for_def)
  show "w \<in> set (seen @ [topo])" "H w = H topo"
    using ent assms(1) by (auto simp: votes_for_def)
  show "votes_for H (seen @ [topo]) votes'"
    unfolding votes_for_def
  proof (intro conjI allI)
    fix h show "vote_count votes' h = length (filter (\<lambda>t. H t = h) (seen @ [topo]))"
      using cnt assms(1) by (simp add: votes_for_def)
  next
    show "\<forall>(h, t, c)\<in>set votes'. t \<in> set (seen @ [topo]) \<and> H t = h"
      using ent assms(1) by (fastforce simp: votes_for_def)
  qed
qed

text \<open>The topologies that the disks yield, in order.\<close>

abbreviation loaded :: "(string \<Rightarrow> buckets_cluster_topology option) \<Rightarrow> string option list \<Rightarrow> buckets_cluster_topology list" where
  "loaded load ds \<equiv> List.map_filter (\<lambda>d. Option.bind d load) ds"

lemma load_votes_sound:
  assumes "votes_for H seen votes" "load_votes H load q votes ds = Some w"
  shows "w \<in> set (seen @ loaded load ds) \<and>
         q \<le> length (filter (\<lambda>t. H t = H w) (seen @ loaded load ds))"
  using assms
proof (induction H load q votes ds arbitrary: seen rule: load_votes.induct)
  case (3 H load q votes d ds)
  show ?case
  proof (cases "load d")
    case None
    then show ?thesis using 3 by (simp add: map_filter_simps)
  next
    case (Some topo)
    obtain votes' u c where c: "cast_vote votes (H topo) topo = (votes', u, c)"
      by (cases "cast_vote votes (H topo) topo") auto
    note f = cast_vote_for [OF "3.prems"(1) c]
    show ?thesis
    proof (cases "q \<le> c")
      case True
      then have "w = u" using "3.prems"(2) Some c by simp
      then show ?thesis using f True Some by (auto simp: map_filter_simps)
    next
      case False
      then have "load_votes H load q votes' ds = Some w" using "3.prems"(2) Some c by simp
      from 3(2) [OF Some c [symmetric] refl refl False f(1) this] show ?thesis
        using Some by (simp add: map_filter_simps)
    qed
  qed
qed (simp_all add: map_filter_simps)

lemma load_votes_complete:
  assumes "votes_for H seen votes" "\<forall>h. length (filter (\<lambda>t. H t = h) seen) < q"
    "q \<le> length (filter (\<lambda>t. H t = h) (seen @ loaded load ds))"
  shows "load_votes H load q votes ds \<noteq> None"
  using assms
proof (induction H load q votes ds arbitrary: seen rule: load_votes.induct)
  case (1 H load q votes)
  then show ?case by (simp add: map_filter_simps not_le [symmetric])
next
  case (3 H load q votes d ds)
  show ?case
  proof (cases "load d")
    case None
    then show ?thesis using 3 by (simp add: map_filter_simps)
  next
    case (Some topo)
    obtain votes' u c where c: "cast_vote votes (H topo) topo = (votes', u, c)"
      by (cases "cast_vote votes (H topo) topo") auto
    note f = cast_vote_for [OF "3.prems"(1) c]
    show ?thesis
    proof (cases "q \<le> c")
      case True
      then show ?thesis using Some c by simp
    next
      case False
      have "\<forall>h. length (filter (\<lambda>t. H t = h) (seen @ [topo])) < q"
        using "3.prems"(2) f(4) False by auto
      moreover have "q \<le> length (filter (\<lambda>t. H t = h) ((seen @ [topo]) @ loaded load ds))"
        using "3.prems"(3) Some by (simp add: map_filter_simps)
      ultimately show ?thesis
        using 3(2) [OF Some c [symmetric] refl refl False f(1)] False Some c by simp
    qed
  qed
qed (simp_all add: map_filter_simps)

lemma load_quorum_votes:
  assumes "ds \<noteq> []"
  shows "buckets_topology_load_quorum pu parse rd fs ds =
         load_votes (topology_hash pu) (buckets_topology_load parse rd fs)
           (if 1 < length ds then length ds div 2 else 1) [] ds"
  using assms by (simp add: buckets_topology_load_quorum_def Let_def)

lemma votes_for_Nil [simp]: "votes_for H [] []"
  by (simp add: votes_for_def)

section \<open>What a quorum write leaves behind\<close>

lemma atomic_write_result_fst: "fst (atomic_write_result env fs p data) = fst (atomic_write_result env fs' p data)"
  by (simp add: atomic_write_result_def buckets_atomic_write_def Let_def)

text \<open>The disks on which the write succeeds; it does not depend on the files.\<close>

definition write_ok :: "(json \<Rightarrow> string) \<Rightarrow> (string \<Rightarrow> io_env) \<Rightarrow> buckets_cluster_topology \<Rightarrow> string \<Rightarrow> bool" where
  "write_ok pr env t d \<longleftrightarrow> fst (buckets_topology_save pr env (\<lambda>_. None) d t) = BUCKETS_OK"

lemma save_fst: "fst (buckets_topology_save pr env fs d t) = BUCKETS_OK \<longleftrightarrow> write_ok pr env t d"
  using atomic_write_result_fst by (simp add: write_ok_def buckets_topology_save_def buckets_json_save_def) metis

lemma save_stored:
  "write_ok pr env t d \<Longrightarrow>
   snd (buckets_topology_save pr env fs d t) (buckets_get_topology_path d) = Some (pr (topology_to_json t))"
  using atomic_write_ok(1) [of "env d" fs "buckets_get_topology_path d" "pr (topology_to_json t)"]
    save_fst [of pr env fs d t]
  by (cases "atomic_write_result (env d) fs (buckets_get_topology_path d) (pr (topology_to_json t))")
    (simp add: buckets_topology_save_def buckets_json_save_def)

lemma save_other:
  "strip_slash d' \<noteq> strip_slash d \<Longrightarrow>
   snd (buckets_topology_save pr env fs d t) (buckets_get_topology_path d') = fs (buckets_get_topology_path d')"
  using temp_path_not_topology [of "env d" "buckets_get_topology_path d" d', THEN not_sym]
  by (simp add: buckets_topology_save_def buckets_json_save_def atomic_write_frame)

lemma save_all_spec:
  assumes "distinct (map strip_slash ps)"
  shows "fst (save_all pr env t fs (map Some ps)) = length (filter (write_ok pr env t) ps) \<and>
         (\<forall>d. strip_slash d \<notin> strip_slash ` set ps \<longrightarrow>
            snd (save_all pr env t fs (map Some ps)) (buckets_get_topology_path d) = fs (buckets_get_topology_path d)) \<and>
         (\<forall>d\<in>set ps. write_ok pr env t d \<longrightarrow>
            snd (save_all pr env t fs (map Some ps)) (buckets_get_topology_path d) = Some (pr (topology_to_json t)))"
  using assms
proof (induction ps arbitrary: fs)
  case (Cons p ps)
  let ?fs = "snd (buckets_topology_save pr env fs p t)"
  have IH: "fst (save_all pr env t ?fs (map Some ps)) = length (filter (write_ok pr env t) ps)"
    "\<And>d. strip_slash d \<notin> strip_slash ` set ps \<Longrightarrow>
       snd (save_all pr env t ?fs (map Some ps)) (buckets_get_topology_path d) = ?fs (buckets_get_topology_path d)"
    "\<And>d. d \<in> set ps \<Longrightarrow> write_ok pr env t d \<Longrightarrow>
       snd (save_all pr env t ?fs (map Some ps)) (buckets_get_topology_path d) = Some (pr (topology_to_json t))"
    using Cons by auto
  have "strip_slash p \<notin> strip_slash ` set ps" using Cons.prems by auto
  then show ?case
    using IH save_stored [of pr env t p fs] save_other [of _ p pr env fs t] save_fst [of pr env fs p t]
    by (auto simp: split_def Let_def)
qed simp

lemma loaded_map_Some: "loaded load (map Some ps) = List.map_filter load ps"
  by (induction ps) (simp_all add: map_filter_simps split: option.split)

lemma map_filter_filter_length:
  "length (filter P (List.map_filter f ps)) = length (filter (\<lambda>d. \<exists>t. f d = Some t \<and> P t) ps)"
  by (induction ps) (auto simp: map_filter_simps split: option.split)

lemma load_written:
  assumes "fs (buckets_get_topology_path d) = Some (pr (topology_to_json t))"
    and "parse (pr (topology_to_json t)) = Some (topology_to_json t)"
    and "topology_fits t" "in_i32 (tp_generation t)"
  shows "buckets_topology_load parse rd fs d = (if rd (buckets_get_topology_path d) then Some t else None)"
  using assms topology_json_reread [OF assms(3)]
  by (simp add: buckets_topology_load_def buckets_json_load_def buckets_atomic_read_def)

text \<open>With an even number of disks, a quorum read after a successful quorum write
  returns nothing but what was written, whichever disks have become unreadable, and it
  does return it when the written disks can be read.  The content hash is assumed not to
  confuse the new topology with another one on the disks, and the JSON text of the new
  topology to parse back to its tree.\<close>

lemma quorum_read_after_write:
  assumes "even (length ps)" "distinct (map strip_slash ps)"
    and "buckets_topology_save_quorum pr env fs (map Some ps) t = (BUCKETS_OK, fs')"
    and json_text_roundtrip: "parse (pr (topology_to_json t)) = Some (topology_to_json t)"
    and "topology_fits t" "in_i32 (tp_generation t)"
    and no_collision: "\<forall>d\<in>set ps. \<forall>u. buckets_topology_load parse rd fs' d = Some u \<longrightarrow>
           topology_hash pu u = topology_hash pu t \<longrightarrow> u = t"
  shows "(\<forall>u. buckets_topology_load_quorum pu parse rd fs' (map Some ps) = Some u \<longrightarrow> u = t) \<and>
         ((\<forall>d\<in>set ps. rd (buckets_get_topology_path d)) \<longrightarrow>
          buckets_topology_load_quorum pu parse rd fs' (map Some ps) = Some t)"
proof -
  let ?H = "topology_hash pu" and ?L = "buckets_topology_load parse rd fs'"
  let ?W = "write_ok pr env t"
  have ne: "ps \<noteq> []" and big: "length ps div 2 + 1 \<le> length (filter ?W ps)"
    and fs': "fs' = snd (save_all pr env t fs (map Some ps))"
    using assms(3) save_all_spec [OF assms(2), of pr env t fs]
    by (auto simp: buckets_topology_save_quorum_def Let_def split_def split: if_splits)
  have "2 \<le> length ps" using ne assms(1) by (cases ps; cases "tl ps") auto
  then have lq: "buckets_topology_load_quorum pu parse rd fs' (map Some ps) =
      load_votes ?H ?L (length ps div 2) [] (map Some ps)"
    using ne load_quorum_votes [of "map Some ps" pu parse rd fs'] by simp
  have W: "?L d = (if rd (buckets_get_topology_path d) then Some t else None)"
    if "d \<in> set ps" "?W d" for d
    using save_all_spec [OF assms(2), of pr env t fs] that
      load_written [of fs' d pr t parse rd] json_text_roundtrip assms(5,6) by (simp add: fs')
  have split: "length (filter ?W ps) + length (filter (\<lambda>d. \<not> ?W d) ps) = length ps"
    by (rule sum_length_filter_compl)
  have "u = t" if u: "buckets_topology_load_quorum pu parse rd fs' (map Some ps) = Some u" for u
  proof (rule ccontr)
    assume ut: "u \<noteq> t"
    have s: "u \<in> set (List.map_filter ?L ps)"
      "length ps div 2 \<le> length (filter (\<lambda>d. \<exists>v. ?L d = Some v \<and> ?H v = ?H u) ps)"
      using load_votes_sound [OF votes_for_Nil, of ?H ?L "length ps div 2" "map Some ps" u] u lq
      by (simp_all add: loaded_map_Some map_filter_filter_length)
    obtain d where "d \<in> set ps" "?L d = Some u"
      using s(1) by (auto simp: List.map_filter_def)
    then have "?H u \<noteq> ?H t" using no_collision ut by blast
    then have "length (filter (\<lambda>d. \<exists>v. ?L d = Some v \<and> ?H v = ?H u) ps) \<le> length (filter (\<lambda>d. \<not> ?W d) ps)"
      using W by (intro length_filter_mono) (auto split: if_splits)
    moreover obtain m where "length ps = 2 * m" using assms(1) by (rule evenE)
    ultimately show False
      using s(2) split big by simp
  qed
  moreover have "buckets_topology_load_quorum pu parse rd fs' (map Some ps) \<noteq> None"
    if "\<forall>d\<in>set ps. rd (buckets_get_topology_path d)"
  proof -
    have "length (filter ?W ps) \<le> length (filter (\<lambda>d. \<exists>v. ?L d = Some v \<and> ?H v = ?H t) ps)"
      using W that by (intro length_filter_mono) auto
    then show ?thesis
      using load_votes_complete [OF votes_for_Nil, of ?H "length ps div 2" "?H t" ?L "map Some ps"]
        big lq \<open>2 \<le> length ps\<close>
      by (simp add: loaded_map_Some map_filter_filter_length)
  qed
  ultimately show ?thesis by blast
qed

text \<open>The first disks decide: \<open>q\<close> of them that agree end the read.\<close>

lemma load_votes_prefix:
  assumes "\<forall>d\<in>set ps. load d = Some t" "k < q" "q \<le> k + length ps"
  shows "load_votes H load q (if k = 0 then [] else [(H t, t, k)]) (map Some ps @ ds) = Some t"
  using assms
proof (induction ps arbitrary: k)
  case (Cons p ps)
  show ?case
  proof (cases "q \<le> k + 1")
    case True
    then show ?thesis using Cons.prems by simp
  next
    case False
    then show ?thesis using Cons.IH [of "k + 1"] Cons.prems by (cases "k = 0") simp_all
  qed
qed simp

lemma save_blocked:
  "\<not> io_fopen (env d) \<Longrightarrow> io_mkdir (env d) = BUCKETS_OK \<Longrightarrow>
   snd (buckets_topology_save pr env fs d t) = fs \<and> \<not> write_ok pr env t d"
  by (simp add: write_ok_def buckets_topology_save_def buckets_json_save_def atomic_write_result_def
      buckets_atomic_write_def)

lemma save_all_append:
  "save_all pr env t fs (ds @ es) =
    (let (m, fs) = save_all pr env t fs ds; (n, fs) = save_all pr env t fs es in (m + n, fs))"
proof (induction ds arbitrary: fs)
  case (Cons d ds)
  then show ?case by (cases d) (simp_all add: Let_def split_def)
qed simp

lemma save_all_blocked:
  "\<forall>d\<in>set ps. \<not> io_fopen (env d) \<and> io_mkdir (env d) = BUCKETS_OK \<Longrightarrow>
   save_all pr env t fs (map Some ps) = (0, fs)"
proof (induction ps)
  case (Cons p ps)
  then have "snd (buckets_topology_save pr env fs p t) = fs" "fst (buckets_topology_save pr env fs p t) \<noteq> BUCKETS_OK"
    using save_blocked [of env p pr fs t] save_fst [of pr env fs p t] by auto
  with Cons show ?case by (simp add: Let_def split_def)
qed simp

lemma save_all_ok:
  assumes "distinct (map strip_slash ps)" "\<forall>d\<in>set ps. write_ok pr env t d"
  shows "fst (save_all pr env t fs (map Some ps)) = length ps"
  using save_all_spec [OF assms(1), of pr env t fs] assms(2) by (simp add: filter_id_conv [THEN iffD2])

text \<open>C21: with an odd number of disks, at least three, a successful quorum write can be
  followed by a quorum read that returns the old topology.  It suffices that the first half of
  the disks, rounded down, refuse the write and still hold the old topology: those are enough
  votes for the reader, and it asks them first.\<close>

theorem quorum_stale_read:
  assumes "length ps1 = m" "length ps2 = m + 1" "1 \<le> m" "distinct (map strip_slash (ps1 @ ps2))"
    and "\<forall>d\<in>set ps1. \<not> io_fopen (env d) \<and> io_mkdir (env d) = BUCKETS_OK"
    and "\<forall>d\<in>set ps2. write_ok pr env t d"
    and "\<forall>d\<in>set ps1. buckets_topology_load parse rd fs d = Some old"
  shows "\<exists>fs'. buckets_topology_save_quorum pr env fs (map Some (ps1 @ ps2)) t = (BUCKETS_OK, fs') \<and>
           buckets_topology_load_quorum pu parse rd fs' (map Some (ps1 @ ps2)) = Some old"
proof -
  let ?fs = "snd (save_all pr env t fs (map Some ps2))"
  have d2: "distinct (map strip_slash ps2)" using assms(4) by simp
  have "save_all pr env t fs (map Some (ps1 @ ps2)) = (m + 1, ?fs)"
    using save_all_blocked [OF assms(5), of pr t fs] save_all_ok [OF d2 assms(6), of fs] assms(2)
    by (simp add: save_all_append split_def prod_eq_iff)
  then have s: "buckets_topology_save_quorum pr env fs (map Some (ps1 @ ps2)) t = (BUCKETS_OK, ?fs)"
    using assms(1,2) by (auto simp: buckets_topology_save_quorum_def)
  have "?fs (buckets_get_topology_path d) = fs (buckets_get_topology_path d)" if "d \<in> set ps1" for d
  proof -
    have "strip_slash d \<notin> strip_slash ` set ps2" using assms(4) that by auto
    then show ?thesis using save_all_spec [OF d2, of pr env t fs] by blast
  qed
  then have "\<forall>d\<in>set ps1. buckets_topology_load parse rd ?fs d = Some old"
    using assms(7)
    by (simp add: buckets_topology_load_def buckets_json_load_def buckets_atomic_read_def)
  then have "buckets_topology_load_quorum pu parse rd ?fs (map Some (ps1 @ ps2)) = Some old"
    using load_votes_prefix [of ps1 "buckets_topology_load parse rd ?fs" old 0 m _ "map Some ps2"] assms(1-3)
      load_quorum_votes [of "map Some (ps1 @ ps2)" pu parse rd ?fs]
    by (cases ps1) auto
  with s show ?thesis by blast
qed

text \<open>C22: with an even number of disks, a write that is reported as failed can be what
  the next quorum read returns.  If exactly the first half of the disks take the write, it
  misses its quorum, but it is enough for the reader.\<close>

theorem quorum_failed_write_visible:
  assumes "length ps1 = m" "length ps2 = m" "1 \<le> m" "distinct (map strip_slash (ps1 @ ps2))"
    and "\<forall>d\<in>set ps1. write_ok pr env t d \<and> rd (buckets_get_topology_path d)"
    and "\<forall>d\<in>set ps2. \<not> io_fopen (env d) \<and> io_mkdir (env d) = BUCKETS_OK"
    and "parse (pr (topology_to_json t)) = Some (topology_to_json t)"
    and "topology_fits t" "in_i32 (tp_generation t)"
  shows "\<exists>fs'. buckets_topology_save_quorum pr env fs (map Some (ps1 @ ps2)) t = (BUCKETS_ERR_QUORUM, fs') \<and>
           buckets_topology_load_quorum pu parse rd fs' (map Some (ps1 @ ps2)) = Some t"
proof -
  let ?fs = "snd (save_all pr env t fs (map Some ps1))"
  have d1: "distinct (map strip_slash ps1)" using assms(4) by simp
  have "save_all pr env t fs (map Some (ps1 @ ps2)) = (m, ?fs)"
    using save_all_blocked [OF assms(6), of pr t] save_all_ok [OF d1, of pr env t fs] assms(1,5)
    by (simp add: save_all_append split_def prod_eq_iff)
  then have s: "buckets_topology_save_quorum pr env fs (map Some (ps1 @ ps2)) t = (BUCKETS_ERR_QUORUM, ?fs)"
    using assms(1-3) by (auto simp: buckets_topology_save_quorum_def)
  have "\<forall>d\<in>set ps1. buckets_topology_load parse rd ?fs d = Some t"
    using save_all_spec [OF d1, of pr env t fs] assms(5)
      load_written [of ?fs _ pr t parse rd, OF _ assms(7-9)] by simp
  then have "buckets_topology_load_quorum pu parse rd ?fs (map Some (ps1 @ ps2)) = Some t"
    using load_votes_prefix [of ps1 "buckets_topology_load parse rd ?fs" t 0 m _ "map Some ps2"] assms(1-3)
      load_quorum_votes [of "map Some (ps1 @ ps2)" pu parse rd ?fs]
    by (cases ps1) auto
  with s show ?thesis by blast
qed

section \<open>Endpoints\<close>

text \<open>The endpoints of all configured disks, node by node.\<close>

definition config_endpoints :: "buckets_cluster_node list \<Rightarrow> string list" where
  "config_endpoints nodes = concat (map (\<lambda>n. map (\<lambda>d. cn_endpoint n @ d) (cn_disks n)) nodes)"

lemma owner_node_Some:
  "i < length (config_endpoints nodes) \<Longrightarrow>
   \<exists>n k. owner_node i nodes = Some (n, k) \<and> cn_endpoint n @ cn_disks n ! k = config_endpoints nodes ! i"
proof (induction nodes arbitrary: i)
  case (Cons n nodes)
  then show ?case
    by (cases "i < length (cn_disks n)") (simp_all add: config_endpoints_def nth_append)
qed (simp add: config_endpoints_def)

lemma owner_node_None:
  "length (config_endpoints nodes) \<le> i \<Longrightarrow> owner_node i nodes = None"
proof (induction nodes arbitrary: i)
  case (Cons n nodes)
  then show ?case by (auto simp: config_endpoints_def)
qed simp

lemma topology_disks_map [simp]: "topology_disks (map_disks f t) = map f (topology_disks t)"
  by (simp add: topology_disks_def map_disks_def map_concat comp_def)

lemma map_disks_map_disks: "map_disks g (map_disks f t) = map_disks (g \<circ> f) t"
  by (simp add: map_disks_def)

lemma populate_disk_endpoint_only: "(populate_disk m d)\<lparr>dk_endpoint := []\<rparr> = d\<lparr>dk_endpoint := []\<rparr>"
  by (simp add: populate_disk_def split: option.split)

lemma uuid_map_eq:
  assumes "length (topology_disks t) \<le> length (config_endpoints nodes)"
    "\<forall>d\<in>set (topology_disks t). length (dk_uuid d) < 37"
  shows "uuid_endpoint_map nodes t =
         map (\<lambda>(i, d). (dk_uuid d, snprintf_s 512 (config_endpoints nodes ! i))) (enumerate 0 (topology_disks t))"
proof -
  have "map_entry nodes i d = [(dk_uuid d, snprintf_s 512 (config_endpoints nodes ! i))]"
    if "(i, d) \<in> set (enumerate 0 (topology_disks t))" for i d
    using that assms owner_node_Some [of i nodes]
    by (auto simp: map_entry_def in_set_enumerate_eq)
  then have "map (\<lambda>(i, d). map_entry nodes i d) (enumerate 0 (topology_disks t)) =
             map (\<lambda>x. [case x of (i, d) \<Rightarrow> (dk_uuid d, snprintf_s 512 (config_endpoints nodes ! i))])
               (enumerate 0 (topology_disks t))"
    by auto
  then show ?thesis
    by (simp only: uuid_endpoint_map_def concat_map_singleton)
qed

text \<open>C23: endpoints are assigned by position.  If the disk ids are different and the
  configuration names at least as many disks, both in its nodes and by its set sizes, the
  \<open>i\<close>-th disk of the topology gets the endpoint of the \<open>i\<close>-th configured disk - the text of the
  node's endpoint followed by that of the disk's path, cut to the 255 characters the field holds -
  and nothing else changes.  The ids that are stored on the configured disks play no part, though
  the comment at the function says that they are read and matched.\<close>

theorem populate_endpoints_by_position:
  assumes "cc_enabled config" "cc_nodes config \<noteq> []"
    and "distinct (map dk_uuid (topology_disks t))" "\<forall>d\<in>set (topology_disks t). length (dk_uuid d) < 37"
    and "length (topology_disks t) \<le> length (config_endpoints (cc_nodes config))"
    and "int (length (topology_disks t)) \<le> cc_sets config * cc_disks_per_set config"
  shows "\<exists>t'. buckets_topology_populate_endpoints_from_config t config = Ok t' \<and>
           topology_disks t' =
             map (\<lambda>(i, d). d\<lparr>dk_endpoint := take 255 (config_endpoints (cc_nodes config) ! i)\<rparr>)
               (enumerate 0 (topology_disks t)) \<and>
           map_disks (\<lambda>d. d\<lparr>dk_endpoint := []\<rparr>) t' = map_disks (\<lambda>d. d\<lparr>dk_endpoint := []\<rparr>) t \<and>
           tp_generation t' = tp_generation t"
proof -
  let ?m = "uuid_endpoint_map (cc_nodes config) t"
  note m = uuid_map_eq [OF assms(5,4)]
  have "map fst ?m = map dk_uuid (topology_disks t)"
    by (rule nth_equalityI) (simp_all add: m nth_enumerate_eq split_def)
  then have dist: "distinct (map fst ?m)" using assms(3) by simp
  have "populate_disk ?m (topology_disks t ! i) =
        (topology_disks t ! i)\<lparr>dk_endpoint := take 255 (config_endpoints (cc_nodes config) ! i)\<rparr>"
    if "i < length (topology_disks t)" for i
  proof -
    have "(dk_uuid (topology_disks t ! i), snprintf_s 512 (config_endpoints (cc_nodes config) ! i)) \<in> set ?m"
      using that by (auto simp: m in_set_enumerate_eq intro!: image_eqI [of _ _ "(i, topology_disks t ! i)"])
    then show ?thesis
      using dist by (simp add: populate_disk_def snprintf_s_def)
  qed
  then have "map (populate_disk ?m) (topology_disks t) =
      map (\<lambda>(i, d). d\<lparr>dk_endpoint := take 255 (config_endpoints (cc_nodes config) ! i)\<rparr>)
        (enumerate 0 (topology_disks t))"
    by (intro nth_equalityI) (simp_all add: nth_enumerate_eq)
  moreover have "buckets_topology_populate_endpoints_from_config t config = Ok (map_disks (populate_disk ?m) t)"
    using assms(1,2,6) by (simp add: buckets_topology_populate_endpoints_from_config_def m Let_def)
  moreover have "map_disks (\<lambda>d. d\<lparr>dk_endpoint := []\<rparr>) (map_disks (populate_disk ?m) t) = map_disks (\<lambda>d. d\<lparr>dk_endpoint := []\<rparr>) t"
    by (simp add: map_disks_map_disks populate_disk_endpoint_only comp_def)
  moreover have "tp_generation (map_disks (populate_disk ?m) t) = tp_generation t" by (simp add: map_disks_def)
  ultimately show ?thesis by simp
qed

theorem populate_endpoints_by_position_witness:
  "\<exists>t'. buckets_topology_populate_endpoints_from_config topology_example
          \<lparr>cc_enabled = True, cc_sets = 1, cc_disks_per_set = 2,
           cc_nodes = [\<lparr>cn_endpoint = ''http://a:1'', cn_disks = [''/x'', ''/y'']\<rparr>]\<rparr> = Ok t' \<and>
        topology_disks t' = [\<lparr>dk_endpoint = ''http://a:1/x'', dk_uuid = ''u1'', dk_capacity = 42\<rparr>]"
  using populate_endpoints_by_position [of
      "\<lparr>cc_enabled = True, cc_sets = 1, cc_disks_per_set = 2,
        cc_nodes = [\<lparr>cn_endpoint = ''http://a:1'', cn_disks = [''/x'', ''/y'']\<rparr>]\<rparr>" topology_example]
  by (auto simp: topology_disks_def config_endpoints_def)

section \<open>A small cluster\<close>

text \<open>Two topologies, a printer and a parser for their JSON trees, and an environment in
  which the disks of a list refuse to be written.\<close>

definition topo_old :: buckets_cluster_topology where
  "topo_old = \<lparr>tp_version = 1, tp_generation = 1, tp_deployment_id = ''d'', tp_vnode_factor = 150, tp_pools = []\<rparr>"

definition topo_new :: buckets_cluster_topology where
  "topo_new = snd (buckets_topology_add_pool topo_old)"

definition small_print :: "json \<Rightarrow> string" where
  "small_print j = (if j = topology_to_json topo_new then ''new'' else ''old'')"

definition small_parse :: "string \<Rightarrow> json option" where
  "small_parse s = (if s = ''new'' then Some (topology_to_json topo_new)
                    else if s = ''old'' then Some (topology_to_json topo_old) else None)"

definition small_env :: "string list \<Rightarrow> string \<Rightarrow> io_env" where
  "small_env broken d =
     \<lparr>io_mkdir = BUCKETS_OK, io_fopen = d \<notin> set broken, io_written = 3, io_fflush = True, io_fsync = True,
      io_rename = True, io_syncdir = BUCKETS_OK, io_pid = 1\<rparr>"

definition small_fs :: fs where
  "small_fs = (\<lambda>_. Some ''old'')"

lemma topo_json_neq [simp]: "topology_to_json topo_old \<noteq> topology_to_json topo_new"
  by (simp add: topo_new_def topo_old_def buckets_topology_add_pool_def topology_to_json_def json_simps)

lemma small_cluster_simps [simp]:
  "small_print (topology_to_json topo_new) = ''new''"
  "small_parse ''new'' = Some (topology_to_json topo_new)"
  "small_parse ''old'' = Some (topology_to_json topo_old)"
  "topology_fits topo_new" "topology_fits topo_old" "tp_generation topo_new = 2" "tp_generation topo_old = 1"
  by (simp_all add: small_print_def small_parse_def topology_fits_def topo_new_def topo_old_def
      buckets_topology_add_pool_def in_i32_def)

lemma small_write_ok [simp]: "write_ok small_print (small_env broken) topo_new d \<longleftrightarrow> d \<notin> set broken"
  by (simp add: write_ok_def buckets_topology_save_def buckets_json_save_def atomic_write_result_def
      buckets_atomic_write_def small_env_def Let_def)

lemma small_load_old [simp]:
  "buckets_topology_load small_parse (\<lambda>_. True) small_fs d = Some topo_old"
  using load_written [of small_fs d small_print topo_old small_parse "\<lambda>_. True"]
  by (simp add: small_fs_def small_print_def in_i32_def)

theorem quorum_stale_read_witness:
  "\<exists>fs'. buckets_topology_save_quorum small_print (small_env [''/1'']) small_fs
            (map Some ([''/1''] @ [''/2'', ''/3''])) topo_new = (BUCKETS_OK, fs') \<and>
         buckets_topology_load_quorum small_print small_parse (\<lambda>_. True) fs'
            (map Some ([''/1''] @ [''/2'', ''/3''])) = Some topo_old"
  by (rule quorum_stale_read [of _ 1]) (simp_all add: small_env_def strip_slash_def)

theorem quorum_failed_write_visible_witness:
  "\<exists>fs'. buckets_topology_save_quorum small_print (small_env [''/3'', ''/4'']) small_fs
            (map Some ([''/1'', ''/2''] @ [''/3'', ''/4''])) topo_new = (BUCKETS_ERR_QUORUM, fs') \<and>
         buckets_topology_load_quorum small_print small_parse (\<lambda>_. True) fs'
            (map Some ([''/1'', ''/2''] @ [''/3'', ''/4''])) = Some topo_new"
  by (rule quorum_failed_write_visible [of _ 2]) (simp_all add: small_env_def strip_slash_def in_i32_def)

end
