(* ===== verification/Topology_Manager.thy ===== *)
theory Topology_Manager
  imports Topology
begin

text \<open>
  The topology manager of \<^verbatim>\<open>src/src/cluster/topology_manager.c\<close> over the topology cache of
  \<^verbatim>\<open>src/src/cluster/cache.c\<close>: a change clones the cached topology, modifies the clone, writes
  it to a quorum of disks, and only then replaces the cached topology and calls the
  registered listener.  The lemmas show that a change is all or nothing for the readers of the
  cache.

  All the operations run under the manager's mutex, so each is one step.  The state holds the two
  static structures, the files, and the sequence of topologies the listener has been given.
\<close>

section \<open>State\<close>

record manager_state =
  tm_disk_paths :: "string option list"
  tm_callback :: bool
  tm_initialized :: bool
  tc_topology :: "buckets_cluster_topology option"
  tc_initialized :: bool
  tm_files :: fs
  tm_notified :: "buckets_cluster_topology list"

section \<open>The topology cache\<close>

definition buckets_topology_cache_init :: "manager_state \<Rightarrow> manager_state" where
  "buckets_topology_cache_init w =
     (if tc_initialized w then w else w\<lparr>tc_topology := None, tc_initialized := True\<rparr>)"

definition buckets_topology_cache_cleanup :: "manager_state \<Rightarrow> manager_state" where
  "buckets_topology_cache_cleanup w =
     (if \<not> tc_initialized w then w else w\<lparr>tc_topology := None, tc_initialized := False\<rparr>)"

definition buckets_topology_cache_get :: "manager_state \<Rightarrow> buckets_cluster_topology option" where
  "buckets_topology_cache_get w = (if \<not> tc_initialized w then None else tc_topology w)"

definition buckets_topology_cache_set ::
  "manager_state \<Rightarrow> buckets_cluster_topology option \<Rightarrow> buckets_error \<times> manager_state" where
  "buckets_topology_cache_set w topology =
    (if \<not> tc_initialized w then (BUCKETS_ERR_INVALID_ARG, w)
     else (case topology of
             None \<Rightarrow> (BUCKETS_ERR_INVALID_ARG, w)
           | Some t \<Rightarrow> (BUCKETS_OK, w\<lparr>tc_topology := Some t\<rparr>)))"

definition buckets_topology_cache_invalidate :: "manager_state \<Rightarrow> manager_state" where
  "buckets_topology_cache_invalidate w = (if \<not> tc_initialized w then w else w\<lparr>tc_topology := None\<rparr>)"

section \<open>The manager\<close>

definition buckets_topology_manager_init ::
  "manager_state \<Rightarrow> string option list option \<Rightarrow> buckets_error \<times> manager_state" where
  "buckets_topology_manager_init w disk_paths =
    (case disk_paths of
       None \<Rightarrow> (BUCKETS_ERR_INVALID_ARG, w)
     | Some ds \<Rightarrow>
       if ds = [] then (BUCKETS_ERR_INVALID_ARG, w)
       else if tm_initialized w then (BUCKETS_ERR_INVALID_ARG, w)
       else (BUCKETS_OK, w\<lparr>tm_disk_paths := ds, tm_callback := False, tm_initialized := True\<rparr>))"

definition buckets_topology_manager_cleanup :: "manager_state \<Rightarrow> manager_state" where
  "buckets_topology_manager_cleanup w =
    (if \<not> tm_initialized w then w
     else w\<lparr>tm_disk_paths := [], tm_callback := False, tm_initialized := False\<rparr>)"

definition buckets_topology_manager_get :: "manager_state \<Rightarrow> buckets_cluster_topology option" where
  "buckets_topology_manager_get w = (if \<not> tm_initialized w then None else buckets_topology_cache_get w)"

definition buckets_topology_manager_load ::
  "(json \<Rightarrow> string) \<Rightarrow> (string \<Rightarrow> json option) \<Rightarrow> (string \<Rightarrow> bool) \<Rightarrow> manager_state
     \<Rightarrow> buckets_error \<times> manager_state" where
  "buckets_topology_manager_load print_unformatted parse rd w =
    (if \<not> tm_initialized w then (BUCKETS_ERR_INVALID_ARG, w)
     else (case buckets_topology_load_quorum print_unformatted parse rd (tm_files w) (tm_disk_paths w) of
             None \<Rightarrow> (BUCKETS_ERR_QUORUM, w)
           | Some topology \<Rightarrow> buckets_topology_cache_set w (Some topology)))"

text \<open>The deep copy, array by array.\<close>

definition clone_set :: "buckets_set_topology \<Rightarrow> buckets_set_topology" where
  "clone_set s = \<lparr>st_idx = st_idx s, st_state = st_state s, st_disks = map (\<lambda>d. d) (st_disks s)\<rparr>"

definition clone_pool :: "buckets_pool_topology \<Rightarrow> buckets_pool_topology" where
  "clone_pool p = \<lparr>pl_idx = pl_idx p, pl_sets = map clone_set (pl_sets p)\<rparr>"

definition clone_topology :: "buckets_cluster_topology \<Rightarrow> buckets_cluster_topology" where
  "clone_topology t = t\<lparr>tp_pools := map clone_pool (tp_pools t)\<rparr>"

definition persist_and_notify ::
  "(json \<Rightarrow> string) \<Rightarrow> (string \<Rightarrow> io_env) \<Rightarrow> manager_state \<Rightarrow> buckets_cluster_topology
     \<Rightarrow> buckets_error \<times> manager_state" where
  "persist_and_notify print env w topology =
    (let (ret, files) = buckets_topology_save_quorum print env (tm_files w) (tm_disk_paths w) topology;
         w = w\<lparr>tm_files := files\<rparr>
     in if ret \<noteq> BUCKETS_OK then (ret, w)
        else let (ret, w) = buckets_topology_cache_set w (Some (clone_topology topology))
             in if ret \<noteq> BUCKETS_OK then (ret, w)
                else (BUCKETS_OK,
                      if tm_callback w then w\<lparr>tm_notified := tm_notified w @ [topology]\<rparr> else w))"

text \<open>The four changes share one body; \<open>change\<close> is the topology operation each calls.\<close>

definition manager_change ::
  "(json \<Rightarrow> string) \<Rightarrow> (string \<Rightarrow> io_env)
     \<Rightarrow> (buckets_cluster_topology \<Rightarrow> buckets_error \<times> buckets_cluster_topology)
     \<Rightarrow> manager_state \<Rightarrow> buckets_error \<times> manager_state" where
  "manager_change print env change w =
    (case buckets_topology_cache_get w of
       None \<Rightarrow> (BUCKETS_ERR_INVALID_ARG, w)
     | Some cached \<Rightarrow>
       (let (ret, topology) = change (clone_topology cached)
        in if ret \<noteq> BUCKETS_OK then (ret, w)
           else persist_and_notify print env w topology))"

definition buckets_topology_manager_add_pool ::
  "(json \<Rightarrow> string) \<Rightarrow> (string \<Rightarrow> io_env) \<Rightarrow> manager_state \<Rightarrow> buckets_error \<times> manager_state" where
  "buckets_topology_manager_add_pool print env w =
    (if \<not> tm_initialized w then (BUCKETS_ERR_INVALID_ARG, w)
     else manager_change print env buckets_topology_add_pool w)"

definition buckets_topology_manager_add_set ::
  "(json \<Rightarrow> string) \<Rightarrow> (string \<Rightarrow> io_env) \<Rightarrow> int \<Rightarrow> buckets_disk_info list option \<Rightarrow> manager_state
     \<Rightarrow> buckets_error \<times> manager_state" where
  "buckets_topology_manager_add_set print env pool_idx disks w =
    (if \<not> tm_initialized w then (BUCKETS_ERR_INVALID_ARG, w)
     else if disks = None \<or> disks = Some [] then (BUCKETS_ERR_INVALID_ARG, w)
     else manager_change print env (\<lambda>t. buckets_topology_add_set t pool_idx disks) w)"

definition buckets_topology_manager_mark_set_draining ::
  "(json \<Rightarrow> string) \<Rightarrow> (string \<Rightarrow> io_env) \<Rightarrow> int \<Rightarrow> int \<Rightarrow> manager_state \<Rightarrow> buckets_error \<times> manager_state" where
  "buckets_topology_manager_mark_set_draining print env pool_idx set_idx w =
    (if \<not> tm_initialized w then (BUCKETS_ERR_INVALID_ARG, w)
     else manager_change print env (\<lambda>t. buckets_topology_mark_set_draining t pool_idx set_idx) w)"

definition buckets_topology_manager_mark_set_removed ::
  "(json \<Rightarrow> string) \<Rightarrow> (string \<Rightarrow> io_env) \<Rightarrow> int \<Rightarrow> int \<Rightarrow> manager_state \<Rightarrow> buckets_error \<times> manager_state" where
  "buckets_topology_manager_mark_set_removed print env pool_idx set_idx w =
    (if \<not> tm_initialized w then (BUCKETS_ERR_INVALID_ARG, w)
     else manager_change print env (\<lambda>t. buckets_topology_mark_set_removed t pool_idx set_idx) w)"

definition buckets_topology_manager_set_callback ::
  "manager_state \<Rightarrow> bool \<Rightarrow> buckets_error \<times> manager_state" where
  "buckets_topology_manager_set_callback w callback =
    (if \<not> tm_initialized w then (BUCKETS_ERR_INVALID_ARG, w)
     else (BUCKETS_OK, w\<lparr>tm_callback := callback\<rparr>))"

text \<open>The four changes by name.\<close>

fun manager_apply ::
  "(json \<Rightarrow> string) \<Rightarrow> (string \<Rightarrow> io_env) \<Rightarrow> topology_op \<Rightarrow> manager_state \<Rightarrow> buckets_error \<times> manager_state" where
  "manager_apply pr env Add_Pool w = buckets_topology_manager_add_pool pr env w"
| "manager_apply pr env (Add_Set p ds) w = buckets_topology_manager_add_set pr env p ds w"
| "manager_apply pr env (Mark_Draining p s) w = buckets_topology_manager_mark_set_draining pr env p s w"
| "manager_apply pr env (Mark_Removed p s) w = buckets_topology_manager_mark_set_removed pr env p s w"

section \<open>Changes are all or nothing\<close>

lemma clone_topology_id [simp]: "clone_topology t = t"
proof -
  have "clone_set s = s" for s by (simp add: clone_set_def)
  then have "clone_pool p = p" for p by (simp add: clone_pool_def map_idI)
  then show ?thesis by (simp add: clone_topology_def map_idI)
qed

lemma manager_apply_eq:
  "manager_apply pr env op w =
    (if \<not> tm_initialized w then (BUCKETS_ERR_INVALID_ARG, w)
     else case buckets_topology_cache_get w of
       None \<Rightarrow> (BUCKETS_ERR_INVALID_ARG, w)
     | Some t \<Rightarrow>
       (let (ret, t') = topology_apply op t
        in if ret \<noteq> BUCKETS_OK then (ret, w) else persist_and_notify pr env w t'))"
  by (cases op)
    (auto simp: buckets_topology_manager_add_pool_def buckets_topology_manager_add_set_def
      buckets_topology_manager_mark_set_draining_def buckets_topology_manager_mark_set_removed_def
      manager_change_def buckets_topology_add_set_def split: option.split)

lemma persist_cases:
  assumes "tc_initialized w"
  shows "persist_and_notify pr env w t =
    (let (ret, files) = buckets_topology_save_quorum pr env (tm_files w) (tm_disk_paths w) t
     in if ret \<noteq> BUCKETS_OK then (ret, w\<lparr>tm_files := files\<rparr>)
        else (BUCKETS_OK, w\<lparr>tm_files := files, tc_topology := Some t,
                             tm_notified := (if tm_callback w then tm_notified w @ [t] else tm_notified w)\<rparr>))"
  using assms
  by (simp add: persist_and_notify_def buckets_topology_cache_set_def Let_def split_def)

lemma cache_get_initialized: "buckets_topology_cache_get w = Some t \<Longrightarrow> tc_initialized w"
  by (simp add: buckets_topology_cache_get_def split: if_splits)

text \<open>C24: a change through the manager is all or nothing for everybody who reads the
  topology.  If it reports an error, the topology served is the old one and the listener was not
  called.  If it succeeds, the topology served is the changed one, it is stored on a majority of
  the disks, and the listener, if any, has been given exactly it.\<close>

theorem manager_change_atomic:
  assumes "manager_apply pr env op w = (ret, w')"
  shows "(ret \<noteq> BUCKETS_OK \<longrightarrow>
            buckets_topology_manager_get w' = buckets_topology_manager_get w \<and> tm_notified w' = tm_notified w) \<and>
         (ret = BUCKETS_OK \<longrightarrow>
            (\<exists>t t'. buckets_topology_manager_get w = Some t \<and> topology_apply op t = (BUCKETS_OK, t') \<and>
               buckets_topology_manager_get w' = Some t' \<and>
               buckets_topology_save_quorum pr env (tm_files w) (tm_disk_paths w) t' = (BUCKETS_OK, tm_files w') \<and>
               tm_notified w' = (if tm_callback w then tm_notified w @ [t'] else tm_notified w)))"
proof (cases "tm_initialized w \<and> buckets_topology_cache_get w \<noteq> None")
  case False
  then have "ret = BUCKETS_ERR_INVALID_ARG \<and> w' = w"
    using assms by (auto simp: manager_apply_eq split: if_splits)
  then show ?thesis by simp
next
  case True
  then obtain t where t: "tm_initialized w" "buckets_topology_cache_get w = Some t" by auto
  note i = cache_get_initialized [OF t(2)]
  obtain r t' where a: "topology_apply op t = (r, t')" by fastforce
  obtain q files where s: "buckets_topology_save_quorum pr env (tm_files w) (tm_disk_paths w) t' = (q, files)"
    by fastforce
  show ?thesis
    using assms t a s i
    by (auto simp: manager_apply_eq persist_cases [OF i] buckets_topology_manager_get_def
        buckets_topology_cache_get_def split: if_splits)
qed

abbreviation small_manager :: manager_state where
  "small_manager \<equiv>
     \<lparr>tm_disk_paths = map Some [''/1'', ''/2'', ''/3''], tm_callback = True, tm_initialized = True,
      tc_topology = Some topo_old, tc_initialized = True, tm_files = small_fs, tm_notified = []\<rparr>"

theorem manager_change_atomic_witness:
  "\<exists>ret w'. manager_apply small_print (small_env [''/1'']) Add_Pool small_manager = (ret, w') \<and>
     ret = BUCKETS_OK \<and> buckets_topology_manager_get w' = Some topo_new \<and> tm_notified w' = [topo_new]"
proof -
  obtain ret w' where r: "manager_apply small_print (small_env [''/1'']) Add_Pool small_manager = (ret, w')"
    by fastforce
  have d: "distinct (map strip_slash [''/1'', ''/2'', ''/3''])" by (simp add: strip_slash_def)
  have ok: "topology_apply Add_Pool topo_old = (BUCKETS_OK, topo_new)"
    by (simp add: topo_new_def buckets_topology_add_pool_def)
  obtain fs' where fs': "buckets_topology_save_quorum small_print (small_env [''/1'']) small_fs
      (map Some [''/1'', ''/2'', ''/3'']) topo_new = (BUCKETS_OK, fs')"
    using save_all_spec [OF d, of small_print "small_env [''/1'']" topo_new small_fs]
    by (simp add: buckets_topology_save_quorum_def split_def)
  have "ret = BUCKETS_OK"
    using r ok fs' by (simp add: manager_apply_eq persist_cases buckets_topology_cache_get_def)
  then show ?thesis
    using manager_change_atomic [OF r] r ok
    by (auto simp: buckets_topology_manager_get_def buckets_topology_cache_get_def)
qed

end
