(* ===== verification/Placement.thy ===== *)
theory Placement
  imports Ring_Search SipHash Topology
begin

text \<open>
  Placement of objects on erasure sets, \<^verbatim>\<open>src/src/placement/placement.c\<close>: a ring with
  150 virtual nodes for every active set, positioned by SipHash under a key from the
  deployment id, and searched for the hash of \<^verbatim>\<open>bucket/object\<close>.  The lemmas show that an
  object is placed on an active set of the topology the ring was built from, and that
  changing the state of one set, or adding one, moves no object between the others.

  \<open>uuid_parse\<close> is the parser of libuuid, and \<open>multidisk\<close> the disks that
  \<^verbatim>\<open>src/src/storage/multidisk.c\<close> lists for a set; both are arguments.
\<close>

section \<open>State\<close>

record buckets_placement_vnode =
  pv_hash :: u64
  pv_pool_idx :: nat
  pv_set_idx :: nat

record placement_state =
  pm_initialized :: bool
  pm_siphash_k0 :: u64
  pm_siphash_k1 :: u64
  pm_hash_ring :: "buckets_placement_vnode list"
  pm_current_generation :: int

record buckets_placement_result =
  pr_pool_idx :: nat
  pr_set_idx :: nat
  pr_disk_paths :: "string list"
  pr_disk_uuids :: "string list"
  pr_disk_endpoints :: "string list"
  pr_generation :: int
  pr_state :: buckets_set_state
  pr_object_hash :: u64
  pr_vnode_index :: nat

definition VNODES_PER_SET :: nat where
  "VNODES_PER_SET = 150"

section \<open>Building the ring\<close>

definition placement_vnode_key :: "nat \<Rightarrow> nat \<Rightarrow> nat \<Rightarrow> string" where
  "placement_vnode_key p s v = snprintf_s 256 (dec_nat p @ '':'' @ dec_nat s @ '':'' @ dec_nat v)"

definition set_vnodes :: "u64 \<Rightarrow> u64 \<Rightarrow> nat \<Rightarrow> nat \<Rightarrow> buckets_placement_vnode list" where
  "set_vnodes k0 k1 p s =
     map (\<lambda>v. \<lparr>pv_hash = buckets_siphash k0 k1 (Some (str_bytes (placement_vnode_key p s v))),
               pv_pool_idx = p, pv_set_idx = s\<rparr>) [0..<VNODES_PER_SET]"

text \<open>The positions of all active sets, pool by pool.\<close>

definition active_sets :: "buckets_cluster_topology \<Rightarrow> (nat \<times> nat) list" where
  "active_sets t =
     concat (map (\<lambda>(p, pool). concat (map (\<lambda>(s, st). if st_state st = SET_STATE_ACTIVE then [(p, s)] else [])
                                        (enumerate 0 (pl_sets pool))))
               (enumerate 0 (tp_pools t)))"

definition build_hash_ring ::
  "placement_state \<Rightarrow> buckets_cluster_topology option \<Rightarrow> int \<times> placement_state" where
  "build_hash_ring st topology =
    (case topology of
       None \<Rightarrow> (-1, st)
     | Some t \<Rightarrow>
       if active_sets t = [] then (-1, st)
       else let ring = concat (map (\<lambda>(p, s). set_vnodes (pm_siphash_k0 st) (pm_siphash_k1 st) p s) (active_sets t))
            in (0, st\<lparr>pm_hash_ring := sort_key pv_hash ring, pm_current_generation := tp_generation t\<rparr>))"

definition find_vnode :: "buckets_placement_vnode list \<Rightarrow> u64 \<Rightarrow> nat" where
  "find_vnode ring target_hash =
    (if length ring = 0 then 0
     else let left = bisect (\<lambda>mid. pv_hash (ring ! mid) < target_hash) 0 (length ring)
          in if length ring \<le> left then 0 else left)"

definition buckets_placement_init ::
  "(string \<Rightarrow> bytes option) \<Rightarrow> placement_state \<Rightarrow> buckets_cluster_topology option \<Rightarrow> int \<times> placement_state" where
  "buckets_placement_init uuid_parse st topology =
    (if pm_initialized st then (0, st)
     else case topology of
       None \<Rightarrow> (-1, st)
     | Some t \<Rightarrow>
       (case uuid_parse (tp_deployment_id t) of
          None \<Rightarrow> (-1, st)
        | Some uuid \<Rightarrow>
          (let st = st\<lparr>pm_siphash_k0 := load_le64 uuid, pm_siphash_k1 := load_le64 (drop 8 uuid)\<rparr>;
               (ret, st) = build_hash_ring st topology
           in if ret \<noteq> 0 then (-1, st) else (0, st\<lparr>pm_initialized := True\<rparr>))))"

definition buckets_placement_rebuild_ring ::
  "placement_state \<Rightarrow> buckets_cluster_topology option \<Rightarrow> int \<times> placement_state" where
  "buckets_placement_rebuild_ring st topology =
    (if \<not> pm_initialized st then (-1, st) else build_hash_ring st topology)"

definition buckets_placement_cleanup :: "placement_state \<Rightarrow> placement_state" where
  "buckets_placement_cleanup st =
     st\<lparr>pm_hash_ring := [], pm_initialized := False, pm_siphash_k0 := 0, pm_siphash_k1 := 0\<rparr>"

section \<open>Placing an object\<close>

text \<open>The last slash of a string and what follows it.\<close>

definition strrchr_from :: "char \<Rightarrow> string \<Rightarrow> string option" where
  "strrchr_from c s = (case strchr c (rev s) of None \<Rightarrow> None | Some (a, b) \<Rightarrow> Some (c # rev a))"

definition endpoint_path :: "string \<Rightarrow> string" where
  "endpoint_path endpoint =
    (case strrchr_from CHR ''/'' endpoint of
       None \<Rightarrow> endpoint
     | Some path_start \<Rightarrow>
       (case strstr ''://'' endpoint of
          None \<Rightarrow> path_start
        | Some (_, rest) \<Rightarrow>
          (case strchr CHR ''/'' (drop 3 rest) of
             None \<Rightarrow> path_start
           | Some (_, b) \<Rightarrow> CHR ''/'' # b)))"

definition object_path :: "string \<Rightarrow> string \<Rightarrow> string" where
  "object_path bucket object = bucket @ ''/'' @ object"

definition placement_object_hash :: "placement_state \<Rightarrow> string \<Rightarrow> string \<Rightarrow> u64" where
  "placement_object_hash st bucket object =
     buckets_siphash (pm_siphash_k0 st) (pm_siphash_k1 st) (Some (str_bytes (object_path bucket object)))"

definition buckets_placement_compute ::
  "(nat \<Rightarrow> string list) \<Rightarrow> placement_state \<Rightarrow> buckets_cluster_topology option
     \<Rightarrow> string option \<Rightarrow> string option \<Rightarrow> buckets_placement_result option" where
  "buckets_placement_compute multidisk st topology bucket object =
    (case (bucket, object) of
       (Some bucket, Some object) \<Rightarrow>
         if \<not> pm_initialized st then None
         else if length (pm_hash_ring st) = 0 then None
         else (case topology of
           None \<Rightarrow> None
         | Some t \<Rightarrow>
           (let object_hash = placement_object_hash st bucket object;
                vnode_idx = find_vnode (pm_hash_ring st) object_hash;
                pool_idx = pv_pool_idx (pm_hash_ring st ! vnode_idx);
                set_idx = pv_set_idx (pm_hash_ring st ! vnode_idx)
            in if length (tp_pools t) \<le> pool_idx then None
               else if length (pl_sets (tp_pools t ! pool_idx)) \<le> set_idx then None
               else let s = pl_sets (tp_pools t ! pool_idx) ! set_idx;
                        disks = st_disks s;
                        result = \<lambda>paths endpoints.
                          \<lparr>pr_pool_idx = pool_idx, pr_set_idx = set_idx,
                           pr_disk_paths = paths, pr_disk_uuids = map dk_uuid disks,
                           pr_disk_endpoints = endpoints, pr_generation = tp_generation t,
                           pr_state = st_state s, pr_object_hash = object_hash, pr_vnode_index = vnode_idx\<rparr>
                    in if disks \<noteq> [] \<and> dk_endpoint (hd disks) = [] then
                         (let paths = take 64 (multidisk set_idx) in
                          if length disks \<le> length paths
                          then Some (result (take (length disks) paths) (map (\<lambda>_. []) disks))
                          else None)
                       else Some (result (map (endpoint_path \<circ> dk_endpoint) disks) (map dk_endpoint disks))))
     | _ \<Rightarrow> None)"

definition buckets_placement_get_stats ::
  "placement_state \<Rightarrow> buckets_cluster_topology option \<Rightarrow> nat \<times> nat" where
  "buckets_placement_get_stats st topology =
    (if \<not> pm_initialized st then (0, 0)
     else case topology of
       None \<Rightarrow> (0, 0)
     | Some t \<Rightarrow>
       (let active = filter (\<lambda>s. st_state s = SET_STATE_ACTIVE) (concat (map pl_sets (tp_pools t)))
        in (length active, sum_list (map (length \<circ> st_disks) active))))"

section \<open>The ring over the active sets\<close>

abbreviation pv_owner :: "buckets_placement_vnode \<Rightarrow> nat \<times> nat" where
  "pv_owner v \<equiv> (pv_pool_idx v, pv_set_idx v)"

interpretation plc: ring_search pv_hash pv_owner find_vnode
  using bisect_search_clockwise [where pos = pv_hash]
  by unfold_locales (simp add: find_vnode_def bisect_search_def)

definition ring_for :: "u64 \<Rightarrow> u64 \<Rightarrow> (nat \<times> nat) list \<Rightarrow> buckets_placement_vnode list" where
  "ring_for k0 k1 acts = sort_key pv_hash (concat (map (\<lambda>(p, s). set_vnodes k0 k1 p s) acts))"

lemma set_vnodes_owner: "v \<in> set (set_vnodes k0 k1 p s) \<Longrightarrow> pv_owner v = (p, s)"
  by (auto simp: set_vnodes_def)

lemma set_vnodes_ne: "set_vnodes k0 k1 p s \<noteq> []"
  by (simp add: set_vnodes_def VNODES_PER_SET_def)

lemma ring_for_owner: "v \<in> set (ring_for k0 k1 acts) \<Longrightarrow> pv_owner v \<in> set acts"
  by (auto simp: ring_for_def dest: set_vnodes_owner)

lemma ring_for_sorted [simp]: "sorted (map pv_hash (ring_for k0 k1 acts))"
  by (simp add: ring_for_def)

lemma ring_for_ne: "ring_for k0 k1 acts \<noteq> [] \<longleftrightarrow> acts \<noteq> []"
proof
  assume "acts \<noteq> []"
  then obtain p s rest where "acts = (p, s) # rest" by (cases acts) auto
  then have "concat (map (\<lambda>(p, s). set_vnodes k0 k1 p s) acts) \<noteq> []"
    using set_vnodes_ne [of k0 k1 p s] by simp
  then show "ring_for k0 k1 acts \<noteq> []"
    unfolding ring_for_def by (metis mset_sort mset_zero_iff)
qed (auto simp: ring_for_def)

lemma ring_for_filter:
  "filter (\<lambda>v. pv_owner v \<noteq> q) (ring_for k0 k1 acts) = ring_for k0 k1 (filter (\<lambda>a. a \<noteq> q) acts)"
proof -
  have "filter (\<lambda>v. pv_owner v \<noteq> q) (set_vnodes k0 k1 p s) = (if (p, s) \<noteq> q then set_vnodes k0 k1 p s else [])" for p s
    by (auto simp: filter_id_conv filter_empty_conv dest: set_vnodes_owner)
  then have "filter (\<lambda>v. pv_owner v \<noteq> q) (concat (map (\<lambda>(p, s). set_vnodes k0 k1 p s) acts)) =
             concat (map (\<lambda>(p, s). set_vnodes k0 k1 p s) (filter (\<lambda>a. a \<noteq> q) acts))"
    by (induction acts) auto
  then show ?thesis by (simp add: ring_for_def filter_sort)
qed

text \<open>The set that serves a hash, and how it changes when one set leaves or joins.\<close>

abbreviation placed :: "u64 \<Rightarrow> u64 \<Rightarrow> (nat \<times> nat) list \<Rightarrow> u64 \<Rightarrow> nat \<times> nat" where
  "placed k0 k1 acts h \<equiv> plc.serves (ring_for k0 k1 acts) h"

lemma placed_in: "acts \<noteq> [] \<Longrightarrow> placed k0 k1 acts h \<in> set acts"
  using plc.serves_nearest [of "ring_for k0 k1 acts" h] ring_for_ne ring_for_owner by fastforce

lemma placed_leave:
  assumes "acts \<noteq> []" "placed k0 k1 acts h \<noteq> q"
  shows "placed k0 k1 (filter (\<lambda>a. a \<noteq> q) acts) h = placed k0 k1 acts h"
  using plc.serves_after_remove [of "ring_for k0 k1 acts" h q] assms ring_for_ne ring_for_filter by simp

lemma placed_join:
  assumes "filter (\<lambda>a. a \<noteq> q) acts \<noteq> []"
  shows "placed k0 k1 acts h = q \<or> placed k0 k1 acts h = placed k0 k1 (filter (\<lambda>a. a \<noteq> q) acts) h"
  using plc.serves_extend [of "ring_for k0 k1 acts" q h] assms ring_for_ne ring_for_filter by simp

section \<open>Active sets under changes of the topology\<close>

lemma enumerate_upt: "enumerate 0 xs = map (\<lambda>i. (i, xs ! i)) [0..<length xs]"
  by (rule nth_equalityI) (simp_all add: nth_enumerate_eq)

definition set_active :: "buckets_cluster_topology \<Rightarrow> nat \<Rightarrow> nat \<Rightarrow> bool" where
  "set_active t p s \<longleftrightarrow> st_state (pl_sets (tp_pools t ! p) ! s) = SET_STATE_ACTIVE"

lemma concat_if_singleton: "concat (map (\<lambda>x. if P x then [f x] else []) xs) = map f (filter P xs)"
  by (induction xs) auto

lemma active_sets_eq:
  "active_sets t =
     concat (map (\<lambda>p. map (Pair p) (filter (set_active t p) [0..<length (pl_sets (tp_pools t ! p))]))
               [0..<length (tp_pools t)])"
  by (simp add: active_sets_def enumerate_upt comp_def concat_if_singleton set_active_def [abs_def])

lemma active_sets_mem:
  "(p, s) \<in> set (active_sets t) \<longleftrightarrow>
     p < length (tp_pools t) \<and> s < length (pl_sets (tp_pools t ! p)) \<and> set_active t p s"
  by (auto simp: active_sets_eq)

lemma filter_active_sets:
  "filter (\<lambda>a. a \<noteq> (q, r)) (active_sets t) =
     concat (map (\<lambda>p. map (Pair p) (filter (\<lambda>s. set_active t p s \<and> (p, s) \<noteq> (q, r))
                                      [0..<length (pl_sets (tp_pools t ! p))]))
               [0..<length (tp_pools t)])"
  by (simp add: active_sets_eq filter_concat comp_def filter_map conj_commute)

lemma active_sets_leave:
  assumes "buckets_topology_set_state t (int q) (int r) x = (BUCKETS_OK, t')" "x \<noteq> SET_STATE_ACTIVE"
  shows "active_sets t' = filter (\<lambda>a. a \<noteq> (q, r)) (active_sets t)"
proof (cases "st_state (pl_sets (tp_pools t ! q) ! r) = x")
  case True
  then have "t' = t" and "\<not> set_active t q r"
    using assms by (auto simp: buckets_topology_set_state_def set_active_def Let_def split: if_splits)
  then have "\<forall>a\<in>set (active_sets t). a \<noteq> (q, r)" by (auto simp: active_sets_mem)
  then show ?thesis using \<open>t' = t\<close> by simp
next
  case False
  let ?pool = "tp_pools t ! q"
  have b: "q < length (tp_pools t)" "r < length (pl_sets ?pool)"
    and t': "tp_pools t' = (tp_pools t)[q := ?pool\<lparr>pl_sets := (pl_sets ?pool)[r := (pl_sets ?pool ! r)\<lparr>st_state := x\<rparr>]\<rparr>]"
    using assms False by (auto simp: buckets_topology_set_state_def Let_def split: if_splits)
  have "set_active t' p s \<longleftrightarrow> set_active t p s \<and> (p, s) \<noteq> (q, r)"
    if "p < length (tp_pools t)" "s < length (pl_sets (tp_pools t ! p))" for p s
    using b that assms(2) by (auto simp: set_active_def t' nth_list_update split: if_splits)
  moreover have "length (pl_sets (tp_pools t' ! p)) = length (pl_sets (tp_pools t ! p))"
    if "p < length (tp_pools t)" for p
    using b that by (simp add: t' nth_list_update)
  ultimately show ?thesis
    unfolding filter_active_sets active_sets_eq [of t']
    using t' by (auto intro!: arg_cong [where f = concat] map_cong filter_cong)
qed

lemma active_sets_join:
  assumes "buckets_topology_add_set t (int q) (Some ds) = (BUCKETS_OK, t')"
  shows "active_sets t = filter (\<lambda>a. a \<noteq> (q, length (pl_sets (tp_pools t ! q)))) (active_sets t')"
proof -
  let ?pool = "tp_pools t ! q"
  let ?n = "length (pl_sets ?pool)"
  obtain new where b: "q < length (tp_pools t)"
    and t': "tp_pools t' = (tp_pools t)[q := ?pool\<lparr>pl_sets := pl_sets ?pool @ [new]\<rparr>]"
    using assms by (auto simp: buckets_topology_add_set_def Let_def split: if_splits)
  have "filter (\<lambda>s. set_active t' p s \<and> (p, s) \<noteq> (q, ?n)) [0..<length (pl_sets (tp_pools t' ! p))] =
        filter (set_active t p) [0..<length (pl_sets (tp_pools t ! p))]"
    if p: "p < length (tp_pools t)" for p
  proof (cases "p = q")
    case True
    then show ?thesis
      using b by (simp add: t') (auto intro!: filter_cong simp: set_active_def t' nth_append)
  next
    case False
    then show ?thesis
      using b p by (simp add: t' nth_list_update) (auto intro!: filter_cong simp: set_active_def t')
  qed
  then show ?thesis
    unfolding filter_active_sets active_sets_eq [of t]
    using t' by (auto intro!: arg_cong [where f = concat] map_cong)
qed

section \<open>Properties\<close>

text \<open>What the multi-disk layer must provide for sets whose endpoints are not filled in.\<close>

definition set_disks_known :: "(nat \<Rightarrow> string list) \<Rightarrow> buckets_cluster_topology \<Rightarrow> nat \<Rightarrow> nat \<Rightarrow> bool" where
  "set_disks_known multidisk t p s \<longleftrightarrow>
     (let disks = st_disks (pl_sets (tp_pools t ! p) ! s) in
      disks = [] \<or> dk_endpoint (hd disks) \<noteq> [] \<or> length disks \<le> length (take 64 (multidisk s)))"

definition disks_known :: "(nat \<Rightarrow> string list) \<Rightarrow> buckets_cluster_topology \<Rightarrow> bool" where
  "disks_known multidisk t \<longleftrightarrow> (\<forall>(p, s)\<in>set (active_sets t). set_disks_known multidisk t p s)"

lemma build_ring_ok:
  assumes "build_hash_ring st (Some t) = (0, st')"
  shows "active_sets t \<noteq> []" "pm_hash_ring st' = ring_for (pm_siphash_k0 st) (pm_siphash_k1 st) (active_sets t)"
    "pm_siphash_k0 st' = pm_siphash_k0 st" "pm_siphash_k1 st' = pm_siphash_k1 st"
    "pm_initialized st' = pm_initialized st"
  using assms by (auto simp: build_hash_ring_def ring_for_def split: if_splits)

text \<open>A placement names the set that serves the object's hash on the ring.\<close>

lemma compute_position:
  assumes "buckets_placement_compute md st (Some t) (Some b) (Some obj) = Some r"
  shows "(pr_pool_idx r, pr_set_idx r) = plc.serves (pm_hash_ring st) (placement_object_hash st b obj)"
    "pr_state r = st_state (pl_sets (tp_pools t ! pr_pool_idx r) ! pr_set_idx r)"
    "pr_generation r = tp_generation t"
    "pr_disk_uuids r = map dk_uuid (st_disks (pl_sets (tp_pools t ! pr_pool_idx r) ! pr_set_idx r))"
    "length (pr_disk_paths r) = length (st_disks (pl_sets (tp_pools t ! pr_pool_idx r) ! pr_set_idx r))"
  using assms
  by (auto simp: buckets_placement_compute_def plc.serves_def Let_def split: if_splits)

text \<open>It fails exactly if the disks of that set are not known.\<close>

lemma compute_fails_iff:
  assumes "build_hash_ring st (Some t) = (0, st')" "pm_initialized st"
    and "placed (pm_siphash_k0 st) (pm_siphash_k1 st) (active_sets t) (placement_object_hash st b obj) = (p, s)"
  shows "(p, s) \<in> set (active_sets t)"
    "buckets_placement_compute md st' (Some t) (Some b) (Some obj) = None \<longleftrightarrow> \<not> set_disks_known md t p s"
    "buckets_placement_compute md st' (Some t) (Some b) (Some obj) = Some r \<Longrightarrow> (pr_pool_idx r, pr_set_idx r) = (p, s)"
proof -
  note br = build_ring_ok [OF assms(1)]
  have h: "placement_object_hash st' b obj = placement_object_hash st b obj"
    using br by (simp add: placement_object_hash_def)
  let ?h = "placement_object_hash st b obj"
  note ps = assms(3)
  show a: "(p, s) \<in> set (active_sets t)"
    using placed_in [OF br(1), of "pm_siphash_k0 st" "pm_siphash_k1 st" ?h] ps by simp
  then have m: "p < length (tp_pools t)" "s < length (pl_sets (tp_pools t ! p))"
    by (auto simp: active_sets_mem)
  have v: "pv_pool_idx (pm_hash_ring st' ! find_vnode (pm_hash_ring st') ?h) = p"
    "pv_set_idx (pm_hash_ring st' ! find_vnode (pm_hash_ring st') ?h) = s"
    using ps br(2) by (simp_all add: plc.serves_def)
  have ne: "pm_hash_ring st' \<noteq> []" using br(1,2) ring_for_ne by simp
  show "buckets_placement_compute md st' (Some t) (Some b) (Some obj) = None \<longleftrightarrow> \<not> set_disks_known md t p s"
    using m v ne br(5) assms(2) by (simp add: buckets_placement_compute_def set_disks_known_def Let_def h)
  show "(pr_pool_idx r, pr_set_idx r) = (p, s)" if "buckets_placement_compute md st' (Some t) (Some b) (Some obj) = Some r"
    using compute_position(1) [OF that] br(2) h ps by simp
qed

lemma compute_on_active:
  assumes "build_hash_ring st (Some t) = (0, st')" "pm_initialized st" "disks_known md t"
  shows "\<exists>r. buckets_placement_compute md st' (Some t) (Some b) (Some obj) = Some r \<and>
             (pr_pool_idx r, pr_set_idx r) =
               placed (pm_siphash_k0 st) (pm_siphash_k1 st) (active_sets t) (placement_object_hash st b obj)"
proof -
  obtain p s where ps: "placed (pm_siphash_k0 st) (pm_siphash_k1 st) (active_sets t) (placement_object_hash st b obj) = (p, s)"
    by fastforce
  note f = compute_fails_iff [OF assms(1,2) ps]
  have "set_disks_known md t p s" using f(1) assms(3) by (auto simp: disks_known_def)
  then obtain r where r: "buckets_placement_compute md st' (Some t) (Some b) (Some obj) = Some r" using f(2) [of md] by auto
  then show ?thesis using f(3) [OF r] ps by auto
qed

text \<open>C9: objects are placed on active sets.  With the ring built from the current topology there
  is for every object an existing set, which is active, such that the following holds.  If
  the disks of that set are known - its first disk has an endpoint, or the multi-disk layer
  gives paths for at least as many disks as it has, where it skips those that are offline -
  then placement succeeds, and its result names the set, with a path for each of its disks,
  their ids and the topology's generation.  If they are not known, placement fails: it does
  not go to another set.\<close>

theorem placement_on_active_set:
  assumes "build_hash_ring st (Some t) = (0, st')" "pm_initialized st"
  shows "\<exists>p s. p < length (tp_pools t) \<and> s < length (pl_sets (tp_pools t ! p)) \<and>
     st_state (pl_sets (tp_pools t ! p) ! s) = SET_STATE_ACTIVE \<and>
     (case buckets_placement_compute multidisk st' (Some t) (Some bucket) (Some object) of
        None \<Rightarrow> \<not> set_disks_known multidisk t p s
      | Some r \<Rightarrow>
          set_disks_known multidisk t p s \<and> pr_pool_idx r = p \<and> pr_set_idx r = s \<and>
          pr_state r = SET_STATE_ACTIVE \<and> pr_generation r = tp_generation t \<and>
          length (pr_disk_paths r) = length (st_disks (pl_sets (tp_pools t ! p) ! s)) \<and>
          pr_disk_uuids r = map dk_uuid (st_disks (pl_sets (tp_pools t ! p) ! s)))"
proof -
  let ?c = "buckets_placement_compute multidisk st' (Some t) (Some bucket) (Some object)"
  obtain p s where ps:
    "placed (pm_siphash_k0 st) (pm_siphash_k1 st) (active_sets t) (placement_object_hash st bucket object) = (p, s)"
    by fastforce
  note f = compute_fails_iff [OF assms ps]
  have a: "p < length (tp_pools t)" "s < length (pl_sets (tp_pools t ! p))" "st_state (pl_sets (tp_pools t ! p) ! s) = SET_STATE_ACTIVE"
    using f(1) by (auto simp: active_sets_mem set_active_def)
  show ?thesis
  proof (cases ?c)
    case None
    then show ?thesis using a f(2) [of multidisk] by auto
  next
    case (Some r)
    then show ?thesis using a f(2) [of multidisk] f(3) [OF Some] compute_position(2-5) [OF Some] by auto
  qed
qed

abbreviation placement_topology :: buckets_cluster_topology where
  "placement_topology \<equiv>
    \<lparr>tp_version = 1, tp_generation = 5, tp_deployment_id = ''d-1'', tp_vnode_factor = 150,
     tp_pools = [\<lparr>pl_idx = 0, pl_sets =
       [\<lparr>st_idx = 0, st_state = SET_STATE_ACTIVE,
         st_disks = [\<lparr>dk_endpoint = ''http://n1:9000/d1'', dk_uuid = ''u1'', dk_capacity = 42\<rparr>]\<rparr>,
        \<lparr>st_idx = 1, st_state = SET_STATE_ACTIVE,
         st_disks = [\<lparr>dk_endpoint = '''', dk_uuid = ''u2'', dk_capacity = 42\<rparr>]\<rparr>]\<rparr>]\<rparr>"

abbreviation placement_start :: placement_state where
  "placement_start \<equiv> \<lparr>pm_initialized = True, pm_siphash_k0 = 3, pm_siphash_k1 = 4, pm_hash_ring = [],
                      pm_current_generation = 0\<rparr>"

lemma placement_example:
  "active_sets placement_topology = [(0, 0), (0, 1)]"
  "disks_known (\<lambda>_. [''/mnt/2'']) placement_topology"
  by (simp_all add: active_sets_def disks_known_def set_disks_known_def)

theorem placement_on_active_set_witness:
  "\<exists>r. buckets_placement_compute (\<lambda>_. [''/mnt/2'']) (snd (build_hash_ring placement_start (Some placement_topology)))
         (Some placement_topology) (Some ''b'') (Some ''o'') = Some r \<and> pr_state r = SET_STATE_ACTIVE"
proof -
  have "build_hash_ring placement_start (Some placement_topology) =
      (0, snd (build_hash_ring placement_start (Some placement_topology)))"
    by (simp add: build_hash_ring_def placement_example)
  note placed = placement_on_active_set [OF this, of "\<lambda>_. [''/mnt/2'']" "''b''" "''o''"]
  have k: "set_disks_known (\<lambda>_. [''/mnt/2'']) placement_topology p s"
    if "p < length (tp_pools placement_topology)" "s < length (pl_sets (tp_pools placement_topology ! p))" for p s
    using that by (auto simp: set_disks_known_def less_Suc_eq)
  show ?thesis using placed k by (fastforce split: option.splits)
qed

text \<open>C25: taking one set out of service moves only the objects that were on it.  With rings
  built before and after a set is marked as draining or removed, an object that another set served
  stays on that set.\<close>

theorem placement_drain_minimal:
  assumes "buckets_topology_set_state t (int p) (int s) x = (BUCKETS_OK, t')" "x \<noteq> SET_STATE_ACTIVE"
    and "build_hash_ring st (Some t) = (0, st1)" "build_hash_ring st (Some t') = (0, st2)"
    and "buckets_placement_compute multidisk st1 (Some t) (Some bucket) (Some object) = Some r"
    and "buckets_placement_compute multidisk st2 (Some t') (Some bucket) (Some object) = Some r'"
    and "(pr_pool_idx r, pr_set_idx r) \<noteq> (p, s)"
  shows "(pr_pool_idx r', pr_set_idx r') = (pr_pool_idx r, pr_set_idx r)"
proof -
  note b1 = build_ring_ok [OF assms(3)] and b2 = build_ring_ok [OF assms(4)]
  have h: "placement_object_hash st1 bucket object = placement_object_hash st2 bucket object"
    using b1 b2 by (simp add: placement_object_hash_def)
  note r = compute_position(1) [OF assms(5)] and r' = compute_position(1) [OF assms(6)]
  show ?thesis
    using placed_leave [OF b1(1), of "pm_siphash_k0 st" "pm_siphash_k1 st"
        "placement_object_hash st2 bucket object" "(p, s)"] assms(7)
      active_sets_leave [OF assms(1,2)] r r' h b1(2) b2(2) by simp
qed

text \<open>C26: putting a new set into service moves objects only to it.  With rings built before
  and after a set is added to a pool, an object is served by the new set or by the set that served
  it before.\<close>

theorem placement_add_minimal:
  assumes "buckets_topology_add_set t (int p) (Some ds) = (BUCKETS_OK, t')"
    and "build_hash_ring st (Some t) = (0, st1)" "build_hash_ring st (Some t') = (0, st2)"
    and "buckets_placement_compute multidisk st1 (Some t) (Some bucket) (Some object) = Some r"
    and "buckets_placement_compute multidisk st2 (Some t') (Some bucket) (Some object) = Some r'"
  shows "(pr_pool_idx r', pr_set_idx r') \<in>
           {(p, length (pl_sets (tp_pools t ! p))), (pr_pool_idx r, pr_set_idx r)}"
proof -
  note b1 = build_ring_ok [OF assms(2)] and b2 = build_ring_ok [OF assms(3)]
  have h: "placement_object_hash st1 bucket object = placement_object_hash st2 bucket object"
    using b1 b2 by (simp add: placement_object_hash_def)
  note r = compute_position(1) [OF assms(4)] and r' = compute_position(1) [OF assms(5)]
  let ?q = "(p, length (pl_sets (tp_pools t ! p)))"
  note j = active_sets_join [OF assms(1)]
  have "filter (\<lambda>a. a \<noteq> ?q) (active_sets t') \<noteq> []" using b1(1) j by simp
  from placed_join [OF this, of "pm_siphash_k0 st" "pm_siphash_k1 st" "placement_object_hash st2 bucket object"]
  show ?thesis
    unfolding r r' b1(2) b2(2) h j [symmetric] by blast
qed

lemma placement_example_drain:
  assumes "s \<in> {0, 1}"
  shows "\<exists>t'. buckets_topology_set_state placement_topology (int 0) (int s) SET_STATE_DRAINING = (BUCKETS_OK, t') \<and>
     active_sets t' = [(0, 1 - s)] \<and> disks_known (\<lambda>_. [''/mnt/2'']) t'"
  using assms by (auto simp: buckets_topology_set_state_def active_sets_def disks_known_def set_disks_known_def)

abbreviation placement_new_disk :: buckets_disk_info where
  "placement_new_disk \<equiv> \<lparr>dk_endpoint = ''/x'', dk_uuid = ''u3'', dk_capacity = 1\<rparr>"

lemma placement_example_add:
  "\<exists>t'. buckets_topology_add_set placement_topology (int 0) (Some [placement_new_disk]) = (BUCKETS_OK, t') \<and>
     active_sets t' = [(0, 0), (0, 1), (0, 2)] \<and> disks_known (\<lambda>_. [''/mnt/2'']) t'"
  by (simp add: buckets_topology_add_set_def active_sets_def disks_known_def set_disks_known_def)

lemma placement_example_compute:
  assumes "active_sets t \<noteq> []" "disks_known (\<lambda>_. [''/mnt/2'']) t"
  obtains st r where "build_hash_ring placement_start (Some t) = (0, st)"
    "buckets_placement_compute (\<lambda>_. [''/mnt/2'']) st (Some t) (Some ''b'') (Some ''o'') = Some r"
    "(pr_pool_idx r, pr_set_idx r) \<in> set (active_sets t)"
proof -
  have "build_hash_ring placement_start (Some t) = (0, snd (build_hash_ring placement_start (Some t)))"
    using assms(1) by (simp add: build_hash_ring_def)
  then show ?thesis
    using compute_on_active [OF _ _ assms(2)] that placed_in [OF assms(1)] by fastforce
qed

theorem placement_drain_minimal_witness:
  "\<exists>s t' st1 st2 r r'.
     buckets_topology_set_state placement_topology (int 0) (int s) SET_STATE_DRAINING = (BUCKETS_OK, t') \<and>
     build_hash_ring placement_start (Some placement_topology) = (0, st1) \<and>
     build_hash_ring placement_start (Some t') = (0, st2) \<and>
     buckets_placement_compute (\<lambda>_. [''/mnt/2'']) st1 (Some placement_topology) (Some ''b'') (Some ''o'') = Some r \<and>
     buckets_placement_compute (\<lambda>_. [''/mnt/2'']) st2 (Some t') (Some ''b'') (Some ''o'') = Some r' \<and>
     (pr_pool_idx r, pr_set_idx r) \<noteq> (0, s) \<and>
     (pr_pool_idx r', pr_set_idx r') = (pr_pool_idx r, pr_set_idx r)"
proof -
  obtain st1 r where r: "build_hash_ring placement_start (Some placement_topology) = (0, st1)"
    "buckets_placement_compute (\<lambda>_. [''/mnt/2'']) st1 (Some placement_topology) (Some ''b'') (Some ''o'') = Some r"
    "(pr_pool_idx r, pr_set_idx r) \<in> set (active_sets placement_topology)"
    by (rule placement_example_compute [OF _ placement_example(2)]) (simp add: placement_example(1))
  define s where "s = 1 - pr_set_idx r"
  have s: "s \<in> {0, 1}" "(pr_pool_idx r, pr_set_idx r) \<noteq> (0, s)"
    using r(3) by (auto simp: placement_example(1) s_def)
  obtain t' where t': "buckets_topology_set_state placement_topology (int 0) (int s) SET_STATE_DRAINING = (BUCKETS_OK, t')"
    "active_sets t' \<noteq> []" "disks_known (\<lambda>_. [''/mnt/2'']) t'"
    using placement_example_drain [OF s(1)] by auto
  obtain st2 r' where r': "build_hash_ring placement_start (Some t') = (0, st2)"
    "buckets_placement_compute (\<lambda>_. [''/mnt/2'']) st2 (Some t') (Some ''b'') (Some ''o'') = Some r'"
    "(pr_pool_idx r', pr_set_idx r') \<in> set (active_sets t')"
    by (rule placement_example_compute [OF t'(2,3)])
  have "(pr_pool_idx r', pr_set_idx r') = (pr_pool_idx r, pr_set_idx r)"
    by (rule placement_drain_minimal [OF t'(1) _ r(1) r'(1) r(2) r'(2) s(2)]) simp
  then show ?thesis using t'(1) r(1,2) r' s(2) by blast
qed

theorem placement_add_minimal_witness:
  "\<exists>t' st1 st2 r r'.
     buckets_topology_add_set placement_topology (int 0) (Some [placement_new_disk]) = (BUCKETS_OK, t') \<and>
     build_hash_ring placement_start (Some placement_topology) = (0, st1) \<and>
     build_hash_ring placement_start (Some t') = (0, st2) \<and>
     buckets_placement_compute (\<lambda>_. [''/mnt/2'']) st1 (Some placement_topology) (Some ''b'') (Some ''o'') = Some r \<and>
     buckets_placement_compute (\<lambda>_. [''/mnt/2'']) st2 (Some t') (Some ''b'') (Some ''o'') = Some r' \<and>
     (pr_pool_idx r', pr_set_idx r') \<in> {(0, 2), (pr_pool_idx r, pr_set_idx r)}"
proof -
  obtain st1 r where r: "build_hash_ring placement_start (Some placement_topology) = (0, st1)"
    "buckets_placement_compute (\<lambda>_. [''/mnt/2'']) st1 (Some placement_topology) (Some ''b'') (Some ''o'') = Some r"
    "(pr_pool_idx r, pr_set_idx r) \<in> set (active_sets placement_topology)"
    by (rule placement_example_compute [OF _ placement_example(2)]) (simp add: placement_example(1))
  obtain t' where t': "buckets_topology_add_set placement_topology (int 0) (Some [placement_new_disk]) = (BUCKETS_OK, t')"
    "active_sets t' \<noteq> []" "disks_known (\<lambda>_. [''/mnt/2'']) t'"
    using placement_example_add by auto
  obtain st2 r' where r': "build_hash_ring placement_start (Some t') = (0, st2)"
    "buckets_placement_compute (\<lambda>_. [''/mnt/2'']) st2 (Some t') (Some ''b'') (Some ''o'') = Some r'"
    "(pr_pool_idx r', pr_set_idx r') \<in> set (active_sets t')"
    by (rule placement_example_compute [OF t'(2,3)])
  have "length (pl_sets (tp_pools placement_topology ! 0)) = 2" by simp
  then have "(pr_pool_idx r', pr_set_idx r') \<in> {(0, 2), (pr_pool_idx r, pr_set_idx r)}"
    using placement_add_minimal [OF t'(1) r(1) r'(1) r(2) r'(2)] by (simp add: numeral_2_eq_2)
  then show ?thesis using t'(1) r r' by blast
qed

end
