(* ===== verification/Lru_List.thy ===== *)
theory Lru_List
  imports Buckets_Prelude
begin

text \<open>
  Pointer structures of the caches.  \<open>path\<close> follows a field from a pointer through a list of
  cells; a doubly linked recency list is a path forwards and a path backwards over the same
  cells.  The two operations on it, unlinking a cell and linking one at the head, are those
  of \<^verbatim>\<open>src/src/registry/registry.c\<close> and, under other names, of
  \<^verbatim>\<open>src/src/storage/metadata_cache.c\<close>.
\<close>

section \<open>Paths\<close>

type_synonym ptr = nat

primrec path :: "(ptr \<Rightarrow> ptr option) \<Rightarrow> ptr option \<Rightarrow> ptr list \<Rightarrow> ptr option \<Rightarrow> bool" where
  "path h r [] q \<longleftrightarrow> r = q"
| "path h r (p # ps) q \<longleftrightarrow> r = Some p \<and> path h (h p) ps q"

definition first :: "'a list \<Rightarrow> 'a option" where
  "first xs = (case xs of [] \<Rightarrow> None | x # _ \<Rightarrow> Some x)"

lemma first_simps [simp]: "first [] = None" "first (x # xs) = Some x"
  by (simp_all add: first_def)

lemma first_append: "first (xs @ ys) = (if xs = [] then first ys else first xs)"
  by (cases xs) auto

lemma path_append: "path h r (as @ bs) q \<longleftrightarrow> (\<exists>m. path h r as m \<and> path h m bs q)"
  by (induction as arbitrary: r) auto

lemma path_upd [simp]: "p \<notin> set ps \<Longrightarrow> path (h(p := x)) r ps q = path h r ps q"
  by (induction ps arbitrary: r) auto

lemma path_cong: "(\<And>p. p \<in> set ps \<Longrightarrow> h p = h' p) \<Longrightarrow> path h r ps q = path h' r ps q"
  by (induction ps arbitrary: r) auto

lemma path_first: "path h r ps None \<Longrightarrow> r = first ps"
  by (cases ps) auto

lemma path_at: "path h r (as @ x # bs) None \<Longrightarrow> h x = first bs"
  by (auto simp: path_append dest: path_first)

text \<open>Unlinking a cell: its predecessor, or the root, takes over its successor.\<close>

lemma path_unlink:
  assumes "path h r (as @ x # bs) None" "distinct (as @ x # bs)"
  shows "as = [] \<Longrightarrow> path h (h x) (as @ bs) None"
    "as \<noteq> [] \<Longrightarrow> path (h(last as := h x)) r (as @ bs) None"
proof -
  have x: "path h (h x) bs None" using assms(1) by (auto simp: path_append)
  then show "as = [] \<Longrightarrow> path h (h x) (as @ bs) None" by simp
  assume "as \<noteq> []"
  then obtain cs p where as: "as = cs @ [p]" by (metis rev_exhaust)
  have "path h r cs (Some p)" using assms(1) by (auto simp: as path_append)
  then show "path (h(last as := h x)) r (as @ bs) None"
    using assms(2) x by (auto simp: as path_append)
qed

section \<open>The recency list\<close>

record lru_links =
  lru_prev :: "ptr \<Rightarrow> ptr option"
  lru_next :: "ptr \<Rightarrow> ptr option"
  lru_head :: "ptr option"
  lru_tail :: "ptr option"

definition cache_lru_remove :: "ptr \<Rightarrow> lru_links \<Rightarrow> lru_links" where
  "cache_lru_remove e l =
    (let l = (case lru_prev l e of
                Some p \<Rightarrow> l\<lparr>lru_next := (lru_next l)(p := lru_next l e)\<rparr>
              | None \<Rightarrow> l\<lparr>lru_head := lru_next l e\<rparr>);
         l = (case lru_next l e of
                Some n \<Rightarrow> l\<lparr>lru_prev := (lru_prev l)(n := lru_prev l e)\<rparr>
              | None \<Rightarrow> l\<lparr>lru_tail := lru_prev l e\<rparr>)
     in l\<lparr>lru_prev := (lru_prev l)(e := None), lru_next := (lru_next l)(e := None)\<rparr>)"

definition cache_lru_add_head :: "ptr \<Rightarrow> lru_links \<Rightarrow> lru_links" where
  "cache_lru_add_head e l =
    (let l = l\<lparr>lru_prev := (lru_prev l)(e := None), lru_next := (lru_next l)(e := lru_head l)\<rparr>;
         l = (case lru_head l of
                Some h \<Rightarrow> l\<lparr>lru_prev := (lru_prev l)(h := Some e)\<rparr>
              | None \<Rightarrow> l\<lparr>lru_tail := Some e\<rparr>)
     in l\<lparr>lru_head := Some e\<rparr>)"

definition lru_empty :: lru_links where
  "lru_empty = \<lparr>lru_prev = (\<lambda>_. None), lru_next = (\<lambda>_. None), lru_head = None, lru_tail = None\<rparr>"

text \<open>The cells of a recency list, most recent first.\<close>

definition dll :: "lru_links \<Rightarrow> ptr list \<Rightarrow> bool" where
  "dll l ps \<longleftrightarrow> distinct ps \<and> path (lru_next l) (lru_head l) ps None \<and>
                path (lru_prev l) (lru_tail l) (rev ps) None"

lemma dll_empty [simp]: "dll lru_empty []"
  by (simp add: dll_def lru_empty_def)

lemma dll_tail: "dll l ps \<Longrightarrow> lru_tail l = (if ps = [] then None else Some (last ps))"
  by (cases ps rule: rev_cases) (auto simp: dll_def)

lemma first_rev: "first (rev xs) = (if xs = [] then None else Some (last xs))"
  by (cases xs rule: rev_cases) auto

lemma dll_remove:
  assumes "dll l ps" "e \<in> set ps"
  shows "dll (cache_lru_remove e l) (remove1 e ps)"
proof -
  obtain as bs where ps: "ps = as @ e # bs" using assms(2) by (meson split_list)
  have d: "distinct (as @ e # bs)" "path (lru_next l) (lru_head l) (as @ e # bs) None"
    "path (lru_prev l) (lru_tail l) (rev bs @ e # rev as) None"
    using assms(1) by (simp_all add: dll_def ps)
  have r: "remove1 e ps = as @ bs" using d(1) by (simp add: ps remove1_append)
  have nx: "lru_next l e = first bs" and pv: "lru_prev l e = first (rev as)"
    using path_at [OF d(2)] path_at [OF d(3)] by simp_all
  have d': "distinct (rev bs @ e # rev as)" using d(1) by auto
  note un = path_unlink [OF d(2,1)] and up = path_unlink [OF d(3) d']
  have e: "e \<notin> set as" "e \<notin> set bs" using d(1) by auto
  show ?thesis
  proof (cases "as = []"; cases "bs = []")
    assume "as = []" "bs = []"
    then show ?thesis
      using nx pv by (simp add: r dll_def cache_lru_remove_def)
  next
    assume c: "as = []" "bs \<noteq> []"
    then obtain b cs where b: "bs = b # cs" by (cases bs) auto
    have "first bs = Some b" "last (rev bs) = b" by (simp_all add: b)
    then show ?thesis
      using c nx pv un(1) up(2) d e by (simp add: r dll_def cache_lru_remove_def)
  next
    assume c: "as \<noteq> []" "bs = []"
    have "last as \<noteq> e" using c e by (metis last_in_set)
    with c show ?thesis
      using nx pv un(2) up(1) d e by (simp add: r dll_def cache_lru_remove_def first_rev)
  next
    assume c: "as \<noteq> []" "bs \<noteq> []"
    then obtain b cs where b: "bs = b # cs" by (cases bs) auto
    have la: "last as \<noteq> e" using c e by (metis last_in_set)
    have "first bs = Some b" "last (rev bs) = b" "b \<noteq> e" using e by (simp_all add: b)
    then show ?thesis
      using c nx pv un(2) up(2) d e la by (simp add: r dll_def cache_lru_remove_def first_rev)
  qed
qed

lemma dll_add_head:
  assumes "dll l ps" "e \<notin> set ps"
  shows "dll (cache_lru_add_head e l) (e # ps)"
proof (cases ps)
  case Nil
  then show ?thesis using assms by (simp add: dll_def cache_lru_add_head_def)
next
  case (Cons h qs)
  have "path (lru_prev l) (lru_tail l) (rev qs) (Some h)" "distinct (h # qs)"
    using assms(1) by (auto simp: dll_def Cons path_append)
  then show ?thesis
    using assms by (auto simp: dll_def Cons cache_lru_add_head_def path_append)
qed

end
