(* ===== verification/Registry_Cache.thy ===== *)
theory Registry_Cache
  imports Lru_List XXHash
begin

text \<open>
  The location cache of the registry, \<^verbatim>\<open>src/src/registry/registry.c\<close>: a hash table with
  chaining whose entries are also on a recency list.  Entries live in a heap of addresses
  and are allocated and freed as the code does it; following a pointer to a freed entry is
  \<open>Undefined\<close>.  The recency pointers of the entries are kept beside the heap, in the record
  of theory \<open>Lru_List\<close>.  The theory shows that the pointer structure implements a list of
  entries in order of recency, with the oldest dropped when the cache is full.
\<close>

section \<open>Data\<close>

record buckets_object_location =
  ol_bucket :: "string option"
  ol_object :: "string option"
  ol_version_id :: "string option"
  ol_pool_idx :: u32
  ol_set_idx :: u32
  ol_disk_count :: u32
  ol_disk_idxs :: "u32 list"
  ol_generation :: u64
  ol_mod_time :: int
  ol_size :: u64

record registry_cache_entry =
  ce_key :: string
  ce_location :: buckets_object_location
  ce_expiry :: int
  ce_next :: "ptr option"

text \<open>\<open>rc_fresh\<close> is the address the allocator hands out next; it bounds the addresses in
  use, and with them the length of a chain.\<close>

record registry_cache =
  rc_heap :: "ptr \<Rightarrow> registry_cache_entry option"
  rc_fresh :: ptr
  rc_buckets :: "ptr option list"
  rc_entry_count :: u32
  rc_max_entries :: u32
  rc_ttl_seconds :: u32
  rc_lru :: lru_links
  rc_hits :: u64
  rc_misses :: u64
  rc_evictions :: u64

section \<open>Operations\<close>

definition cache_hash :: "string \<Rightarrow> nat \<Rightarrow> nat" where
  "cache_hash key bucket_count =
     unat (buckets_xxhash64 0 (Some (str_bytes key)) mod of_nat bucket_count)"

definition cache_create :: "u32 \<Rightarrow> u32 \<Rightarrow> registry_cache" where
  "cache_create max_entries ttl_seconds =
    (let bucket_count = (max_entries div 10) OR 1
     in \<lparr>rc_heap = (\<lambda>_. None), rc_fresh = 0, rc_buckets = replicate (unat bucket_count) None,
         rc_entry_count = 0, rc_max_entries = max_entries, rc_ttl_seconds = ttl_seconds,
         rc_lru = lru_empty, rc_hits = 0, rc_misses = 0, rc_evictions = 0\<rparr>)"

text \<open>The loops over a chain.  The result is the entry that passes the test together with the
  cell whose \<^verbatim>\<open>next\<close> points to it, \<open>None\<close> standing for the bucket itself; that pair is what
  the code's \<^verbatim>\<open>curr\<close> points to.  The number bounds the steps: a chain has at most \<open>rc_fresh\<close>
  cells.\<close>

fun chain_seek ::
  "(ptr \<Rightarrow> registry_cache_entry option) \<Rightarrow> (ptr \<Rightarrow> registry_cache_entry \<Rightarrow> bool) \<Rightarrow> nat
     \<Rightarrow> ptr option \<Rightarrow> ptr option \<Rightarrow> (ptr option \<times> ptr) option outcome" where
  "chain_seek h test n prev None = Ok None"
| "chain_seek h test 0 prev (Some p) = Undefined"
| "chain_seek h test (Suc n) prev (Some p) =
    (case h p of
       None \<Rightarrow> Undefined
     | Some e \<Rightarrow> if test p e then Ok (Some (prev, p)) else chain_seek h test n (Some p) (ce_next e))"

text \<open>\<^verbatim>\<open>*curr = v\<close>.\<close>

definition chain_store :: "nat \<Rightarrow> ptr option \<Rightarrow> ptr option \<Rightarrow> registry_cache \<Rightarrow> registry_cache" where
  "chain_store idx prev v c =
    (case prev of
       None \<Rightarrow> c\<lparr>rc_buckets := (rc_buckets c)[idx := v]\<rparr>
     | Some q \<Rightarrow> c\<lparr>rc_heap := (rc_heap c)(q := map_option (ce_next_update (\<lambda>_. v)) (rc_heap c q))\<rparr>)"

definition cache_find ::
  "(ptr \<Rightarrow> registry_cache_entry \<Rightarrow> bool) \<Rightarrow> nat \<Rightarrow> registry_cache \<Rightarrow> (ptr option \<times> ptr) option outcome" where
  "cache_find test idx c = chain_seek (rc_heap c) test (rc_fresh c) None (rc_buckets c ! idx)"

text \<open>Taking an entry out of its chain and off the recency list, and freeing it.\<close>

definition cache_detach :: "nat \<Rightarrow> ptr option \<Rightarrow> ptr \<Rightarrow> registry_cache \<Rightarrow> registry_cache" where
  "cache_detach idx prev p c =
    (let c = chain_store idx prev (Option.bind (rc_heap c p) ce_next) c;
         c = c\<lparr>rc_lru := cache_lru_remove p (rc_lru c)\<rparr>;
         c = c\<lparr>rc_entry_count := rc_entry_count c - 1\<rparr>
     in c\<lparr>rc_heap := (rc_heap c)(p := None)\<rparr>)"

definition cache_evict_lru :: "registry_cache \<Rightarrow> registry_cache outcome" where
  "cache_evict_lru c =
    (case lru_tail (rc_lru c) of
       None \<Rightarrow> Ok c
     | Some victim \<Rightarrow>
       (case rc_heap c victim of
          None \<Rightarrow> Undefined
        | Some v \<Rightarrow>
          let bucket_idx = cache_hash (ce_key v) (length (rc_buckets c)) in
          case cache_find (\<lambda>p _. p = victim) bucket_idx c of
            Ok (Some (prev, p)) \<Rightarrow> Ok ((cache_detach bucket_idx prev victim c)\<lparr>rc_evictions := rc_evictions c + 1\<rparr>)
          | Ok None \<Rightarrow> Ok (c\<lparr>rc_lru := cache_lru_remove victim (rc_lru c),
                           rc_entry_count := rc_entry_count c - 1,
                           rc_evictions := rc_evictions c + 1,
                           rc_heap := (rc_heap c)(victim := None)\<rparr>)
          | _ \<Rightarrow> Undefined))"

text \<open>\<^verbatim>\<open>cache_get\<close> in its two critical sections: the search under the read lock, and the move
  to the head of the recency list under the write lock.\<close>

definition cache_get_read ::
  "int \<Rightarrow> registry_cache \<Rightarrow> string \<Rightarrow> ((ptr \<times> buckets_object_location) option \<times> registry_cache) outcome" where
  "cache_get_read now c key =
    (case cache_find (\<lambda>_ e. ce_key e = key) (cache_hash key (length (rc_buckets c))) c of
       Ok None \<Rightarrow> Ok (None, c\<lparr>rc_misses := rc_misses c + 1\<rparr>)
     | Ok (Some (_, p)) \<Rightarrow>
       (case rc_heap c p of
          None \<Rightarrow> Undefined
        | Some e \<Rightarrow>
          if ce_expiry e < now then Ok (None, c\<lparr>rc_misses := rc_misses c + 1\<rparr>)
          else Ok (Some (p, ce_location e), c\<lparr>rc_hits := rc_hits c + 1\<rparr>))
     | _ \<Rightarrow> Undefined)"

definition cache_touch :: "ptr \<Rightarrow> registry_cache \<Rightarrow> registry_cache outcome" where
  "cache_touch p c =
    (case rc_heap c p of
       None \<Rightarrow> Undefined
     | Some _ \<Rightarrow> Ok (c\<lparr>rc_lru := cache_lru_add_head p (cache_lru_remove p (rc_lru c))\<rparr>))"

definition cache_get ::
  "int \<Rightarrow> registry_cache \<Rightarrow> string \<Rightarrow> (buckets_object_location option \<times> registry_cache) outcome" where
  "cache_get now c key =
    (case cache_get_read now c key of
       Ok (None, c) \<Rightarrow> Ok (None, c)
     | Ok (Some (p, result), c) \<Rightarrow>
       (case cache_touch p c of Ok c \<Rightarrow> Ok (Some result, c) | _ \<Rightarrow> Undefined)
     | _ \<Rightarrow> Undefined)"

text \<open>The end of \<^verbatim>\<open>cache_put\<close>: a new entry at the front of its chain and of the recency list.\<close>

definition cache_insert :: "int \<Rightarrow> nat \<Rightarrow> string \<Rightarrow> buckets_object_location \<Rightarrow> registry_cache \<Rightarrow> registry_cache" where
  "cache_insert now bucket_idx key location c =
    (let p = rc_fresh c;
         e = \<lparr>ce_key = key, ce_location = location, ce_expiry = now + uint (rc_ttl_seconds c),
              ce_next = rc_buckets c ! bucket_idx\<rparr>
     in c\<lparr>rc_heap := (rc_heap c)(p \<mapsto> e), rc_fresh := p + 1,
          rc_buckets := (rc_buckets c)[bucket_idx := Some p],
          rc_lru := cache_lru_add_head p (rc_lru c),
          rc_entry_count := rc_entry_count c + 1\<rparr>)"

definition cache_put ::
  "int \<Rightarrow> registry_cache \<Rightarrow> string \<Rightarrow> buckets_object_location \<Rightarrow> registry_cache outcome" where
  "cache_put now c key location =
    (let bucket_idx = cache_hash key (length (rc_buckets c)) in
     case cache_find (\<lambda>_ e. ce_key e = key) bucket_idx c of
       Ok (Some (_, p)) \<Rightarrow>
         cache_touch p
          (c\<lparr>rc_heap := (rc_heap c)(p := map_option
               (\<lambda>e. e\<lparr>ce_location := location, ce_expiry := now + uint (rc_ttl_seconds c)\<rparr>) (rc_heap c p))\<rparr>)
     | Ok None \<Rightarrow>
         (case (if rc_max_entries c \<le> rc_entry_count c then cache_evict_lru c else Ok c) of
            Ok c \<Rightarrow> Ok (cache_insert now bucket_idx key location c)
          | _ \<Rightarrow> Undefined)
     | _ \<Rightarrow> Undefined)"

definition cache_invalidate :: "registry_cache \<Rightarrow> string \<Rightarrow> (bool \<times> registry_cache) outcome" where
  "cache_invalidate c key =
    (let bucket_idx = cache_hash key (length (rc_buckets c)) in
     case cache_find (\<lambda>_ e. ce_key e = key) bucket_idx c of
       Ok (Some (prev, p)) \<Rightarrow> Ok (True, cache_detach bucket_idx prev p c)
     | Ok None \<Rightarrow> Ok (False, c)
     | _ \<Rightarrow> Undefined)"

fun chain_free ::
  "nat \<Rightarrow> ptr option \<Rightarrow> (ptr \<Rightarrow> registry_cache_entry option) \<Rightarrow> (ptr \<Rightarrow> registry_cache_entry option) outcome" where
  "chain_free n None h = Ok h"
| "chain_free 0 (Some p) h = Undefined"
| "chain_free (Suc n) (Some p) h =
    (case h p of None \<Rightarrow> Undefined | Some e \<Rightarrow> chain_free n (ce_next e) (h(p := None)))"

fun chains_free ::
  "nat \<Rightarrow> ptr option list \<Rightarrow> (ptr \<Rightarrow> registry_cache_entry option) \<Rightarrow> (ptr \<Rightarrow> registry_cache_entry option) outcome" where
  "chains_free n [] h = Ok h"
| "chains_free n (b # bs) h = (case chain_free n b h of Ok h \<Rightarrow> chains_free n bs h | _ \<Rightarrow> Undefined)"

definition cache_clear :: "registry_cache \<Rightarrow> registry_cache outcome" where
  "cache_clear c =
    (case chains_free (rc_fresh c) (rc_buckets c) (rc_heap c) of
       Ok h \<Rightarrow> Ok (c\<lparr>rc_heap := h, rc_buckets := map (\<lambda>_. None) (rc_buckets c), rc_entry_count := 0,
                     rc_lru := (rc_lru c)\<lparr>lru_head := None, lru_tail := None\<rparr>\<rparr>)
     | _ \<Rightarrow> Undefined)"

section \<open>The pointer structure\<close>

definition next_of :: "(ptr \<Rightarrow> registry_cache_entry option) \<Rightarrow> ptr \<Rightarrow> ptr option" where
  "next_of h p = Option.bind (h p) ce_next"

definition key_of :: "(ptr \<Rightarrow> registry_cache_entry option) \<Rightarrow> ptr \<Rightarrow> string" where
  "key_of h p = ce_key (the (h p))"

type_synonym lru_item = "string \<times> buckets_object_location \<times> int"

definition item_of :: "(ptr \<Rightarrow> registry_cache_entry option) \<Rightarrow> ptr \<Rightarrow> lru_item" where
  "item_of h p = (ce_key (the (h p)), ce_location (the (h p)), ce_expiry (the (h p)))"

text \<open>The cells of one chain, and the table as a whole: bucket \<open>i\<close> leads through exactly the
  live cells whose key hashes to \<open>i\<close>.\<close>

definition chain :: "(ptr \<Rightarrow> registry_cache_entry option) \<Rightarrow> ptr option list \<Rightarrow> nat \<Rightarrow> ptr list \<Rightarrow> bool" where
  "chain h bk i bs \<longleftrightarrow> path (next_of h) (bk ! i) bs None \<and> distinct bs \<and>
     set bs = {p \<in> dom h. cache_hash (key_of h p) (length bk) = i}"

definition chains_ok :: "(ptr \<Rightarrow> registry_cache_entry option) \<Rightarrow> ptr option list \<Rightarrow> bool" where
  "chains_ok h bk \<longleftrightarrow> (\<forall>i < length bk. \<exists>bs. chain h bk i bs)"

text \<open>The representation invariant, with the cells in order of recency.\<close>

definition cache_rep :: "registry_cache \<Rightarrow> ptr list \<Rightarrow> bool" where
  "cache_rep c ps \<longleftrightarrow>
     dll (rc_lru c) ps \<and> dom (rc_heap c) = set ps \<and> set ps \<subseteq> {..<rc_fresh c} \<and>
     unat (rc_entry_count c) = length ps \<and> length ps \<le> max 1 (unat (rc_max_entries c)) \<and>
     inj_on (key_of (rc_heap c)) (set ps) \<and>
     rc_buckets c \<noteq> [] \<and> length (rc_buckets c) < 2 ^ 32 \<and> chains_ok (rc_heap c) (rc_buckets c)"

lemma cache_hash_less: "0 < n \<Longrightarrow> n < 2 ^ 32 \<Longrightarrow> cache_hash key n < n"
  by (simp add: cache_hash_def unat_mod unat_of_nat take_bit_nat_eq_self)

lemma chain_seek_path:
  assumes "path (next_of h) r (as @ bs) None" "set (as @ bs) \<subseteq> dom h" "length (as @ bs) \<le> n"
    and "\<And>p. p \<in> set as \<Longrightarrow> \<not> test p (the (h p))" "\<And>x cs. bs = x # cs \<Longrightarrow> test x (the (h x))"
  shows "chain_seek h test n prev r =
    Ok (map_option (Pair (if as = [] then prev else Some (last as))) (first bs))"
  using assms
proof (induction as arbitrary: r n prev)
  case Nil
  then show ?case by (cases bs; cases n) (auto simp: next_of_def)
next
  case (Cons a as)
  obtain m where n: "n = Suc m" using Cons.prems(3) by (cases n) auto
  obtain e where e: "h a = Some e" using Cons.prems(2) by auto
  have "\<not> test a e" using Cons.prems(4) [of a] e by simp
  then have "chain_seek h test n prev r = chain_seek h test m (Some a) (ce_next e)"
    using Cons.prems(1) e by (simp add: n)
  also have "\<dots> = Ok (map_option (Pair (if as = [] then Some a else Some (last as))) (first bs))"
    using Cons.prems e by (intro Cons.IH) (auto simp: n next_of_def)
  finally show ?case by simp
qed

lemma chain_length: "chain h bk i bs \<Longrightarrow> dom h \<subseteq> {..<n} \<Longrightarrow> length bs \<le> n"
  by (metis (no_types, lifting) chain_def card_lessThan card_mono distinct_card finite_lessThan
      mem_Collect_eq subset_iff)

text \<open>The search for a key finds its cell or nothing.\<close>

lemma cache_find_none:
  assumes "chains_ok (rc_heap c) (rc_buckets c)" "dom (rc_heap c) \<subseteq> {..<rc_fresh c}"
    and "i < length (rc_buckets c)" "\<And>p e. rc_heap c p = Some e \<Longrightarrow> \<not> test p e"
  shows "cache_find test i c = Ok None"
proof -
  obtain bs where bs: "chain (rc_heap c) (rc_buckets c) i bs" using assms(1,3) by (auto simp: chains_ok_def)
  have "chain_seek (rc_heap c) test (rc_fresh c) None (rc_buckets c ! i) =
      Ok (map_option (Pair (if bs = [] then None else Some (last bs))) (first []))"
    using bs chain_length [OF bs assms(2)] assms(4)
    by (intro chain_seek_path) (auto simp: chain_def)
  then show ?thesis by (simp add: cache_find_def)
qed

lemma cache_find_some:
  assumes "chains_ok (rc_heap c) (rc_buckets c)" "dom (rc_heap c) \<subseteq> {..<rc_fresh c}"
    and "rc_heap c x = Some e" "i = cache_hash (ce_key e) (length (rc_buckets c))"
    and "i < length (rc_buckets c)" "\<And>p d. rc_heap c p = Some d \<Longrightarrow> test p d \<longleftrightarrow> p = x"
  obtains as bs where "chain (rc_heap c) (rc_buckets c) i (as @ x # bs)"
    "cache_find test i c = Ok (Some (if as = [] then None else Some (last as), x))"
proof -
  obtain cs where cs: "chain (rc_heap c) (rc_buckets c) i cs" using assms(1,5) by (auto simp: chains_ok_def)
  have "x \<in> set cs" using cs assms(3,4) by (auto simp: chain_def key_of_def)
  then obtain as bs where x: "cs = as @ x # bs" by (meson split_list)
  have "x \<notin> set as" "set cs \<subseteq> dom (rc_heap c)" using cs by (auto simp: chain_def x)
  then have "chain_seek (rc_heap c) test (rc_fresh c) None (rc_buckets c ! i) =
      Ok (map_option (Pair (if as = [] then None else Some (last as))) (first (x # bs)))"
    using cs chain_length [OF cs assms(2)] assms(3,6)
    by (intro chain_seek_path) (auto simp: chain_def x)
  with cs show ?thesis by (intro that) (simp_all add: x cache_find_def)
qed

lemma cache_detach_fields [simp]:
  "rc_lru (cache_detach i prev p c) = cache_lru_remove p (rc_lru c)"
  "rc_entry_count (cache_detach i prev p c) = rc_entry_count c - 1"
  "rc_fresh (cache_detach i prev p c) = rc_fresh c"
  "rc_max_entries (cache_detach i prev p c) = rc_max_entries c"
  "rc_ttl_seconds (cache_detach i prev p c) = rc_ttl_seconds c"
  "length (rc_buckets (cache_detach i prev p c)) = length (rc_buckets c)"
  by (simp_all add: cache_detach_def chain_store_def Let_def split: option.split)

lemma chain_other:
  assumes "chain h bk j cs" "dom h' = dom h - {x}" "bk' ! j = bk ! j" "length bk' = length bk"
    and "\<And>q. q \<in> dom h' \<Longrightarrow> key_of h' q = key_of h q"
    and "x \<notin> set cs" "\<And>q. q \<in> set cs \<Longrightarrow> next_of h' q = next_of h q"
  shows "chain h' bk' j cs"
proof -
  have "path (next_of h') (bk' ! j) cs None"
    using assms(1,3,7) path_cong [of cs "next_of h'" "next_of h"] by (simp add: chain_def)
  moreover have "set cs = {p \<in> dom h'. cache_hash (key_of h' p) (length bk') = j}"
  proof -
    have "set cs = set cs - {x}" using assms(6) by simp
    also have "\<dots> = {p \<in> dom h'. cache_hash (key_of h p) (length bk) = j}"
      using assms(1) unfolding assms(2) chain_def by blast
    also have "\<dots> = {p \<in> dom h'. cache_hash (key_of h' p) (length bk') = j}"
      by (rule Collect_cong, rule conj_cong) (simp_all add: assms(4,5))
    finally show ?thesis .
  qed
  ultimately show ?thesis using assms(1) by (simp add: chain_def)
qed

lemma cache_detach_chains:
  assumes "chain (rc_heap c) (rc_buckets c) i (as @ x # bs)" "chains_ok (rc_heap c) (rc_buckets c)"
    and "i < length (rc_buckets c)"
  defines "c' \<equiv> cache_detach i (if as = [] then None else Some (last as)) x c"
  shows "chains_ok (rc_heap c') (rc_buckets c')" "dom (rc_heap c') = dom (rc_heap c) - {x}"
    "\<And>q. q \<noteq> x \<Longrightarrow> item_of (rc_heap c') q = item_of (rc_heap c) q"
proof -
  let ?h = "rc_heap c" and ?h' = "rc_heap c'" and ?bk = "rc_buckets c" and ?bk' = "rc_buckets c'"
  have ch: "path (next_of ?h) (?bk ! i) (as @ x # bs) None" "distinct (as @ x # bs)"
    "set (as @ x # bs) = {p \<in> dom ?h. cache_hash (key_of ?h p) (length ?bk) = i}"
    using assms(1) by (simp_all add: chain_def)
  have la: "as \<noteq> [] \<Longrightarrow> last as \<in> set as \<and> last as \<noteq> x" using ch(2) by auto
  have xn: "p \<noteq> x" if "p \<in> set (as @ bs)" for p using that ch(2) by auto
  have dm: "\<And>p. p \<in> set (as @ x # bs) \<Longrightarrow> p \<in> dom ?h \<and> cache_hash (key_of ?h p) (length ?bk) = i"
    using ch(3) by auto
  have lad: "as \<noteq> [] \<Longrightarrow> \<exists>e. ?h (last as) = Some e" using dm [of "last as"] by auto
  have h': "?h' = (if as = [] then ?h else ?h(last as := map_option (ce_next_update (\<lambda>_. next_of ?h x)) (?h (last as))))(x := None)"
    and bk': "?bk' = (if as = [] then ?bk[i := next_of ?h x] else ?bk)"
    by (simp_all add: c'_def cache_detach_def chain_store_def Let_def next_of_def)
  show dom: "dom ?h' = dom ?h - {x}" using lad la by (auto simp: h' split: if_splits)
  show item: "item_of ?h' q = item_of ?h q" if "q \<noteq> x" for q
    using that lad la by (auto simp: h' item_of_def)
  have key: "key_of ?h' q = key_of ?h q" if "q \<in> dom ?h'" for q
    using item [of q] that dom by (auto simp: item_of_def key_of_def)
  have nx: "next_of ?h' q = (if as \<noteq> [] \<and> q = last as then next_of ?h x else next_of ?h q)" if "q \<noteq> x" for q
    using that lad by (auto simp: h' next_of_def)
  have "\<exists>cs. chain ?h' ?bk' j cs" if j: "j < length ?bk'" for j
  proof (cases "j = i")
    case True
    have "path (next_of ?h') (?bk' ! i) (as @ bs) None"
    proof (cases "as = []")
      case True
      then have "path (next_of ?h) (?bk' ! i) (as @ bs) None"
        using path_unlink(1) [OF ch(1,2)] assms(3) by (simp add: bk')
      moreover have "path (next_of ?h') r (as @ bs) None = path (next_of ?h) r (as @ bs) None" for r
        using xn nx True by (intro path_cong) simp
      ultimately show ?thesis by simp
    next
      case False
      have "path ((next_of ?h)(last as := next_of ?h x)) (?bk' ! i) (as @ bs) None"
        using path_unlink(2) [OF ch(1,2) False] False by (simp add: bk')
      moreover have "path (next_of ?h') r (as @ bs) None =
          path ((next_of ?h)(last as := next_of ?h x)) r (as @ bs) None" for r
        using xn nx False by (intro path_cong) simp
      ultimately show ?thesis by simp
    qed
    moreover have "set (as @ bs) = {p \<in> dom ?h'. cache_hash (key_of ?h' p) (length ?bk') = i}"
    proof -
      have "set (as @ bs) = set (as @ x # bs) - {x}" using ch(2) by auto
      also have "\<dots> = {p \<in> dom ?h'. cache_hash (key_of ?h p) (length ?bk) = i}"
        unfolding ch(3) dom by blast
      also have "\<dots> = {p \<in> dom ?h'. cache_hash (key_of ?h' p) (length ?bk') = i}"
        by (rule Collect_cong, rule conj_cong) (simp_all add: key bk')
      finally show ?thesis .
    qed
    ultimately have "chain ?h' ?bk' j (as @ bs)" using ch(2) True by (simp add: chain_def)
    then show ?thesis by blast
  next
    case False
    have l: "length ?bk' = length ?bk" by (simp add: bk')
    obtain cs where cs: "chain ?h ?bk j cs" using assms(2) j l by (auto simp: chains_ok_def)
    have out: "p \<notin> set cs" if "p \<in> set (as @ x # bs)" for p
      using cs dm [OF that] False by (auto simp: chain_def)
    have "chain ?h' ?bk' j cs"
    proof (rule chain_other [OF cs dom _ l key])
      show "?bk' ! j = ?bk ! j" using False by (simp add: bk')
      show "x \<notin> set cs" using out by simp
      show "next_of ?h' q = next_of ?h q" if q: "q \<in> set cs" for q
      proof -
        have "q \<noteq> x" using out [of x] q by auto
        moreover have "\<not> (as \<noteq> [] \<and> q = last as)" using out [of "last as"] q by auto
        ultimately show ?thesis using nx [of q] by (metis (full_types))
      qed
    qed
    then show ?thesis by blast
  qed
  then show "chains_ok ?h' ?bk'" by (simp add: chains_ok_def)
qed

lemma cache_insert_chains:
  assumes "chains_ok h bk" "h p = None" "i = cache_hash (ce_key e) (length bk)" "ce_next e = bk ! i"
    and "i < length bk"
  shows "chains_ok (h(p \<mapsto> e)) (bk[i := Some p])"
  unfolding chains_ok_def
proof (intro allI impI)
  let ?h = "h(p \<mapsto> e)" and ?bk = "bk[i := Some p]"
  fix j assume j: "j < length ?bk"
  obtain cs where cs: "path (next_of h) (bk ! j) cs None" "distinct cs"
    "set cs = {p \<in> dom h. cache_hash (key_of h p) (length bk) = j}"
    using assms(1) j by (auto simp: chains_ok_def chain_def)
  have p: "p \<notin> set cs" using assms(2) by (simp add: cs(3) domIff)
  have key: "key_of ?h q = (if q = p then ce_key e else key_of h q)" for q by (simp add: key_of_def)
  have dom: "dom ?h = insert p (dom h)" by auto
  have nx: "next_of ?h = (next_of h)(p := bk ! i)" using assms(4) by (auto simp: next_of_def)
  show "\<exists>cs. chain ?h ?bk j cs"
  proof (cases "j = i")
    case True
    have "set (p # cs) = {q \<in> dom ?h. cache_hash (key_of ?h q) (length ?bk) = j}"
      unfolding dom using True cs(3) assms(2,3) by (auto simp: key)
    then have "chain ?h ?bk j (p # cs)" using True cs p assms(5) by (simp add: chain_def nx)
    then show ?thesis by blast
  next
    case False
    have "set cs = {q \<in> dom ?h. cache_hash (key_of ?h q) (length ?bk) = j}"
      unfolding dom using False cs(3) assms(2,3) by (auto simp: key)
    then have "chain ?h ?bk j cs" using False cs p by (simp add: chain_def nx)
    then show ?thesis by blast
  qed
qed

lemma cache_update_chains:
  assumes "chains_ok h bk" "h p = Some e" "ce_key e' = ce_key e" "ce_next e' = ce_next e"
  shows "chains_ok (h(p \<mapsto> e')) bk"
proof -
  have "next_of (h(p \<mapsto> e')) = next_of h" "dom (h(p \<mapsto> e')) = dom h" "key_of (h(p \<mapsto> e')) = key_of h"
    using assms by (auto simp: next_of_def key_of_def fun_eq_iff)
  then show ?thesis using assms(1) by (simp add: chains_ok_def chain_def)
qed

section \<open>The list it implements\<close>

text \<open>What the cache means: its entries, most recently used first.\<close>

fun lru_walk :: "nat \<Rightarrow> (ptr \<Rightarrow> ptr option) \<Rightarrow> ptr option \<Rightarrow> ptr list" where
  "lru_walk n nx None = []"
| "lru_walk 0 nx (Some p) = []"
| "lru_walk (Suc n) nx (Some p) = p # lru_walk n nx (nx p)"

definition cache_items :: "registry_cache \<Rightarrow> lru_item list" where
  "cache_items c = map (item_of (rc_heap c)) (lru_walk (rc_fresh c) (lru_next (rc_lru c)) (lru_head (rc_lru c)))"

definition cache_wf :: "registry_cache \<Rightarrow> bool" where
  "cache_wf c \<longleftrightarrow> (\<exists>ps. cache_rep c ps)"

definition lru_drop :: "string \<Rightarrow> lru_item list \<Rightarrow> lru_item list" where
  "lru_drop key xs = filter (\<lambda>x. fst x \<noteq> key) xs"

definition lru_get :: "int \<Rightarrow> string \<Rightarrow> lru_item list \<Rightarrow> buckets_object_location option \<times> lru_item list" where
  "lru_get now key xs =
    (case map_of xs key of
       None \<Rightarrow> (None, xs)
     | Some (l, expiry) \<Rightarrow>
       if expiry < now then (None, xs) else (Some l, (key, l, expiry) # lru_drop key xs))"

definition lru_put :: "nat \<Rightarrow> string \<Rightarrow> buckets_object_location \<Rightarrow> int \<Rightarrow> lru_item list \<Rightarrow> lru_item list" where
  "lru_put limit key l expiry xs =
     (key, l, expiry) #
     (if key \<in> fst ` set xs then lru_drop key xs else if limit \<le> length xs then butlast xs else xs)"

lemma lru_walk_path: "path nx r ps None \<Longrightarrow> length ps \<le> n \<Longrightarrow> lru_walk n nx r = ps"
proof (induction ps arbitrary: r n)
  case (Cons p ps)
  then show ?case by (cases n) auto
qed simp

lemma cache_items_rep: "cache_rep c ps \<Longrightarrow> cache_items c = map (item_of (rc_heap c)) ps"
proof -
  assume r: "cache_rep c ps"
  have "length ps = card (set ps)" using r by (simp add: cache_rep_def dll_def distinct_card)
  also have "\<dots> \<le> rc_fresh c" using r card_mono [of "{..<rc_fresh c}" "set ps"] by (simp add: cache_rep_def)
  finally have "lru_walk (rc_fresh c) (lru_next (rc_lru c)) (lru_head (rc_lru c)) = ps"
    using r by (intro lru_walk_path) (simp_all add: cache_rep_def dll_def)
  then show ?thesis by (simp add: cache_items_def)
qed

lemma lru_drop_items:
  assumes "distinct ps" "inj_on (key_of h) (set ps)" "x \<in> set ps"
  shows "lru_drop (key_of h x) (map (item_of h) ps) = map (item_of h) (remove1 x ps)"
proof -
  have "filter (\<lambda>p. key_of h p \<noteq> key_of h x) ps = filter (\<lambda>p. p \<noteq> x) ps"
    using assms(2,3) by (intro filter_cong) (auto dest: inj_onD)
  then show ?thesis
    using assms(1) by (simp add: lru_drop_def filter_map comp_def item_of_def key_of_def distinct_remove1_removeAll
        removeAll_filter_not_eq)
       (metis (mono_tags, lifting))
qed

section \<open>Every operation keeps the representation\<close>

lemma cache_rep_props:
  assumes "cache_rep c ps"
  shows "chains_ok (rc_heap c) (rc_buckets c)" "dom (rc_heap c) \<subseteq> {..<rc_fresh c}" "distinct ps"
    "inj_on (key_of (rc_heap c)) (set ps)" "dom (rc_heap c) = set ps" "dll (rc_lru c) ps"
    "cache_hash key (length (rc_buckets c)) < length (rc_buckets c)"
  using assms cache_hash_less [of "length (rc_buckets c)" key] by (simp_all add: cache_rep_def dll_def)

lemma map_of_items_none:
  "map_of (map (item_of h) ps) key = None \<longleftrightarrow> (\<forall>p\<in>set ps. key_of h p \<noteq> key)"
  by (force simp: map_of_eq_None_iff item_of_def key_of_def)

lemma map_of_items_some:
  "distinct ps \<Longrightarrow> inj_on (key_of h) (set ps) \<Longrightarrow> x \<in> set ps \<Longrightarrow>
     map_of (map (item_of h) ps) (key_of h x) = Some (snd (item_of h x))"
  by (induction ps) (auto simp: item_of_def key_of_def inj_on_def)

text \<open>Moving a cell to the head of the recency list.\<close>

lemma cache_touch_rep:
  assumes "cache_rep c ps" "x \<in> set ps"
  obtains c' where "cache_touch x c = Ok c'" "cache_rep c' (x # remove1 x ps)" "rc_heap c' = rc_heap c"
    "rc_max_entries c' = rc_max_entries c" "rc_ttl_seconds c' = rc_ttl_seconds c"
proof
  let ?c = "c\<lparr>rc_lru := cache_lru_add_head x (cache_lru_remove x (rc_lru c))\<rparr>"
  have d: "dll (rc_lru c) ps" "distinct ps" using assms(1) by (simp_all add: cache_rep_props)
  show "cache_touch x c = Ok ?c"
    using assms by (auto simp: cache_touch_def cache_rep_def split: option.split)
  have "dll (rc_lru ?c) (x # remove1 x ps)"
    using dll_remove [OF d(1) assms(2)] d(2) by (simp add: dll_add_head)
  moreover have "set (x # remove1 x ps) = set ps" "length (x # remove1 x ps) = length ps"
    using assms(2) d(2) by (auto simp: length_remove1 dest: length_pos_if_in_set)
  ultimately show "cache_rep ?c (x # remove1 x ps)"
    using assms(1) unfolding cache_rep_def by (simp del: set_remove1_eq)
qed simp_all

text \<open>Taking a cell out.\<close>

lemma cache_detach_rep:
  assumes "cache_rep c ps" "x \<in> set ps" "chain (rc_heap c) (rc_buckets c) i (as @ x # bs)"
    and "i < length (rc_buckets c)"
  defines "c' \<equiv> cache_detach i (if as = [] then None else Some (last as)) x c"
  shows "cache_rep c' (remove1 x ps)"
    "map (item_of (rc_heap c')) (remove1 x ps) = map (item_of (rc_heap c)) (remove1 x ps)"
proof -
  note p = cache_rep_props [OF assms(1)]
  note d = cache_detach_chains [OF assms(3) p(1) assms(4), folded c'_def]
  have l: "length (rc_buckets c') = length (rc_buckets c)" by (simp add: c'_def)
  have s: "set (remove1 x ps) = set ps - {x}" using p(3) by simp
  have key: "key_of (rc_heap c') q = key_of (rc_heap c) q" if "q \<noteq> x" for q
    using d(3) [OF that] by (simp add: item_of_def key_of_def)
  show "map (item_of (rc_heap c')) (remove1 x ps) = map (item_of (rc_heap c)) (remove1 x ps)"
    using d(3) s by auto
  have "rc_entry_count c \<noteq> 0" using assms(1,2) by (auto simp: cache_rep_def)
  then have "unat (rc_entry_count c') = length (remove1 x ps)"
    using assms(1,2) by (simp add: c'_def cache_rep_def length_remove1 unat_minus_one)
  moreover have "inj_on (key_of (rc_heap c')) (set (remove1 x ps))"
    using p(4) key by (auto simp: s inj_on_def)
  moreover have "dll (rc_lru c') (remove1 x ps)" using dll_remove [OF p(6) assms(2)] by (simp add: c'_def)
  moreover have "length (remove1 x ps) \<le> max 1 (unat (rc_max_entries c'))"
  proof -
    have "length (remove1 x ps) \<le> length ps" by (simp add: length_remove1)
    also have "\<dots> \<le> max 1 (unat (rc_max_entries c'))" using assms(1) by (simp add: c'_def cache_rep_def)
    finally show ?thesis .
  qed
  moreover from assms(1) have "rc_buckets c' \<noteq> []" "length (rc_buckets c') < 2 ^ 32"
    using l by (cases "rc_buckets c'", simp_all add: cache_rep_def)
  moreover have "set (remove1 x ps) \<subseteq> {..<rc_fresh c'}" using p(2,5) s by (auto simp: c'_def)
  ultimately show "cache_rep c' (remove1 x ps)"
    using d(1,2) s p(5) by (simp add: cache_rep_def)
qed

lemma cache_evict_rep:
  assumes "cache_rep c ps" "ps \<noteq> []"
  obtains c' where "cache_evict_lru c = Ok c'" "cache_rep c' (butlast ps)"
    "map (item_of (rc_heap c')) (butlast ps) = map (item_of (rc_heap c)) (butlast ps)"
    "rc_max_entries c' = rc_max_entries c" "rc_ttl_seconds c' = rc_ttl_seconds c"
    "length (rc_buckets c') = length (rc_buckets c)"
proof -
  note p = cache_rep_props [OF assms(1)]
  let ?x = "last ps"
  have x: "?x \<in> set ps" "lru_tail (rc_lru c) = Some ?x" using assms(2) dll_tail [OF p(6)] by simp_all
  then obtain e where e: "rc_heap c ?x = Some e" using p(5) by blast
  obtain as bs where ab: "chain (rc_heap c) (rc_buckets c) (cache_hash (ce_key e) (length (rc_buckets c))) (as @ ?x # bs)"
    "cache_find (\<lambda>p _. p = ?x) (cache_hash (ce_key e) (length (rc_buckets c))) c =
       Ok (Some (if as = [] then None else Some (last as), ?x))"
    by (rule cache_find_some [OF p(1,2) e refl p(7), where test = "\<lambda>p _. p = ?x"]) simp
  let ?d = "cache_detach (cache_hash (ce_key e) (length (rc_buckets c))) (if as = [] then None else Some (last as)) ?x c"
  have r: "remove1 ?x ps = butlast ps"
    using assms(2) p(3) by (cases ps rule: rev_cases) (simp_all add: remove1_append)
  note d = cache_detach_rep [OF assms(1) x(1) ab(1) p(7), unfolded r]
  show ?thesis
  proof
    show "cache_evict_lru c = Ok (?d\<lparr>rc_evictions := rc_evictions c + 1\<rparr>)"
      using x e ab(2) by (simp add: cache_evict_lru_def Let_def)
    show "cache_rep (?d\<lparr>rc_evictions := rc_evictions c + 1\<rparr>) (butlast ps)"
      using d(1) by (simp add: cache_rep_def)
    show "map (item_of (rc_heap (?d\<lparr>rc_evictions := rc_evictions c + 1\<rparr>))) (butlast ps) =
        map (item_of (rc_heap c)) (butlast ps)"
      using d(2) by (simp del: map_eq_conv)
  qed simp_all
qed

lemma cache_insert_rep:
  fixes now :: int and l :: buckets_object_location
  assumes "cache_rep c ps" "length ps < max 1 (unat (rc_max_entries c))"
    and "\<And>p. p \<in> set ps \<Longrightarrow> key_of (rc_heap c) p \<noteq> key"
  defines "c' \<equiv> cache_insert now (cache_hash key (length (rc_buckets c))) key l c"
  shows "cache_rep c' (rc_fresh c # ps)"
    "map (item_of (rc_heap c')) (rc_fresh c # ps) =
       (key, l, now + uint (rc_ttl_seconds c)) # map (item_of (rc_heap c)) ps"
proof -
  note p = cache_rep_props [OF assms(1)]
  let ?f = "rc_fresh c" and ?i = "cache_hash key (length (rc_buckets c))"
  let ?e = "\<lparr>ce_key = key, ce_location = l, ce_expiry = now + uint (rc_ttl_seconds c), ce_next = rc_buckets c ! ?i\<rparr>"
  have f: "?f \<notin> set ps" using p(2,5) by auto
  have fn: "rc_heap c ?f = None" using f p(5) by blast
  have old: "((rc_heap c)(?f \<mapsto> ?e)) q = rc_heap c q" if "q \<in> set ps" for q using that f by auto
  show "map (item_of (rc_heap c')) (?f # ps) = (key, l, now + uint (rc_ttl_seconds c)) # map (item_of (rc_heap c)) ps"
    using old by (simp add: c'_def cache_insert_def Let_def item_of_def)
  have "length ps < 2 ^ 32 - 1"
  proof -
    have "unat (rc_max_entries c) < 2 ^ 32" using unsigned_less [of "rc_max_entries c", where ?'a = nat] by simp
    then show ?thesis using assms(2) by (simp add: max_def split: if_splits)
  qed
  then have "unat (rc_entry_count c + 1) = length (?f # ps)"
    using assms(1) by (simp add: cache_rep_def unat_add_lem [THEN iffD1])
  moreover have "chains_ok ((rc_heap c)(?f \<mapsto> ?e)) ((rc_buckets c)[?i := Some ?f])"
    by (rule cache_insert_chains [OF p(1) fn]) (simp_all add: p(7))
  moreover have "inj_on (key_of ((rc_heap c)(?f \<mapsto> ?e))) (set (?f # ps))"
    using p(4) assms(3) f by (auto simp: inj_on_def key_of_def)
  moreover have "dll (cache_lru_add_head ?f (rc_lru c)) (?f # ps)" using p(6) f by (rule dll_add_head)
  ultimately show "cache_rep c' (?f # ps)"
    using assms(1,2) p(5) by (auto simp: c'_def cache_insert_def Let_def cache_rep_def)
qed

text \<open>Emptying the table frees every cell.\<close>

lemma chain_free_path:
  "path (next_of h) r bs None \<Longrightarrow> distinct bs \<Longrightarrow> set bs \<subseteq> dom h \<Longrightarrow> length bs \<le> n \<Longrightarrow>
     chain_free n r h = Ok (h |` (- set bs))"
proof (induction bs arbitrary: r h n)
  case (Cons p ps)
  obtain m where n: "n = Suc m" using Cons.prems(4) by (cases n) auto
  obtain e where e: "h p = Some e" using Cons.prems(3) by auto
  define g where "g = h(p := None)"
  have "path (next_of g) (ce_next e) ps None = path (next_of h) (ce_next e) ps None"
    using Cons.prems(2) by (intro path_cong) (auto simp: g_def next_of_def)
  moreover have "next_of h p = ce_next e" using e by (simp add: next_of_def)
  moreover have "set ps \<subseteq> dom g" using Cons.prems(2,3) by (auto simp: g_def)
  ultimately have "chain_free m (ce_next e) g = Ok (g |` (- set ps))"
    using Cons.prems by (intro Cons.IH) (simp_all add: n)
  moreover have "g |` (- set ps) = h |` (- set (p # ps))"
    by (auto simp: g_def restrict_map_def)
  ultimately show ?case using Cons.prems(1) e by (simp add: n g_def)
qed (simp add: restrict_map_def)

fun chain_lists :: "(ptr \<Rightarrow> ptr option) \<Rightarrow> ptr option list \<Rightarrow> ptr list list \<Rightarrow> bool" where
  "chain_lists nx [] bss \<longleftrightarrow> bss = []"
| "chain_lists nx (b # bk) bss \<longleftrightarrow>
    (case bss of [] \<Rightarrow> False | bs # bss \<Rightarrow> path nx b bs None \<and> chain_lists nx bk bss)"

lemma chain_lists_cong:
  "chain_lists nx bk bss \<Longrightarrow> (\<And>q. q \<in> set (concat bss) \<Longrightarrow> nx' q = nx q) \<Longrightarrow> chain_lists nx' bk bss"
proof (induction bk arbitrary: bss)
  case (Cons b bk)
  then obtain bs css where "bss = bs # css" by (auto split: list.splits)
  with Cons show ?case using path_cong [of bs nx' nx b None] by auto
qed simp

lemma distinct_length_le: "distinct bs \<Longrightarrow> set bs \<subseteq> {..<n} \<Longrightarrow> length bs \<le> n"
  by (metis card_lessThan card_mono distinct_card finite_lessThan)

lemma chains_free_lists:
  "chain_lists (next_of h) bk bss \<Longrightarrow> distinct (concat bss) \<Longrightarrow> set (concat bss) \<subseteq> dom h \<Longrightarrow>
     dom h \<subseteq> {..<n} \<Longrightarrow> chains_free n bk h = Ok (h |` (- set (concat bss)))"
proof (induction bk arbitrary: h bss)
  case (Cons b bk)
  then obtain bs css where b: "bss = bs # css" "path (next_of h) b bs None" "chain_lists (next_of h) bk css"
    by (auto split: list.splits)
  let ?h = "h |` (- set bs)"
  have d: "distinct bs" "distinct (concat css)" "set bs \<inter> set (concat css) = {}" "set bs \<subseteq> dom h"
    using Cons.prems(2,3) by (simp_all add: b(1))
  have "length bs \<le> n" using d(1,4) Cons.prems(4) by (intro distinct_length_le) auto
  then have "chain_free n b h = Ok ?h" using b(2) d(1,4) by (simp add: chain_free_path)
  moreover have "chain_lists (next_of ?h) bk css"
  proof (rule chain_lists_cong [OF b(3)])
    fix q assume "q \<in> set (concat css)"
    then have "q \<notin> set bs" using d(3) by blast
    then show "next_of ?h q = next_of h q" by (simp add: next_of_def)
  qed
  then have "chains_free n bk ?h = Ok (?h |` (- set (concat css)))"
    using d(2,3) Cons.prems(3,4) by (intro Cons.IH) (auto simp: b(1))
  moreover have "?h |` (- set (concat css)) = h |` (- set (concat bss))"
    by (auto simp: b(1) restrict_map_def)
  ultimately show ?case by simp
qed (simp add: restrict_map_def)

lemma chain_lists_nth:
  "length bss = length bk \<Longrightarrow> (\<And>i. i < length bk \<Longrightarrow> path nx (bk ! i) (bss ! i) None) \<Longrightarrow> chain_lists nx bk bss"
proof (induction bk arbitrary: bss)
  case (Cons b bk)
  then obtain bs css where "bss = bs # css" by (cases bss) auto
  with Cons.prems Cons.IH [of css] show ?case by force
qed simp

lemma distinct_concat_map:
  "distinct is \<Longrightarrow> (\<And>i. i \<in> set is \<Longrightarrow> distinct (f i)) \<Longrightarrow>
     (\<And>i j. i \<in> set is \<Longrightarrow> j \<in> set is \<Longrightarrow> i \<noteq> j \<Longrightarrow> set (f i) \<inter> set (f j) = {}) \<Longrightarrow>
     distinct (concat (map f is))"
proof (induction "is")
  case (Cons i "is")
  have "set (f i) \<inter> set (f j) = {}" if "j \<in> set is" for j
    using Cons.prems(1) Cons.prems(3) [of i j] that by auto
  with Cons show ?case by auto
qed simp

lemma cache_clear_rep:
  assumes "cache_rep c ps"
  obtains c' where "cache_clear c = Ok c'" "cache_rep c' []" "rc_max_entries c' = rc_max_entries c"
    "rc_ttl_seconds c' = rc_ttl_seconds c"
proof -
  note p = cache_rep_props [OF assms]
  let ?h = "rc_heap c" and ?bk = "rc_buckets c"
  obtain f where f: "\<And>i. i < length ?bk \<Longrightarrow> chain ?h ?bk i (f i)" using p(1) unfolding chains_ok_def by metis
  let ?bss = "map f [0..<length ?bk]"
  have "set (concat ?bss) = dom ?h"
    using f cache_hash_less [of "length ?bk"] assms by (auto simp: chain_def cache_rep_def)
  moreover have "distinct (concat ?bss)"
    using f by (intro distinct_concat_map) (auto simp: chain_def)
  moreover have "chain_lists (next_of ?h) ?bk ?bss"
    using f by (intro chain_lists_nth) (simp_all add: chain_def)
  ultimately have "chains_free (rc_fresh c) ?bk ?h = Ok (?h |` (- dom ?h))"
    using chains_free_lists [of ?h ?bk ?bss "rc_fresh c"] p(2) by simp
  moreover have "?h |` (- dom ?h) = Map.empty" by (auto simp: restrict_map_def)
  ultimately have "cache_clear c = Ok (c\<lparr>rc_heap := Map.empty, rc_buckets := map (\<lambda>_. None) ?bk,
      rc_entry_count := 0, rc_lru := (rc_lru c)\<lparr>lru_head := None, lru_tail := None\<rparr>\<rparr>)"
    by (simp add: cache_clear_def)
  then show ?thesis
  proof (rule that)
    show "cache_rep (c\<lparr>rc_heap := Map.empty, rc_buckets := map (\<lambda>_. None) ?bk, rc_entry_count := 0,
        rc_lru := (rc_lru c)\<lparr>lru_head := None, lru_tail := None\<rparr>\<rparr>) []"
      using assms by (simp add: cache_rep_def dll_def chains_ok_def chain_def)
  qed simp_all
qed

section \<open>The cache implements the list\<close>

datatype cache_op =
    Cache_Get int string
  | Cache_Put int string buckets_object_location
  | Cache_Invalidate string
  | Cache_Clear

datatype cache_reply = Found "buckets_object_location option" | Stored | Dropped bool | Cleared

fun cache_step :: "cache_op \<Rightarrow> registry_cache \<Rightarrow> (cache_reply \<times> registry_cache) outcome" where
  "cache_step (Cache_Get now key) c =
    (case cache_get now c key of Ok (r, c) \<Rightarrow> Ok (Found r, c) | _ \<Rightarrow> Undefined)"
| "cache_step (Cache_Put now key l) c =
    (case cache_put now c key l of Ok c \<Rightarrow> Ok (Stored, c) | _ \<Rightarrow> Undefined)"
| "cache_step (Cache_Invalidate key) c =
    (case cache_invalidate c key of Ok (r, c) \<Rightarrow> Ok (Dropped r, c) | _ \<Rightarrow> Undefined)"
| "cache_step Cache_Clear c = (case cache_clear c of Ok c \<Rightarrow> Ok (Cleared, c) | _ \<Rightarrow> Undefined)"

fun lru_step :: "u32 \<Rightarrow> u32 \<Rightarrow> cache_op \<Rightarrow> lru_item list \<Rightarrow> cache_reply \<times> lru_item list" where
  "lru_step limit ttl (Cache_Get now key) xs = (let (r, ys) = lru_get now key xs in (Found r, ys))"
| "lru_step limit ttl (Cache_Put now key l) xs = (Stored, lru_put (unat limit) key l (now + uint ttl) xs)"
| "lru_step limit ttl (Cache_Invalidate key) xs = (Dropped (key \<in> fst ` set xs), lru_drop key xs)"
| "lru_step limit ttl Cache_Clear xs = (Cleared, [])"

abbreviation simulates :: "registry_cache \<Rightarrow> registry_cache \<Rightarrow> lru_item list \<Rightarrow> bool" where
  "simulates c c' xs \<equiv> cache_wf c' \<and> cache_items c' = xs \<and> rc_max_entries c' = rc_max_entries c \<and>
     rc_ttl_seconds c' = rc_ttl_seconds c"

lemma simulatesI:
  "cache_rep c' ps \<Longrightarrow> map (item_of (rc_heap c')) ps = xs \<Longrightarrow> rc_max_entries c' = rc_max_entries c \<Longrightarrow>
     rc_ttl_seconds c' = rc_ttl_seconds c \<Longrightarrow> simulates c c' xs"
  by (auto simp: cache_wf_def cache_items_rep)

text \<open>The two outcomes of the search for a key.\<close>

lemma cache_key_cases:
  assumes "cache_rep c ps"
  obtains (absent) "\<forall>p\<in>set ps. key_of (rc_heap c) p \<noteq> key" "map_of (map (item_of (rc_heap c)) ps) key = None"
      "cache_find (\<lambda>_ e. ce_key e = key) (cache_hash key (length (rc_buckets c))) c = Ok None"
  | (present) x e as bs where "x \<in> set ps" "rc_heap c x = Some e" "key_of (rc_heap c) x = key" "ce_key e = key"
      "chain (rc_heap c) (rc_buckets c) (cache_hash key (length (rc_buckets c))) (as @ x # bs)"
      "cache_find (\<lambda>_ e. ce_key e = key) (cache_hash key (length (rc_buckets c))) c =
         Ok (Some (if as = [] then None else Some (last as), x))"
      "map_of (map (item_of (rc_heap c)) ps) key = Some (ce_location e, ce_expiry e)"
proof (cases "\<forall>p\<in>set ps. key_of (rc_heap c) p \<noteq> key")
  case True
  note p = cache_rep_props [OF assms]
  have "cache_find (\<lambda>_ e. ce_key e = key) (cache_hash key (length (rc_buckets c))) c = Ok None"
    using True p(5) by (intro cache_find_none [OF p(1,2,7)]) (force simp: key_of_def)
  then show ?thesis using True map_of_items_none [of "rc_heap c" ps key] by (intro absent) auto
next
  case False
  note p = cache_rep_props [OF assms]
  obtain x where x: "x \<in> set ps" "key_of (rc_heap c) x = key" using False by auto
  obtain e where e: "rc_heap c x = Some e" using x(1) p(5) by blast
  have k: "ce_key e = key" using x e by (simp add: key_of_def)
  have u: "ce_key d = key \<longleftrightarrow> q = x" if "rc_heap c q = Some d" for q d
    using that inj_onD [OF p(4), of q x] x p(5) k e by (auto simp: key_of_def)
  obtain as bs where ab: "chain (rc_heap c) (rc_buckets c) (cache_hash key (length (rc_buckets c))) (as @ x # bs)"
    "cache_find (\<lambda>_ e. ce_key e = key) (cache_hash key (length (rc_buckets c))) c =
       Ok (Some (if as = [] then None else Some (last as), x))"
    by (rule cache_find_some [OF p(1,2) e _ p(7), where test = "\<lambda>_ e. ce_key e = key"]) (simp_all add: k u)
  have "map_of (map (item_of (rc_heap c)) ps) key = Some (ce_location e, ce_expiry e)"
    using map_of_items_some [OF p(3,4) x(1)] x(2) e by (simp add: item_of_def)
  then show ?thesis using x e k ab by (intro present)
qed

lemma cache_get_simulates:
  assumes "cache_wf c"
  shows "\<exists>c'. cache_get now c key = Ok (fst (lru_get now key (cache_items c)), c') \<and>
    simulates c c' (snd (lru_get now key (cache_items c)))"
proof -
  obtain ps where ps: "cache_rep c ps" using assms by (auto simp: cache_wf_def)
  note p = cache_rep_props [OF ps] and it = cache_items_rep [OF ps]
  show ?thesis
  proof (cases key rule: cache_key_cases [OF ps])
    case 1
    have "simulates c (c\<lparr>rc_misses := rc_misses c + 1\<rparr>) (cache_items c)"
      using ps by (intro simulatesI [of _ ps]) (simp_all add: it cache_rep_def)
    then show ?thesis using 1(2,3) by (simp add: cache_get_def cache_get_read_def lru_get_def it)
  next
    case (2 x e as bs)
    show ?thesis
    proof (cases "ce_expiry e < now")
      case True
      have "simulates c (c\<lparr>rc_misses := rc_misses c + 1\<rparr>) (cache_items c)"
        using ps by (intro simulatesI [of _ ps]) (simp_all add: it cache_rep_def)
      then show ?thesis using 2 True by (simp add: cache_get_def cache_get_read_def lru_get_def it)
    next
      case False
      let ?c = "c\<lparr>rc_hits := rc_hits c + 1\<rparr>"
      have "cache_rep ?c ps" using ps by (simp add: cache_rep_def)
      from cache_touch_rep [OF this 2(1)] obtain c' where c': "cache_touch x ?c = Ok c'"
        "cache_rep c' (x # remove1 x ps)" "rc_heap c' = rc_heap c" "rc_max_entries c' = rc_max_entries c"
        "rc_ttl_seconds c' = rc_ttl_seconds c" by auto
      have "map (item_of (rc_heap c')) (x # remove1 x ps) =
          (key, ce_location e, ce_expiry e) # lru_drop key (map (item_of (rc_heap c)) ps)"
        using lru_drop_items [OF p(3,4) 2(1)] 2(2,3) by (simp add: c'(3) item_of_def key_of_def)
      then have "simulates c c' ((key, ce_location e, ce_expiry e) # lru_drop key (cache_items c))"
        unfolding it by (rule simulatesI [OF c'(2) _ c'(4,5)])
      then show ?thesis
        using 2 False c'(1) by (simp add: cache_get_def cache_get_read_def lru_get_def it)
    qed
  qed
qed

text \<open>Making room for a new entry: the oldest one goes when the cache is full.\<close>

lemma cache_make_room:
  assumes "cache_rep c ps"
  obtains d qs where "(if rc_max_entries c \<le> rc_entry_count c then cache_evict_lru c else Ok c) = Ok d"
    "cache_rep d qs" "qs = (if unat (rc_max_entries c) \<le> length ps then butlast ps else ps)"
    "map (item_of (rc_heap d)) qs = map (item_of (rc_heap c)) qs" "rc_max_entries d = rc_max_entries c"
    "rc_ttl_seconds d = rc_ttl_seconds c" "length (rc_buckets d) = length (rc_buckets c)"
proof -
  have full: "rc_max_entries c \<le> rc_entry_count c \<longleftrightarrow> unat (rc_max_entries c) \<le> length ps"
    using assms by (simp add: cache_rep_def word_le_nat_alt)
  show ?thesis
  proof (cases "unat (rc_max_entries c) \<le> length ps \<and> ps \<noteq> []")
    case True
    then show ?thesis by (metis cache_evict_rep [OF assms] full that)
  next
    case False
    have "cache_evict_lru c = Ok c" if "ps = []"
      using that cache_rep_props(6) [OF assms] by (simp add: cache_evict_lru_def dll_tail)
    then show ?thesis using False assms full by (intro that [of c ps]) auto
  qed
qed

lemma cache_put_simulates:
  assumes "cache_wf c"
  shows "\<exists>c'. cache_put now c key l = Ok c' \<and>
    simulates c c' (lru_put (unat (rc_max_entries c)) key l (now + uint (rc_ttl_seconds c)) (cache_items c))"
proof -
  obtain ps where ps: "cache_rep c ps" using assms by (auto simp: cache_wf_def)
  note p = cache_rep_props [OF ps] and it = cache_items_rep [OF ps]
  let ?i = "cache_hash key (length (rc_buckets c))" and ?t = "now + uint (rc_ttl_seconds c)"
  show ?thesis
  proof (cases key rule: cache_key_cases [OF ps])
    case 1
    have k: "key \<notin> fst ` set (cache_items c)" using 1(2) by (simp add: it map_of_eq_None_iff)
    obtain d qs where d: "(if rc_max_entries c \<le> rc_entry_count c then cache_evict_lru c else Ok c) = Ok d"
      "cache_rep d qs" "qs = (if unat (rc_max_entries c) \<le> length ps then butlast ps else ps)"
      "map (item_of (rc_heap d)) qs = map (item_of (rc_heap c)) qs" "rc_max_entries d = rc_max_entries c"
      "rc_ttl_seconds d = rc_ttl_seconds c" "length (rc_buckets d) = length (rc_buckets c)"
      by (rule cache_make_room [OF ps])
    have len: "length qs < max 1 (unat (rc_max_entries d))"
      using ps d(3,5) by (cases ps rule: rev_cases) (auto simp: cache_rep_def)
    have kd: "key_of (rc_heap d) q \<noteq> key" if "q \<in> set qs" for q
    proof -
      have "item_of (rc_heap d) q = item_of (rc_heap c) q" using d(4) that by simp
      moreover have "q \<in> set ps" using that d(3) by (auto split: if_splits dest: in_set_butlastD)
      ultimately show ?thesis using 1(1) by (simp add: item_of_def key_of_def)
    qed
    note ins = cache_insert_rep [OF d(2) len kd, where now = now and l = l, unfolded d(6,7)]
    have "map (item_of (rc_heap d)) qs =
        (if unat (rc_max_entries c) \<le> length (cache_items c) then butlast (cache_items c) else cache_items c)"
      unfolding d(4) by (simp add: d(3) it map_butlast)
    then have "simulates c (cache_insert now ?i key l d) (lru_put (unat (rc_max_entries c)) key l ?t (cache_items c))"
      using ins(2) d(5,6) k by (intro simulatesI [OF ins(1)]) (simp_all add: lru_put_def cache_insert_def Let_def)
    then show ?thesis using 1(3) d(1) by (simp add: cache_put_def Let_def)
  next
    case (2 x e as bs)
    let ?e = "e\<lparr>ce_location := l, ce_expiry := ?t\<rparr>" and ?c = "c\<lparr>rc_heap := (rc_heap c)(x \<mapsto> e\<lparr>ce_location := l, ce_expiry := now + uint (rc_ttl_seconds c)\<rparr>)\<rparr>"
    have key: "key_of ((rc_heap c)(x \<mapsto> ?e)) q = key_of (rc_heap c) q" for q using 2(2) by (simp add: key_of_def)
    have "cache_rep ?c ps"
      using ps cache_update_chains [OF p(1) 2(2), of ?e] p(5) 2(1) key
      by (auto simp: cache_rep_def inj_on_def)
    from cache_touch_rep [OF this 2(1)] obtain c' where c': "cache_touch x ?c = Ok c'"
      "cache_rep c' (x # remove1 x ps)" "rc_heap c' = (rc_heap c)(x \<mapsto> ?e)" "rc_max_entries c' = rc_max_entries c"
      "rc_ttl_seconds c' = rc_ttl_seconds c" by auto
    have "map (item_of (rc_heap c')) (remove1 x ps) = map (item_of (rc_heap c)) (remove1 x ps)"
      using p(3) by (auto simp: c'(3) item_of_def)
    then have "map (item_of (rc_heap c')) (x # remove1 x ps) = (key, l, ?t) # lru_drop key (cache_items c)"
      using lru_drop_items [OF p(3,4) 2(1)] 2(3,4) by (simp add: it) (simp add: c'(3) item_of_def)
    moreover have "key \<in> fst ` set (cache_items c)"
      using 2(1,3) by (force simp: it item_of_def key_of_def)
    ultimately have "simulates c c' (lru_put (unat (rc_max_entries c)) key l ?t (cache_items c))"
      by (intro simulatesI [OF c'(2) _ c'(4,5)]) (simp add: lru_put_def)
    then show ?thesis using 2(2,6) c'(1) by (simp add: cache_put_def Let_def)
  qed
qed

lemma cache_invalidate_simulates:
  assumes "cache_wf c"
  shows "\<exists>c'. cache_invalidate c key = Ok (key \<in> fst ` set (cache_items c), c') \<and>
    simulates c c' (lru_drop key (cache_items c))"
proof -
  obtain ps where ps: "cache_rep c ps" using assms by (auto simp: cache_wf_def)
  note p = cache_rep_props [OF ps] and it = cache_items_rep [OF ps]
  show ?thesis
  proof (cases key rule: cache_key_cases [OF ps])
    case 1
    have "key \<notin> fst ` set (cache_items c)" using 1(2) by (simp add: it map_of_eq_None_iff)
    moreover from this have "lru_drop key (cache_items c) = cache_items c"
      by (force simp: lru_drop_def filter_id_conv)
    ultimately show ?thesis using 1(3) assms by (simp add: cache_invalidate_def)
  next
    case (2 x e as bs)
    note d = cache_detach_rep [OF ps 2(1,5) p(7)]
    have "key \<in> fst ` set (cache_items c)"
      using 2(1,3) by (force simp: it item_of_def key_of_def)
    moreover have "simulates c (cache_detach (cache_hash key (length (rc_buckets c)))
        (if as = [] then None else Some (last as)) x c) (lru_drop key (cache_items c))"
      using d(2) lru_drop_items [OF p(3,4) 2(1)] 2(3) by (intro simulatesI [OF d(1)]) (simp_all add: it)
    ultimately show ?thesis using 2(6) by (simp add: cache_invalidate_def Let_def)
  qed
qed

lemma cache_step_simulates:
  assumes "cache_wf c"
  shows "\<exists>c'. cache_step op c = Ok (fst (lru_step (rc_max_entries c) (rc_ttl_seconds c) op (cache_items c)), c') \<and>
    simulates c c' (snd (lru_step (rc_max_entries c) (rc_ttl_seconds c) op (cache_items c)))"
proof (cases op)
  case (Cache_Get now key)
  then show ?thesis using cache_get_simulates [OF assms, of now key] by (auto simp: split_beta)
next
  case (Cache_Put now key l)
  then show ?thesis using cache_put_simulates [OF assms, of now key l] by auto
next
  case (Cache_Invalidate key)
  then show ?thesis using cache_invalidate_simulates [OF assms, of key] by auto
next
  case Cache_Clear
  obtain ps where "cache_rep c ps" using assms by (auto simp: cache_wf_def)
  from cache_clear_rep [OF this] obtain c' where "cache_clear c = Ok c'" "simulates c c' []"
    using simulatesI [of _ "[]" "[]" c] by auto
  then show ?thesis using Cache_Clear by auto
qed

fun cache_run :: "cache_op list \<Rightarrow> registry_cache \<Rightarrow> (cache_reply list \<times> registry_cache) outcome" where
  "cache_run [] c = Ok ([], c)"
| "cache_run (op # ops) c =
    (case cache_step op c of
       Ok (r, c) \<Rightarrow> (case cache_run ops c of Ok (rs, c) \<Rightarrow> Ok (r # rs, c) | _ \<Rightarrow> Undefined)
     | _ \<Rightarrow> Undefined)"

fun lru_run :: "u32 \<Rightarrow> u32 \<Rightarrow> cache_op list \<Rightarrow> lru_item list \<Rightarrow> cache_reply list \<times> lru_item list" where
  "lru_run limit ttl [] xs = ([], xs)"
| "lru_run limit ttl (op # ops) xs =
    (let (r, xs) = lru_step limit ttl op xs; (rs, xs) = lru_run limit ttl ops xs in (r # rs, xs))"

lemma cache_run_simulates:
  "cache_wf c \<Longrightarrow> \<exists>c'. cache_run ops c = Ok (fst (lru_run (rc_max_entries c) (rc_ttl_seconds c) ops (cache_items c)), c') \<and>
     simulates c c' (snd (lru_run (rc_max_entries c) (rc_ttl_seconds c) ops (cache_items c)))"
proof (induction ops arbitrary: c)
  case (Cons op ops)
  obtain d where d: "cache_step op c = Ok (fst (lru_step (rc_max_entries c) (rc_ttl_seconds c) op (cache_items c)), d)"
    "simulates c d (snd (lru_step (rc_max_entries c) (rc_ttl_seconds c) op (cache_items c)))"
    using cache_step_simulates [OF Cons.prems] by blast
  with Cons.IH [of d] show ?case by (auto simp: split_beta Let_def)
qed simp

lemma cache_wf_length:
  "cache_wf c \<Longrightarrow> length (cache_items c) \<le> max 1 (unat (rc_max_entries c))"
  using cache_items_rep by (auto simp: cache_wf_def cache_rep_def)

lemma cache_create_wf: "cache_wf (cache_create limit ttl)" "cache_items (cache_create limit ttl) = []"
proof -
  let ?n = "(limit div 10) OR 1 :: u32"
  have "bit ?n 0" by (simp add: bit_or_iff)
  then have "?n \<noteq> 0" by (metis bit_0_eq bot_apply bot_bool_def)
  moreover have "unat ?n < 2 ^ 32" using unsigned_less [of ?n, where ?'a = nat] by simp
  ultimately have "cache_rep (cache_create limit ttl) []"
    by (auto simp: cache_rep_def cache_create_def Let_def chains_ok_def chain_def unat_eq_zero)
  then show "cache_wf (cache_create limit ttl)" "cache_items (cache_create limit ttl) = []"
    by (auto simp: cache_wf_def cache_items_rep)
qed

text \<open>C6: the location cache is a list of entries in order of last use.  Whatever sequence of
  gets, puts, invalidations and clears a fresh cache goes through, no operation follows a
  dangling pointer or loops, every reply is the one of the list - a get finds exactly the
  unexpired entry last stored under the key, a put into a full cache drops the entry used
  least recently - and the number of entries stays within the capacity, or at one entry
  for a capacity of zero.\<close>

theorem registry_cache_refines_lru:
  "\<exists>c. cache_run ops (cache_create limit ttl) = Ok (fst (lru_run limit ttl ops []), c) \<and>
       cache_items c = snd (lru_run limit ttl ops []) \<and>
       length (cache_items c) \<le> max 1 (unat limit)"
proof -
  have "rc_max_entries (cache_create limit ttl) = limit" "rc_ttl_seconds (cache_create limit ttl) = ttl"
    by (simp_all add: cache_create_def)
  then show ?thesis
    using cache_run_simulates [OF cache_create_wf(1), of ops limit ttl] cache_wf_length
    by (metis cache_create_wf(2))
qed

text \<open>C27: a get and an invalidation can meet badly.  A get gives up the read lock between
  finding the entry and moving it to the head of the recency list; if another thread
  invalidates the key in between, the second half works on an entry that is already
  freed.\<close>

theorem registry_cache_get_race:
  assumes "cache_wf c" "cache_get_read now c key = Ok (Some (p, l), c1)"
  shows "\<exists>c2. cache_invalidate c1 key = Ok (True, c2) \<and> cache_wf c2 \<and> cache_touch p c2 = Undefined"
proof -
  obtain ps where ps: "cache_rep c ps" using assms by (auto simp: cache_wf_def)
  have c1: "c1 = c\<lparr>rc_hits := rc_hits c + 1\<rparr>"
    "\<exists>prev. cache_find (\<lambda>_ e. ce_key e = key) (cache_hash key (length (rc_buckets c))) c = Ok (Some (prev, p))"
    using assms(2) by (auto simp: cache_get_read_def split: outcome.splits option.splits if_splits)
  have r: "cache_rep c1 ps" using ps by (simp add: c1(1) cache_rep_def)
  have f: "cache_find t i c1 = cache_find t i c" "length (rc_buckets c1) = length (rc_buckets c)" for t i
    by (simp_all add: c1(1) cache_find_def)
  note pr = cache_rep_props [OF r]
  show ?thesis
  proof (cases key rule: cache_key_cases [OF r])
    case 1
    from 1(3) show ?thesis using c1(2) unfolding f by simp
  next
    case (2 x e as bs)
    have [simp]: "x = p" using 2(6) c1(2) unfolding f by simp
    let ?c2 = "cache_detach (cache_hash key (length (rc_buckets c1))) (if as = [] then None else Some (last as)) x c1"
    have "rc_heap ?c2 p = None" by (simp add: cache_detach_def Let_def)
    moreover have "cache_wf ?c2" using cache_detach_rep(1) [OF r 2(1,5) pr(7)] by (auto simp: cache_wf_def)
    ultimately show ?thesis using 2(6) by (simp add: cache_invalidate_def Let_def cache_touch_def)
  qed
qed

definition small_location :: buckets_object_location where
  "small_location = \<lparr>ol_bucket = Some ''b'', ol_object = Some ''o'', ol_version_id = Some ''v'', ol_pool_idx = 0,
     ol_set_idx = 1, ol_disk_count = 2, ol_disk_idxs = [0, 1] @ replicate 14 0, ol_generation = 3,
     ol_mod_time = 1700000000, ol_size = 42\<rparr>"

definition small_cache :: registry_cache where
  "small_cache = cache_insert 100 0 ''k'' small_location (cache_create 4 300)"

lemma cache_hash_1 [simp]: "cache_hash key (Suc 0) = 0"
  by (simp add: cache_hash_def)

lemma small_cache_put: "cache_put 100 (cache_create 4 300) ''k'' small_location = Ok small_cache"
  by (simp add: small_cache_def cache_put_def cache_create_def Let_def cache_find_def)

lemma small_cache_wf: "cache_wf small_cache"
  using cache_put_simulates [OF cache_create_wf(1), of 100 4 300 "''k''" small_location] small_cache_put by auto

theorem registry_cache_get_race_witness:
  "\<exists>c1 c2. cache_get_read 101 small_cache ''k'' = Ok (Some (0, small_location), c1) \<and>
     cache_invalidate c1 ''k'' = Ok (True, c2) \<and> cache_wf c2 \<and> cache_touch 0 c2 = Undefined"
proof -
  have "cache_get_read 101 small_cache ''k'' = Ok (Some (0, small_location), small_cache\<lparr>rc_hits := 1\<rparr>)"
    by (simp add: cache_get_read_def small_cache_def cache_create_def cache_insert_def Let_def cache_find_def)
  then show ?thesis using registry_cache_get_race [OF small_cache_wf] by blast
qed

section \<open>The contract of a location cache\<close>

text \<open>What the registry relies on, without the pointers.  \<open>view\<close> is what the cache holds for a
  key, with its expiry.  A cache may forget, but it never invents: after any operation it
  holds for a key what was stored there last, or nothing.\<close>

locale location_cache =
  fixes wf :: "'c \<Rightarrow> bool"
    and view :: "'c \<Rightarrow> string \<Rightarrow> ('l \<times> int) option"
    and get :: "int \<Rightarrow> 'c \<Rightarrow> string \<Rightarrow> ('l option \<times> 'c) outcome"
    and put :: "int \<Rightarrow> 'c \<Rightarrow> string \<Rightarrow> 'l \<Rightarrow> 'c outcome"
    and drop_key :: "'c \<Rightarrow> string \<Rightarrow> (bool \<times> 'c) outcome"
  assumes get_law: "wf c \<Longrightarrow> \<exists>c'. get now c key =
      Ok (case view c key of None \<Rightarrow> None | Some (l, e) \<Rightarrow> if e < now then None else Some l, c') \<and>
      wf c' \<and> view c' = view c"
    and put_law: "wf c \<Longrightarrow> \<exists>c' e. put now c key l = Ok c' \<and> wf c' \<and> view c' key = Some (l, e) \<and>
      now \<le> e \<and> (\<forall>k. k \<noteq> key \<longrightarrow> view c' k = None \<or> view c' k = view c k)"
    and drop_law: "wf c \<Longrightarrow> \<exists>r c'. drop_key c key = Ok (r, c') \<and> wf c' \<and> view c' = (view c)(key := None)"
begin

definition coherent :: "'c \<Rightarrow> (string \<Rightarrow> 'l \<Rightarrow> bool) \<Rightarrow> bool" where
  "coherent c holds \<longleftrightarrow> wf c \<and> (\<forall>k l e. view c k = Some (l, e) \<longrightarrow> holds k l)"

lemma coherent_get:
  "coherent c holds \<Longrightarrow> \<exists>r c'. get now c key = Ok (r, c') \<and> coherent c' holds \<and> (\<forall>l. r = Some l \<longrightarrow> holds key l)"
  using get_law [of c now key] by (fastforce simp: coherent_def split: option.splits if_splits)

lemma coherent_put:
  assumes "coherent c holds" "\<And>k l. k \<noteq> key \<Longrightarrow> holds k l \<Longrightarrow> holds' k l" "holds' key l"
  shows "\<exists>c'. put now c key l = Ok c' \<and> coherent c' holds'"
proof -
  obtain c' e where c': "put now c key l = Ok c'" "wf c'" "view c' key = Some (l, e)"
    "\<And>k. k \<noteq> key \<Longrightarrow> view c' k = None \<or> view c' k = view c k"
    using put_law [of c now key l] assms(1) by (auto simp: coherent_def)
  have "holds' k m" if "view c' k = Some (m, t)" for k m t
  proof (cases "k = key")
    case False
    then have "view c k = Some (m, t)" using that c'(4) [of k] by simp
    then show ?thesis using assms(1,2) False by (simp add: coherent_def)
  qed (use that c'(3) assms(3) in simp)
  with c' show ?thesis by (auto simp: coherent_def)
qed

lemma coherent_drop:
  assumes "coherent c holds" "\<And>k l. k \<noteq> key \<Longrightarrow> holds k l \<Longrightarrow> holds' k l"
  shows "\<exists>r c'. drop_key c key = Ok (r, c') \<and> coherent c' holds'"
  using drop_law [of c key] assms by (fastforce simp: coherent_def split: if_splits)

lemma get_after_put:
  assumes "wf c" "put t c key l = Ok c'"
  shows "\<exists>e \<ge> t. view c' key = Some (l, e)"
  using put_law [OF assms(1), of t key l] assms(2) by auto

end

definition cache_view :: "registry_cache \<Rightarrow> string \<Rightarrow> (buckets_object_location \<times> int) option" where
  "cache_view c key = map_of (cache_items c) key"

lemma map_of_lru_drop: "map_of (lru_drop key xs) = (map_of xs)(key := None)"
  by (induction xs) (auto simp: lru_drop_def)

lemma map_of_butlast: "map_of (butlast xs) k = None \<or> map_of (butlast xs) k = map_of xs k"
  by (cases xs rule: rev_cases) (auto simp: map_add_def split: option.splits)

interpretation rcache: location_cache cache_wf cache_view cache_get cache_put cache_invalidate
proof
  fix c :: registry_cache and now key l
  assume wf: "cache_wf c"
  have m: "map_of (snd (lru_get now key (cache_items c))) = map_of (cache_items c)"
    by (auto simp: lru_get_def map_of_lru_drop fun_eq_iff split: option.splits)
  obtain c' where c': "cache_get now c key = Ok (fst (lru_get now key (cache_items c)), c')" "cache_wf c'"
    "cache_items c' = snd (lru_get now key (cache_items c))"
    using cache_get_simulates [OF wf, of now key] by auto
  have "fst (lru_get now key (cache_items c)) =
      (case cache_view c key of None \<Rightarrow> None | Some (l, e) \<Rightarrow> if e < now then None else Some l)"
    by (simp add: lru_get_def cache_view_def split: option.split)
  with c' m show "\<exists>c'. cache_get now c key =
      Ok (case cache_view c key of None \<Rightarrow> None | Some (l, e) \<Rightarrow> if e < now then None else Some l, c') \<and>
      cache_wf c' \<and> cache_view c' = cache_view c"
    by (auto simp: cache_view_def fun_eq_iff)
  have p: "map_of (lru_put n key l e xs) k = None \<or> map_of (lru_put n key l e xs) k = map_of xs k"
    if "k \<noteq> key" for n e xs k
    using that map_of_butlast [of xs k] by (auto simp: lru_put_def map_of_lru_drop)
  show "\<exists>c' e. cache_put now c key l = Ok c' \<and> cache_wf c' \<and> cache_view c' key = Some (l, e) \<and> now \<le> e \<and>
      (\<forall>k. k \<noteq> key \<longrightarrow> cache_view c' k = None \<or> cache_view c' k = cache_view c k)"
  proof -
    obtain d where d: "cache_put now c key l = Ok d" "cache_wf d"
      "cache_items d = lru_put (unat (rc_max_entries c)) key l (now + uint (rc_ttl_seconds c)) (cache_items c)"
      using cache_put_simulates [OF wf, of now key l] by auto
    have "cache_view d key = Some (l, now + uint (rc_ttl_seconds c))" by (simp add: cache_view_def d(3) lru_put_def)
    moreover have "\<forall>k. k \<noteq> key \<longrightarrow> cache_view d k = None \<or> cache_view d k = cache_view c k"
      using p by (simp add: cache_view_def d(3))
    ultimately show ?thesis using d(1,2) by (intro exI [of _ d] exI conjI) auto
  qed
  show "\<exists>r c'. cache_invalidate c key = Ok (r, c') \<and> cache_wf c' \<and> cache_view c' = (cache_view c)(key := None)"
    using cache_invalidate_simulates [OF wf, of key]
    by (auto simp: cache_view_def map_of_lru_drop fun_eq_iff)
qed

end
