(* ===== verification/Registry.thy ===== *)
theory Registry
  imports Registry_Cache Cluster_Io
begin

text \<open>
  The location registry, \<^verbatim>\<open>src/src/registry/registry.c\<close>: where every version of an object is
  stored.  A location is written as a JSON object into the object layer and kept in the
  location cache.  The object layer (\<^verbatim>\<open>buckets_put_object\<close>, \<^verbatim>\<open>buckets_get_object\<close>,
  \<^verbatim>\<open>buckets_distributed_delete_object\<close> on the registry bucket) and the printer and parser of
  JSON are parameters of the operations that use them; the current time is an argument.
\<close>

section \<open>Keys\<close>

definition buckets_registry_build_key :: "string option \<Rightarrow> string option \<Rightarrow> string option \<Rightarrow> string option" where
  "buckets_registry_build_key bucket object version_id =
    (case (bucket, object, version_id) of
       (Some b, Some obj, Some v) \<Rightarrow> Some (b @ ''/'' @ obj @ ''/'' @ v)
     | _ \<Rightarrow> None)"

definition buckets_registry_parse_key :: "string \<Rightarrow> (string \<times> string \<times> string) option" where
  "buckets_registry_parse_key key =
    (case strchr (CHR ''/'') key of
       None \<Rightarrow> None
     | Some (bucket, rest) \<Rightarrow>
       (case strchr (CHR ''/'') rest of
          None \<Rightarrow> None
        | Some (object, version_id) \<Rightarrow> Some (bucket, object, version_id)))"

section \<open>Serialization\<close>

definition BUCKETS_REGISTRY_MAX_DISKS :: nat where
  "BUCKETS_REGISTRY_MAX_DISKS = 16"

definition buckets_registry_location_new :: buckets_object_location where
  "buckets_registry_location_new =
     \<lparr>ol_bucket = None, ol_object = None, ol_version_id = None, ol_pool_idx = 0, ol_set_idx = 0,
      ol_disk_count = 0, ol_disk_idxs = replicate BUCKETS_REGISTRY_MAX_DISKS 0, ol_generation = 0,
      ol_mod_time = 0, ol_size = 0\<rparr>"

definition buckets_registry_location_clone :: "buckets_object_location \<Rightarrow> buckets_object_location" where
  "buckets_registry_location_clone src =
     buckets_registry_location_new
       \<lparr>ol_bucket := ol_bucket src, ol_object := ol_object src, ol_version_id := ol_version_id src,
        ol_pool_idx := ol_pool_idx src, ol_set_idx := ol_set_idx src, ol_disk_count := ol_disk_count src,
        ol_disk_idxs := ol_disk_idxs src, ol_generation := ol_generation src,
        ol_mod_time := ol_mod_time src, ol_size := ol_size src\<rparr>"

text \<open>\<^verbatim>\<open>cJSON_AddStringToObject\<close> adds nothing for a null string.  The numbers go through
  \<^verbatim>\<open>double\<close>; every reader of them below saturates or converts, so the tree keeps the exact
  integer.  The loop over the disks reads the sixteen-element array up to \<^verbatim>\<open>disk_count\<close>.\<close>

definition buckets_registry_location_to_json :: "buckets_object_location \<Rightarrow> json outcome" where
  "buckets_registry_location_to_json location =
    (if BUCKETS_REGISTRY_MAX_DISKS < unat (ol_disk_count location) then Undefined
     else let root = JObj [];
              root = buckets_json_add_string root ''bucket'' (ol_bucket location);
              root = buckets_json_add_string root ''object'' (ol_object location);
              root = buckets_json_add_string root ''version_id'' (ol_version_id location);
              root = json_add root ''pool_idx'' (JNum (uint (ol_pool_idx location)));
              root = json_add root ''set_idx'' (JNum (uint (ol_set_idx location)));
              root = json_add root ''disk_count'' (JNum (uint (ol_disk_count location)));
              disks = map (\<lambda>i. JNum (uint (ol_disk_idxs location ! i))) [0..<unat (ol_disk_count location)];
              root = json_add root ''disk_idxs'' (JArr disks);
              root = json_add root ''generation'' (JNum (uint (ol_generation location)));
              root = json_add root ''mod_time'' (JNum (ol_mod_time location));
              root = json_add root ''size'' (JNum (uint (ol_size location)))
          in Ok root)"

text \<open>The array of disks: at most sixteen members are read, those that are no numbers keep the
  zero of the allocation.\<close>

fun disk_idx :: "json \<Rightarrow> u32" where
  "disk_idx (JNum n) = of_int (valueint n)"
| "disk_idx _ = 0"

definition read_disk_idxs :: "json option \<Rightarrow> u32 list" where
  "read_disk_idxs disks =
    (case disks of
       Some (JArr js) \<Rightarrow>
         map (\<lambda>i. if i < length js then disk_idx (js ! i) else 0) [0..<BUCKETS_REGISTRY_MAX_DISKS]
     | _ \<Rightarrow> replicate BUCKETS_REGISTRY_MAX_DISKS 0)"

definition location_of_tree :: "json \<Rightarrow> buckets_object_location" where
  "location_of_tree root =
     \<lparr>ol_bucket = buckets_json_get_string root ''bucket'' (Some []),
      ol_object = buckets_json_get_string root ''object'' (Some []),
      ol_version_id = buckets_json_get_string root ''version_id'' (Some []),
      ol_pool_idx = of_int (buckets_json_get_int root ''pool_idx'' 0),
      ol_set_idx = of_int (buckets_json_get_int root ''set_idx'' 0),
      ol_disk_count = of_int (buckets_json_get_int root ''disk_count'' 0),
      ol_disk_idxs = read_disk_idxs (get_object_item_ci root ''disk_idxs''),
      ol_generation = of_int (buckets_json_get_int root ''generation'' 0),
      ol_mod_time = buckets_json_get_int root ''mod_time'' 0,
      ol_size = of_int (buckets_json_get_int root ''size'' 0)\<rparr>"

definition buckets_registry_location_from_json ::
  "(string \<Rightarrow> json option) \<Rightarrow> string \<Rightarrow> buckets_object_location option" where
  "buckets_registry_location_from_json parse json = map_option location_of_tree (parse json)"

section \<open>The registry\<close>

record buckets_registry_config =
  cf_cache_size :: u32
  cf_cache_ttl_seconds :: u32
  cf_enable_cache :: bool

record registry_state =
  rg_config :: buckets_registry_config
  rg_cache :: "registry_cache option"
  rg_initialized :: bool

record 's object_layer =
  put_object :: "'s \<Rightarrow> string \<Rightarrow> string \<Rightarrow> string \<Rightarrow> bool \<times> 's"
  get_object :: "'s \<Rightarrow> string \<Rightarrow> string \<Rightarrow> string option"
  delete_object :: "'s \<Rightarrow> string \<Rightarrow> string \<Rightarrow> bool \<times> 's"

definition BUCKETS_REGISTRY_BUCKET :: string where
  "BUCKETS_REGISTRY_BUCKET = ''.buckets-registry''"

definition buckets_registry_init :: "buckets_registry_config option \<Rightarrow> registry_state \<Rightarrow> registry_state" where
  "buckets_registry_init config g =
    (if rg_initialized g then g
     else let cf = (case config of
                      Some c \<Rightarrow> c
                    | None \<Rightarrow> \<lparr>cf_cache_size = 1000000, cf_cache_ttl_seconds = 300, cf_enable_cache = True\<rparr>);
              g = g\<lparr>rg_config := cf\<rparr>;
              g = (if cf_enable_cache cf
                   then g\<lparr>rg_cache := Some (cache_create (cf_cache_size cf) (cf_cache_ttl_seconds cf))\<rparr>
                   else g)
          in g\<lparr>rg_initialized := True\<rparr>)"

definition buckets_registry_cleanup :: "registry_state \<Rightarrow> registry_state" where
  "buckets_registry_cleanup g =
    (if rg_initialized g then g\<lparr>rg_cache := None, rg_initialized := False\<rparr> else g)"

text \<open>\<^verbatim>\<open>char object_key[1024]; snprintf(object_key, sizeof(object_key), "%s/%s/%s.json", ...)\<close>.\<close>

definition registry_object_key :: "string \<Rightarrow> string \<Rightarrow> string \<Rightarrow> string" where
  "registry_object_key bucket object version_id =
     snprintf_s 1024 (bucket @ ''/'' @ object @ ''/'' @ version_id @ ''.json'')"

text \<open>Updating the cache where there is one.\<close>

definition registry_cache_put ::
  "int \<Rightarrow> registry_state \<Rightarrow> string \<Rightarrow> buckets_object_location \<Rightarrow> registry_state outcome" where
  "registry_cache_put now g key location =
    (case rg_cache g of
       None \<Rightarrow> Ok g
     | Some c \<Rightarrow>
       (case cache_put now c key location of Ok c \<Rightarrow> Ok (g\<lparr>rg_cache := Some c\<rparr>) | _ \<Rightarrow> Undefined))"

definition buckets_registry_record ::
  "'s object_layer \<Rightarrow> (json \<Rightarrow> string) \<Rightarrow> int \<Rightarrow> 's \<Rightarrow> registry_state \<Rightarrow> buckets_object_location
     \<Rightarrow> (int \<times> 's \<times> registry_state) outcome" where
  "buckets_registry_record layer print now st g location =
    (if \<not> rg_initialized g then Ok (-1, st, g)
     else case (ol_bucket location, ol_object location, ol_version_id location) of
       (Some b, Some obj, Some v) \<Rightarrow>
         (let key = the (buckets_registry_build_key (Some b) (Some obj) (Some v)) in
          case buckets_registry_location_to_json location of
            Ok json \<Rightarrow>
              (let (ok, st) = put_object layer st BUCKETS_REGISTRY_BUCKET (registry_object_key b obj v) (print json) in
               if \<not> ok then Ok (-1, st, g)
               else case registry_cache_put now g key location of
                      Ok g \<Rightarrow> Ok (0, st, g)
                    | _ \<Rightarrow> Undefined)
          | _ \<Rightarrow> Undefined)
     | _ \<Rightarrow> Ok (-1, st, g))"

definition registry_cache_get ::
  "int \<Rightarrow> registry_state \<Rightarrow> string \<Rightarrow> (buckets_object_location option \<times> registry_state) outcome" where
  "registry_cache_get now g key =
    (case rg_cache g of
       None \<Rightarrow> Ok (None, g)
     | Some c \<Rightarrow>
       (case cache_get now c key of
          Ok (r, c) \<Rightarrow> Ok (r, g\<lparr>rg_cache := Some c\<rparr>)
        | _ \<Rightarrow> Undefined))"

definition buckets_registry_lookup ::
  "'s object_layer \<Rightarrow> (string \<Rightarrow> json option) \<Rightarrow> int \<Rightarrow> 's \<Rightarrow> registry_state
     \<Rightarrow> string option \<Rightarrow> string option \<Rightarrow> string option
     \<Rightarrow> (int \<times> buckets_object_location option \<times> registry_state) outcome" where
  "buckets_registry_lookup layer parse now st g bucket object version_id =
    (if \<not> rg_initialized g then Ok (-1, None, g)
     else case (bucket, object) of
       (Some b, Some obj) \<Rightarrow>
         (let vid = (case version_id of Some v \<Rightarrow> v | None \<Rightarrow> ''latest'');
              key = the (buckets_registry_build_key (Some b) (Some obj) (Some vid)) in
          case registry_cache_get now g key of
            Ok (Some location, g) \<Rightarrow> Ok (0, Some location, g)
          | Ok (None, g) \<Rightarrow>
              (case get_object layer st BUCKETS_REGISTRY_BUCKET (registry_object_key b obj vid) of
                 None \<Rightarrow> Ok (-1, None, g)
               | Some json_str \<Rightarrow>
                 (case buckets_registry_location_from_json parse json_str of
                    None \<Rightarrow> Ok (-1, None, g)
                  | Some location \<Rightarrow>
                    (case registry_cache_put now g key location of
                       Ok g \<Rightarrow> Ok (0, Some location, g)
                     | _ \<Rightarrow> Undefined)))
          | _ \<Rightarrow> Undefined)
     | _ \<Rightarrow> Ok (-1, None, g))"

definition registry_cache_drop :: "registry_state \<Rightarrow> string \<Rightarrow> (bool \<times> registry_state) outcome" where
  "registry_cache_drop g key =
    (case rg_cache g of
       None \<Rightarrow> Undefined
     | Some c \<Rightarrow>
       (case cache_invalidate c key of Ok (r, c) \<Rightarrow> Ok (r, g\<lparr>rg_cache := Some c\<rparr>) | _ \<Rightarrow> Undefined))"

definition buckets_registry_delete ::
  "'s object_layer \<Rightarrow> 's \<Rightarrow> registry_state \<Rightarrow> string option \<Rightarrow> string option \<Rightarrow> string option
     \<Rightarrow> (int \<times> 's \<times> registry_state) outcome" where
  "buckets_registry_delete layer st g bucket object version_id =
    (if \<not> rg_initialized g then Ok (-1, st, g)
     else case (bucket, object) of
       (Some b, Some obj) \<Rightarrow>
         (let vid = (case version_id of Some v \<Rightarrow> v | None \<Rightarrow> ''latest'');
              key = the (buckets_registry_build_key (Some b) (Some obj) (Some vid));
              (_, st) = delete_object layer st BUCKETS_REGISTRY_BUCKET (registry_object_key b obj vid) in
          if rg_cache g = None then Ok (0, st, g)
          else case registry_cache_drop g key of Ok (_, g) \<Rightarrow> Ok (0, st, g) | _ \<Rightarrow> Undefined)
     | _ \<Rightarrow> Ok (-1, st, g))"

definition buckets_registry_cache_invalidate ::
  "registry_state \<Rightarrow> string option \<Rightarrow> string option \<Rightarrow> string option \<Rightarrow> (int \<times> registry_state) outcome" where
  "buckets_registry_cache_invalidate g bucket object version_id =
    (if \<not> rg_initialized g \<or> rg_cache g = None then Ok (-1, g)
     else let vid = (case version_id of Some v \<Rightarrow> v | None \<Rightarrow> ''latest'') in
          case buckets_registry_build_key bucket object (Some vid) of
            None \<Rightarrow> Ok (-1, g)
          | Some key \<Rightarrow>
            (case registry_cache_drop g key of Ok (r, g) \<Rightarrow> Ok (if r then 0 else -1, g) | _ \<Rightarrow> Undefined))"

definition buckets_registry_cache_clear :: "registry_state \<Rightarrow> registry_state outcome" where
  "buckets_registry_cache_clear g =
    (case rg_cache g of
       None \<Rightarrow> Ok g
     | Some c \<Rightarrow> (case cache_clear c of Ok c \<Rightarrow> Ok (g\<lparr>rg_cache := Some c\<rparr>) | _ \<Rightarrow> Undefined))"

fun registry_record_all ::
  "'s object_layer \<Rightarrow> (json \<Rightarrow> string) \<Rightarrow> int \<Rightarrow> 's \<Rightarrow> registry_state \<Rightarrow> buckets_object_location list
     \<Rightarrow> (nat \<times> 's \<times> registry_state) outcome" where
  "registry_record_all layer print now st g [] = Ok (0, st, g)"
| "registry_record_all layer print now st g (l # ls) =
    (case buckets_registry_record layer print now st g l of
       Ok (r, st, g) \<Rightarrow>
         (case registry_record_all layer print now st g ls of
            Ok (n, st, g) \<Rightarrow> Ok (if r = 0 then n + 1 else n, st, g)
          | _ \<Rightarrow> Undefined)
     | _ \<Rightarrow> Undefined)"

definition buckets_registry_record_batch ::
  "'s object_layer \<Rightarrow> (json \<Rightarrow> string) \<Rightarrow> int \<Rightarrow> 's \<Rightarrow> registry_state \<Rightarrow> buckets_object_location list
     \<Rightarrow> (int \<times> 's \<times> registry_state) outcome" where
  "buckets_registry_record_batch layer print now st g locations =
    (if \<not> rg_initialized g \<or> locations = [] then Ok (-1, st, g)
     else case registry_record_all layer print now st g locations of
            Ok (n, st, g) \<Rightarrow> Ok (int n, st, g)
          | _ \<Rightarrow> Undefined)"

fun registry_lookup_all ::
  "'s object_layer \<Rightarrow> (string \<Rightarrow> json option) \<Rightarrow> int \<Rightarrow> 's \<Rightarrow> registry_state
     \<Rightarrow> (string option \<times> string option \<times> string option) list
     \<Rightarrow> (buckets_object_location option list \<times> registry_state) outcome" where
  "registry_lookup_all layer parse now st g [] = Ok ([], g)"
| "registry_lookup_all layer parse now st g ((b, obj, v) # ks) =
    (case buckets_registry_lookup layer parse now st g b obj v of
       Ok (r, l, g) \<Rightarrow>
         (case registry_lookup_all layer parse now st g ks of
            Ok (ls, g) \<Rightarrow> Ok ((if r = 0 then l else None) # ls, g)
          | _ \<Rightarrow> Undefined)
     | _ \<Rightarrow> Undefined)"

definition buckets_registry_lookup_batch ::
  "'s object_layer \<Rightarrow> (string \<Rightarrow> json option) \<Rightarrow> int \<Rightarrow> 's \<Rightarrow> registry_state
     \<Rightarrow> (string option \<times> string option \<times> string option) list
     \<Rightarrow> (int \<times> buckets_object_location option list \<times> registry_state) outcome" where
  "buckets_registry_lookup_batch layer parse now st g keys =
    (if \<not> rg_initialized g \<or> keys = [] then Ok (-1, [], g)
     else case registry_lookup_all layer parse now st g keys of
            Ok (ls, g) \<Rightarrow> Ok (int (length (filter (\<lambda>l. l \<noteq> None) ls)), ls, g)
          | _ \<Rightarrow> Undefined)"

definition buckets_registry_update ::
  "'s object_layer \<Rightarrow> (json \<Rightarrow> string) \<Rightarrow> int \<Rightarrow> 's \<Rightarrow> registry_state
     \<Rightarrow> string option \<Rightarrow> string option \<Rightarrow> string option \<Rightarrow> buckets_object_location
     \<Rightarrow> (int \<times> 's \<times> registry_state) outcome" where
  "buckets_registry_update layer print now st g bucket object version_id location =
    (case (rg_initialized g, buckets_registry_build_key bucket object version_id) of
       (True, Some key) \<Rightarrow>
         (case registry_cache_drop g key of
            Ok (_, g) \<Rightarrow> buckets_registry_record layer print now st g location
          | _ \<Rightarrow> Undefined)
     | _ \<Rightarrow> Ok (-1, st, g))"

section \<open>Keys read back\<close>

text \<open>A key is read back into its parts exactly when the object name has no slash.  For a
  bucket name without a slash, splitting the key that is built from three parts gives the
  parts back if and only if the object name contains no slash; names of objects in
  folders are split at the wrong place.\<close>

theorem registry_key_roundtrip:
  assumes "CHR ''/'' \<notin> set bucket"
  shows "(buckets_registry_build_key (Some bucket) (Some object) (Some version_id) = Some key \<and>
          buckets_registry_parse_key key = Some (bucket, object, version_id)) \<longleftrightarrow>
         (key = bucket @ ''/'' @ object @ ''/'' @ version_id \<and> CHR ''/'' \<notin> set object)"
proof -
  have "buckets_registry_parse_key (bucket @ ''/'' @ object @ ''/'' @ version_id) = Some (bucket, object, version_id)
      \<longleftrightarrow> strchr (CHR ''/'') (object @ ''/'' @ version_id) = Some (object, version_id)"
    using assms by (auto simp: buckets_registry_parse_key_def split: option.split)
  moreover have "strchr (CHR ''/'') (object @ ''/'' @ version_id) = Some (object, version_id) \<longleftrightarrow> CHR ''/'' \<notin> set object"
    using strchr_SomeD [of "CHR ''/''" "object @ ''/'' @ version_id" object version_id] by auto
  ultimately show ?thesis by (auto simp: buckets_registry_build_key_def)
qed

theorem registry_key_roundtrip_witness:
  "buckets_registry_parse_key ''b/o/v'' = Some (''b'', ''o'', ''v'') \<and>
   buckets_registry_parse_key ''b/d/o/v'' \<noteq> Some (''b'', ''d/o'', ''v'')"
  using registry_key_roundtrip [of "''b''" "''o''" "''v''" "''b/o/v''"]
    registry_key_roundtrip [of "''b''" "''d/o''" "''v''" "''b/d/o/v''"]
  by (simp add: buckets_registry_build_key_def)

section \<open>Locations read back\<close>

text \<open>What a location becomes on its way through JSON: every number is read back through
  \<^verbatim>\<open>int\<close>.\<close>

definition sat31 :: "'a::len word \<Rightarrow> 'a word" where
  "sat31 w = (if uint w < 2 ^ 31 then w else of_int i32_max)"

definition location_saturated :: "buckets_object_location \<Rightarrow> buckets_object_location" where
  "location_saturated l =
     l\<lparr>ol_pool_idx := sat31 (ol_pool_idx l), ol_set_idx := sat31 (ol_set_idx l),
       ol_disk_idxs := map sat31 (ol_disk_idxs l), ol_generation := sat31 (ol_generation l),
       ol_mod_time := valueint (ol_mod_time l), ol_size := sat31 (ol_size l)\<rparr>"

text \<open>A location as the writers fill it in: named, at most sixteen disks, no stale indices
  behind them.\<close>

definition location_ok :: "buckets_object_location \<Rightarrow> bool" where
  "location_ok l \<longleftrightarrow> ol_bucket l \<noteq> None \<and> ol_object l \<noteq> None \<and> ol_version_id l \<noteq> None \<and>
     unat (ol_disk_count l) \<le> BUCKETS_REGISTRY_MAX_DISKS \<and> length (ol_disk_idxs l) = BUCKETS_REGISTRY_MAX_DISKS \<and>
     (\<forall>i < BUCKETS_REGISTRY_MAX_DISKS. unat (ol_disk_count l) \<le> i \<longrightarrow> ol_disk_idxs l ! i = 0)"

lemma valueint_word: "of_int (valueint (uint (w :: 'a::len word))) = sat31 w"
proof (cases "uint w < 2 ^ 31")
  case True
  have "\<not> uint w \<le> - 2147483648" using uint_ge_0 [of w] by linarith
  moreover have "uint w \<le> 2147483647" using True by simp
  ultimately have "valueint (uint w) = uint w" by (simp add: valueint_def)
  with True show ?thesis by (simp add: sat31_def)
qed (simp add: valueint_def sat31_def)

lemma sat31_small [simp]: "uint w < 2 ^ 31 \<Longrightarrow> sat31 w = w" and sat31_0 [simp]: "sat31 0 = 0"
  by (simp_all add: sat31_def)

lemma location_json_tree:
  assumes "location_ok l"
  shows "\<exists>j. buckets_registry_location_to_json l = Ok j \<and> location_of_tree j = location_saturated l"
proof -
  obtain b obj v where n: "ol_bucket l = Some b" "ol_object l = Some obj" "ol_version_id l = Some v"
    using assms by (auto simp: location_ok_def)
  have c: "unat (ol_disk_count l) \<le> 16" "length (ol_disk_idxs l) = 16"
    "\<And>i. i < 16 \<Longrightarrow> unat (ol_disk_count l) \<le> i \<Longrightarrow> ol_disk_idxs l ! i = 0"
    using assms by (simp_all add: location_ok_def BUCKETS_REGISTRY_MAX_DISKS_def)
  let ?ds = "map (\<lambda>i. JNum (uint (ol_disk_idxs l ! i))) [0..<unat (ol_disk_count l)]"
  let ?j = "JObj [(''bucket'', JStr b), (''object'', JStr obj), (''version_id'', JStr v),
    (''pool_idx'', JNum (uint (ol_pool_idx l))), (''set_idx'', JNum (uint (ol_set_idx l))),
    (''disk_count'', JNum (uint (ol_disk_count l))), (''disk_idxs'', JArr ?ds),
    (''generation'', JNum (uint (ol_generation l))), (''mod_time'', JNum (ol_mod_time l)),
    (''size'', JNum (uint (ol_size l)))]"
  have j: "buckets_registry_location_to_json l = Ok ?j"
    using c(1) n by (simp add: buckets_registry_location_to_json_def BUCKETS_REGISTRY_MAX_DISKS_def json_simps Let_def)
  have ci: "get_object_item_ci ?j ''disk_idxs'' = Some (JArr ?ds)"
    by (simp add: tolower_def)
  have ds: "read_disk_idxs (Some (JArr ?ds)) = map sat31 (ol_disk_idxs l)"
  proof (rule nth_equalityI)
    show len: "length (read_disk_idxs (Some (JArr ?ds))) = length (map sat31 (ol_disk_idxs l))"
      using c(2) by (simp add: read_disk_idxs_def BUCKETS_REGISTRY_MAX_DISKS_def del: upt_rec_numeral)
    fix i assume "i < length (read_disk_idxs (Some (JArr ?ds)))"
    then have i: "i < 16" unfolding len by (simp add: c(2))
    then show "read_disk_idxs (Some (JArr ?ds)) ! i = map sat31 (ol_disk_idxs l) ! i"
      using c(2) c(3) [of i] by (simp add: read_disk_idxs_def BUCKETS_REGISTRY_MAX_DISKS_def valueint_word del: upt_rec_numeral)
  qed
  have "int (unat (ol_disk_count l)) \<le> 16" using c(1) by linarith
  then have dc: "sat31 (ol_disk_count l) = ol_disk_count l" by simp
  have "location_of_tree ?j = location_saturated l"
    unfolding location_of_tree_def location_saturated_def ci ds
    using n by (simp add: json_simps valueint_word dc)
  with j show ?thesis by blast
qed

lemma sat31_eq_iff: "sat31 (w :: u32) = w \<longleftrightarrow> uint w < 2 ^ 31" "sat31 (v :: u64) = v \<longleftrightarrow> uint v < 2 ^ 31"
  by (auto simp: sat31_def)

lemma sat31_idem [simp]: "sat31 (sat31 (w :: u32)) = sat31 w" "sat31 (sat31 (v :: u64)) = sat31 v"
  by (auto simp: sat31_def)

lemma valueint_eq_iff: "valueint n = n \<longleftrightarrow> in_i32 n"
  by (auto simp: valueint_def in_i32_def)

lemma valueint_idem [simp]: "valueint (valueint n) = valueint n"
  by (auto simp: valueint_def)

lemma location_saturated_idem [simp]: "location_saturated (location_saturated l) = location_saturated l"
  by (simp add: location_saturated_def)

text \<open>When nothing is lost.\<close>

definition location_fits :: "buckets_object_location \<Rightarrow> bool" where
  "location_fits l \<longleftrightarrow>
     uint (ol_pool_idx l) < 2 ^ 31 \<and> uint (ol_set_idx l) < 2 ^ 31 \<and> uint (ol_generation l) < 2 ^ 31 \<and>
     uint (ol_size l) < 2 ^ 31 \<and> in_i32 (ol_mod_time l) \<and> list_all (\<lambda>d. uint d < 2 ^ 31) (ol_disk_idxs l)"

lemma location_saturated_eq_iff: "location_saturated l = l \<longleftrightarrow> location_fits l"
proof -
  have "map sat31 ds = ds \<longleftrightarrow> list_all (\<lambda>d. uint d < 2 ^ 31) ds" for ds :: "u32 list"
    by (induction ds) (simp_all add: sat31_eq_iff)
  moreover have "location_saturated l = l \<longleftrightarrow> sat31 (ol_pool_idx l) = ol_pool_idx l \<and> sat31 (ol_set_idx l) = ol_set_idx l \<and>
      map sat31 (ol_disk_idxs l) = ol_disk_idxs l \<and> sat31 (ol_generation l) = ol_generation l \<and>
      valueint (ol_mod_time l) = ol_mod_time l \<and> sat31 (ol_size l) = ol_size l"
    by (cases l) (simp add: location_saturated_def)
  ultimately show ?thesis by (auto simp: location_fits_def sat31_eq_iff valueint_eq_iff)
qed

text \<open>A location is read back from its JSON form with every number saturated to the
  range of \<^verbatim>\<open>int\<close>.  The location is unchanged exactly if the indices, the generation and the
  size are below \<open>2 ^ 31\<close> and the time is in range: the size of an object of two gigabytes
  or more is lost.\<close>

lemma registry_location_roundtrip:
  assumes "location_ok l" "\<And>j. buckets_registry_location_to_json l = Ok j \<Longrightarrow> parse (print j) = Some j"
  shows "(\<exists>j. buckets_registry_location_to_json l = Ok j \<and>
              buckets_registry_location_from_json parse (print j) = Some (location_saturated l)) \<and>
         (location_saturated l = l \<longleftrightarrow> location_fits l)"
  using location_json_tree [OF assms(1)]
  by (auto simp: buckets_registry_location_from_json_def assms(2) location_saturated_eq_iff)

section \<open>Recording and looking up\<close>

definition registry_wf :: "registry_state \<Rightarrow> bool" where
  "registry_wf g \<longleftrightarrow> (\<forall>c. rg_cache g = Some c \<longrightarrow> cache_wf c)"

text \<open>The documented behaviour of the object layer: what was put is what is got, and a put or a
  delete concerns one key.\<close>

definition layer_ok :: "'s object_layer \<Rightarrow> bool" where
  "layer_ok layer \<longleftrightarrow>
     (\<forall>st b k d st'. put_object layer st b k d = (True, st') \<longrightarrow>
        get_object layer st' b k = Some d \<and> (\<forall>k'. k' \<noteq> k \<longrightarrow> get_object layer st' b k' = get_object layer st b k')) \<and>
     (\<forall>st b k r st'. delete_object layer st b k = (r, st') \<longrightarrow>
        (\<forall>k'. k' \<noteq> k \<longrightarrow> get_object layer st' b k' = get_object layer st b k'))"

lemma registry_record_ok:
  assumes "buckets_registry_record layer print now st g l = Ok (0, st', g')"
  obtains b obj v j where "rg_initialized g" "ol_bucket l = Some b" "ol_object l = Some obj" "ol_version_id l = Some v"
    "buckets_registry_location_to_json l = Ok j"
    "put_object layer st BUCKETS_REGISTRY_BUCKET (registry_object_key b obj v) (print j) = (True, st')"
    "registry_cache_put now g (b @ ''/'' @ obj @ ''/'' @ v) l = Ok g'"
  using assms
  by (auto simp: buckets_registry_record_def buckets_registry_build_key_def Let_def
      split: if_splits option.splits outcome.splits prod.splits)

lemma registry_cache_put_init: "registry_cache_put now g key l = Ok g' \<Longrightarrow> rg_initialized g' = rg_initialized g"
  by (auto simp: registry_cache_put_def split: option.splits outcome.splits)

lemma registry_cache_put_wf:
  assumes "registry_wf g"
  shows "\<exists>g'. registry_cache_put now g key l = Ok g' \<and> registry_wf g' \<and>
    (\<forall>c'. rg_cache g' = Some c' \<longrightarrow> (\<exists>e. cache_view c' key = Some (l, e)))"
  using assms rcache.put_law [of _ now key l]
  by (fastforce simp: registry_cache_put_def registry_wf_def split: option.splits)

text \<open>What was recorded is found.  After a location has been recorded, a lookup under the
  same names - at any later time, whether the cache still has the entry, has let it expire
  or is switched off - succeeds and returns that location, up to the saturation of its
  numbers.\<close>

lemma registry_lookup_after_record:
  assumes "layer_ok layer" "\<And>j. buckets_registry_location_to_json l = Ok j \<Longrightarrow> parse (print j) = Some j"
    and "registry_wf g" "location_ok l"
    and "buckets_registry_record layer print now st g l = Ok (0, st', g')"
  shows "\<exists>l' g''. buckets_registry_lookup layer parse now' st' g' (ol_bucket l) (ol_object l) (ol_version_id l) =
           Ok (0, Some l', g'') \<and> location_saturated l' = location_saturated l \<and> registry_wf g''"
proof -
  obtain b obj v j where r: "rg_initialized g" "ol_bucket l = Some b" "ol_object l = Some obj" "ol_version_id l = Some v"
    "buckets_registry_location_to_json l = Ok j"
    "put_object layer st BUCKETS_REGISTRY_BUCKET (registry_object_key b obj v) (print j) = (True, st')"
    "registry_cache_put now g (b @ ''/'' @ obj @ ''/'' @ v) l = Ok g'"
    by (rule registry_record_ok [OF assms(5)])
  let ?key = "b @ ''/'' @ obj @ ''/'' @ v"
  have g': "rg_initialized g'" "registry_wf g'" "\<And>c. rg_cache g' = Some c \<Longrightarrow> \<exists>e. cache_view c ?key = Some (l, e)"
    using r(1,7) registry_cache_put_init [OF r(7)] registry_cache_put_wf [OF assms(3), of now ?key l] by auto
  have get: "get_object layer st' BUCKETS_REGISTRY_BUCKET (registry_object_key b obj v) = Some (print j)"
    using assms(1) r(6) unfolding layer_ok_def by blast
  have tree: "buckets_registry_location_from_json parse (print j) = Some (location_saturated l)"
    using location_json_tree [OF assms(4)] r(5) by (simp add: buckets_registry_location_from_json_def assms(2) [OF r(5)])
  show ?thesis
  proof (cases "rg_cache g'")
    case None
    then have "registry_cache_put now' g' ?key (location_saturated l) = Ok g'" by (simp add: registry_cache_put_def)
    then show ?thesis
      using g'(1,2) get tree None r(2-4)
      by (simp add: buckets_registry_lookup_def buckets_registry_build_key_def registry_cache_get_def)
  next
    case (Some c)
    obtain e where e: "cache_view c ?key = Some (l, e)" using g'(3) [OF Some] by blast
    have "cache_wf c" using g'(2) Some by (simp add: registry_wf_def)
    then obtain c' where c': "cache_get now' c ?key = Ok (if e < now' then None else Some l, c')" "cache_wf c'"
      using rcache.get_law [of c now' ?key] e by auto
    let ?g = "g'\<lparr>rg_cache := Some c'\<rparr>"
    have "registry_wf ?g" using c'(2) by (simp add: registry_wf_def)
    then obtain g2 where "registry_cache_put now' ?g ?key (location_saturated l) = Ok g2" "registry_wf g2"
      using registry_cache_put_wf by blast
    then show ?thesis
      using g'(1) get tree Some c' r(2-4)
      by (simp add: buckets_registry_lookup_def buckets_registry_build_key_def registry_wf_def registry_cache_get_def)
  qed
qed

text \<open>What the storage holds under a key, up to saturation, and the coherence of the cache with
  it.\<close>

definition stored :: "'s object_layer \<Rightarrow> (string \<Rightarrow> json option) \<Rightarrow> 's \<Rightarrow> string \<Rightarrow> buckets_object_location \<Rightarrow> bool" where
  "stored layer parse st key l \<longleftrightarrow> length key < 1019 \<and>
     (\<exists>data l0. get_object layer st BUCKETS_REGISTRY_BUCKET (key @ ''.json'') = Some data \<and>
        buckets_registry_location_from_json parse data = Some l0 \<and> location_saturated l0 = location_saturated l)"

definition registry_coherent :: "'s object_layer \<Rightarrow> (string \<Rightarrow> json option) \<Rightarrow> 's \<Rightarrow> registry_state \<Rightarrow> bool" where
  "registry_coherent layer parse st g \<longleftrightarrow>
     (\<forall>c. rg_cache g = Some c \<longrightarrow> cache_wf c \<and>
        (\<forall>k l e. cache_view c k = Some (l, e) \<longrightarrow> stored layer parse st k l))"

lemma registry_coherent_cache:
  "registry_coherent layer parse st g \<longleftrightarrow>
     (\<forall>c. rg_cache g = Some c \<longrightarrow> rcache.coherent c (stored layer parse st))"
  by (auto simp: registry_coherent_def rcache.coherent_def)

lemma registry_object_key_short:
  "length (b @ ''/'' @ obj @ ''/'' @ v) < 1019 \<Longrightarrow>
     registry_object_key b obj v = (b @ ''/'' @ obj @ ''/'' @ v) @ ''.json''"
  by (simp add: registry_object_key_def)

lemma registry_cache_put_coherent:
  assumes "registry_coherent layer parse st g" "\<And>k l'. k \<noteq> key \<Longrightarrow> stored layer parse st k l' \<Longrightarrow> stored layer parse st' k l'"
    and "stored layer parse st' key l"
  shows "\<exists>g'. registry_cache_put now g key l = Ok g' \<and> registry_coherent layer parse st' g'"
proof (cases "rg_cache g")
  case (Some c)
  then have "rcache.coherent c (stored layer parse st)" using assms(1) by (simp add: registry_coherent_cache)
  then have "\<exists>c'. cache_put now c key l = Ok c' \<and> rcache.coherent c' (stored layer parse st')"
    by (rule rcache.coherent_put) (use assms(2,3) in auto)
  then show ?thesis using Some by (auto simp: registry_cache_put_def registry_coherent_cache)
qed (simp add: registry_cache_put_def registry_coherent_def)

lemma stored_frame:
  assumes "\<And>k'. k' \<noteq> key @ ''.json'' \<Longrightarrow>
      get_object layer st' BUCKETS_REGISTRY_BUCKET k' = get_object layer st BUCKETS_REGISTRY_BUCKET k'"
    and "k \<noteq> key" "stored layer parse st k l"
  shows "stored layer parse st' k l"
  using assms by (simp add: stored_def)

lemma registry_record_coherent:
  assumes "layer_ok layer" "\<And>j. buckets_registry_location_to_json l = Ok j \<Longrightarrow> parse (print j) = Some j"
    and "location_ok l" "registry_coherent layer parse st g"
    and "\<And>k. buckets_registry_build_key (ol_bucket l) (ol_object l) (ol_version_id l) = Some k \<Longrightarrow> length k < 1019"
    and "buckets_registry_record layer print now st g l = Ok (0, st', g')"
  shows "registry_coherent layer parse st' g'"
proof -
  obtain b obj v j where r: "ol_bucket l = Some b" "ol_object l = Some obj" "ol_version_id l = Some v"
    "buckets_registry_location_to_json l = Ok j"
    "put_object layer st BUCKETS_REGISTRY_BUCKET (registry_object_key b obj v) (print j) = (True, st')"
    "registry_cache_put now g (b @ ''/'' @ obj @ ''/'' @ v) l = Ok g'"
    by (rule registry_record_ok [OF assms(6)])
  let ?key = "b @ ''/'' @ obj @ ''/'' @ v"
  have len: "length ?key < 1019" using assms(5) r(1-3) by (simp add: buckets_registry_build_key_def)
  have put: "get_object layer st' BUCKETS_REGISTRY_BUCKET (?key @ ''.json'') = Some (print j)"
    "\<And>k. k \<noteq> ?key @ ''.json'' \<Longrightarrow> get_object layer st' BUCKETS_REGISTRY_BUCKET k = get_object layer st BUCKETS_REGISTRY_BUCKET k"
    using assms(1) r(5) unfolding layer_ok_def registry_object_key_short [OF len] by blast+
  have "stored layer parse st' ?key l"
    using put(1) len location_json_tree [OF assms(3)] r(4) assms(2) [OF r(4)]
    by (auto simp: stored_def buckets_registry_location_from_json_def)
  moreover have "stored layer parse st' k l'" if "k \<noteq> ?key" "stored layer parse st k l'" for k l'
    using stored_frame [OF put(2) that] .
  ultimately show ?thesis
    using registry_cache_put_coherent [OF assms(4), of ?key st' l now] r(6) by auto
qed

lemma registry_cache_get_coherent:
  assumes "registry_coherent layer parse st g"
  obtains hit g' where "registry_cache_get now g key = Ok (hit, g')" "registry_coherent layer parse st g'"
    "\<And>l. hit = Some l \<Longrightarrow> stored layer parse st key l"
proof (cases "rg_cache g")
  case None
  then show ?thesis using assms(1) by (intro that [of None g]) (simp_all add: registry_cache_get_def)
next
  case (Some c)
  then have "rcache.coherent c (stored layer parse st)" using assms(1) by (simp add: registry_coherent_cache)
  from rcache.coherent_get [OF this, of now key] obtain hit c' where "cache_get now c key = Ok (hit, c')"
    "rcache.coherent c' (stored layer parse st)" "\<And>l. hit = Some l \<Longrightarrow> stored layer parse st key l" by blast
  then show ?thesis
    using Some by (intro that [of hit "g\<lparr>rg_cache := Some c'\<rparr>"]) (simp_all add: registry_coherent_cache registry_cache_get_def)
qed

lemma registry_lookup_eq:
  assumes "rg_initialized g" "key = b @ ''/'' @ obj @ ''/'' @ v" "length key < 1019"
  shows "buckets_registry_lookup layer parse now st g (Some b) (Some obj) (Some v) =
    (case registry_cache_get now g key of
       Ok (Some location, g) \<Rightarrow> Ok (0, Some location, g)
     | Ok (None, g) \<Rightarrow>
         (case get_object layer st BUCKETS_REGISTRY_BUCKET (key @ ''.json'') of
            None \<Rightarrow> Ok (-1, None, g)
          | Some json_str \<Rightarrow>
            (case buckets_registry_location_from_json parse json_str of
               None \<Rightarrow> Ok (-1, None, g)
             | Some location \<Rightarrow>
               (case registry_cache_put now g key location of
                  Ok g \<Rightarrow> Ok (0, Some location, g)
                | _ \<Rightarrow> Undefined)))
     | _ \<Rightarrow> Undefined)"
proof -
  have o: "registry_object_key b obj v = key @ ''.json''"
    unfolding assms(2) by (rule registry_object_key_short) (use assms(2,3) in simp)
  have k: "b @ CHR ''/'' # obj @ CHR ''/'' # v = key" by (simp add: assms(2))
  show ?thesis
    unfolding buckets_registry_lookup_def buckets_registry_build_key_def by (simp add: assms(1) Let_def k o split: outcome.split option.split)
qed

lemma registry_lookup_coherent:
  assumes "registry_coherent layer parse st g" "key = b @ ''/'' @ obj @ ''/'' @ v" "length key < 1019"
    and "buckets_registry_lookup layer parse now st g (Some b) (Some obj) (Some v) = Ok (r, res, g')"
  shows "registry_coherent layer parse st g' \<and> (\<forall>l. res = Some l \<longrightarrow> stored layer parse st key l)"
proof (cases "rg_initialized g")
  case True
  obtain hit g1 where g1: "registry_cache_get now g key = Ok (hit, g1)" "registry_coherent layer parse st g1"
    "\<And>l. hit = Some l \<Longrightarrow> stored layer parse st key l"
    using registry_cache_get_coherent [OF assms(1), of now key] by blast
  have st: "stored layer parse st key l" and new: "\<exists>g2. registry_cache_put now g1 key l = Ok g2 \<and> registry_coherent layer parse st g2"
    if "get_object layer st BUCKETS_REGISTRY_BUCKET (key @ ''.json'') = Some data"
      "buckets_registry_location_from_json parse data = Some l" for data l
  proof -
    show s: "stored layer parse st key l" using that assms(3) by (auto simp: stored_def)
    show "\<exists>g2. registry_cache_put now g1 key l = Ok g2 \<and> registry_coherent layer parse st g2"
      by (rule registry_cache_put_coherent [OF g1(2) _ s])
  qed
  show ?thesis
    using assms(4) g1 st new unfolding registry_lookup_eq [OF True assms(2,3)]
    by (fastforce split: option.splits outcome.splits)
qed (use assms in \<open>auto simp: buckets_registry_lookup_def\<close>)

lemma registry_delete_coherent:
  assumes "layer_ok layer" "registry_coherent layer parse st g" "length (b @ ''/'' @ obj @ ''/'' @ v) < 1019"
    and "buckets_registry_delete layer st g (Some b) (Some obj) (Some v) = Ok (r, st', g')"
  shows "registry_coherent layer parse st' g'"
proof (cases "rg_initialized g")
  case True
  let ?key = "b @ ''/'' @ obj @ ''/'' @ v"
  obtain ok where d: "delete_object layer st BUCKETS_REGISTRY_BUCKET (?key @ ''.json'') = (ok, st')"
    using assms(4) True
    by (cases "delete_object layer st BUCKETS_REGISTRY_BUCKET (?key @ ''.json'')")
      (auto simp: buckets_registry_delete_def registry_object_key_short [OF assms(3)] split: if_splits outcome.splits)
  have fr: "\<And>k. k \<noteq> ?key @ ''.json'' \<Longrightarrow> get_object layer st' BUCKETS_REGISTRY_BUCKET k = get_object layer st BUCKETS_REGISTRY_BUCKET k"
    using assms(1) d unfolding layer_ok_def by blast
  show ?thesis
  proof (cases "rg_cache g")
    case None
    then show ?thesis
      using assms(4) True d by (auto simp: buckets_registry_delete_def registry_object_key_short [OF assms(3)] registry_coherent_def)
  next
    case (Some c)
    then have "rcache.coherent c (stored layer parse st)" using assms(2) by (simp add: registry_coherent_cache)
    then have "\<exists>r c'. cache_invalidate c ?key = Ok (r, c') \<and> rcache.coherent c' (stored layer parse st')"
      by (rule rcache.coherent_drop) (rule stored_frame [OF fr])
    then show ?thesis
      using assms(4) True d Some
      by (auto simp: buckets_registry_delete_def registry_object_key_short [OF assms(3)] registry_cache_drop_def
          buckets_registry_build_key_def registry_coherent_cache)
  qed
qed (use assms in \<open>auto simp: buckets_registry_delete_def registry_coherent_def\<close>)

text \<open>The cache never contradicts the storage.  If every cached location is what the
  storage holds under its key, up to the saturation of numbers, then this is still so
  after a successful record, after a lookup and after a delete, for names whose key fits
  the buffer of the storage key; and every location a lookup returns is what the storage
  holds.\<close>

lemma registry_coherence:
  assumes "layer_ok layer" "registry_coherent layer parse st g"
    and "key = b @ ''/'' @ obj @ ''/'' @ v" "length key < 1019"
  shows "(\<forall>l now st' g'. location_ok l \<and> (ol_bucket l, ol_object l, ol_version_id l) = (Some b, Some obj, Some v) \<and>
            (\<forall>j. buckets_registry_location_to_json l = Ok j \<longrightarrow> parse (print j) = Some j) \<and>
            buckets_registry_record layer print now st g l = Ok (0, st', g') \<longrightarrow> registry_coherent layer parse st' g') \<and>
         (\<forall>now r res g'. buckets_registry_lookup layer parse now st g (Some b) (Some obj) (Some v) = Ok (r, res, g') \<longrightarrow>
            registry_coherent layer parse st g' \<and> (\<forall>l. res = Some l \<longrightarrow> stored layer parse st key l)) \<and>
         (\<forall>r st' g'. buckets_registry_delete layer st g (Some b) (Some obj) (Some v) = Ok (r, st', g') \<longrightarrow>
            registry_coherent layer parse st' g')"
proof (intro conjI allI impI)
  fix l now st' g'
  assume "location_ok l \<and> (ol_bucket l, ol_object l, ol_version_id l) = (Some b, Some obj, Some v) \<and>
    (\<forall>j. buckets_registry_location_to_json l = Ok j \<longrightarrow> parse (print j) = Some j) \<and>
    buckets_registry_record layer print now st g l = Ok (0, st', g')"
  then show "registry_coherent layer parse st' g'"
    using assms(3,4) by (intro registry_record_coherent [OF assms(1) _ _ assms(2)])
      (auto simp: buckets_registry_build_key_def)
qed (use registry_lookup_coherent [OF assms(2-4)] registry_delete_coherent [OF assms(1,2)] assms(3,4) in auto)

section \<open>A small registry\<close>

definition small_layer :: "(string \<Rightarrow> string option) object_layer" where
  "small_layer = \<lparr>put_object = (\<lambda>st b k d. (True, st(k \<mapsto> d))), get_object = (\<lambda>st b k. st k),
                  delete_object = (\<lambda>st b k. (True, st(k := None)))\<rparr>"

definition small_registry :: registry_state where
  "small_registry = buckets_registry_init (Some \<lparr>cf_cache_size = 4, cf_cache_ttl_seconds = 300, cf_enable_cache = True\<rparr>)
     \<lparr>rg_config = \<lparr>cf_cache_size = 0, cf_cache_ttl_seconds = 0, cf_enable_cache = False\<rparr>, rg_cache = None,
      rg_initialized = False\<rparr>"

lemma small_layer_ok: "layer_ok small_layer"
  by (auto simp: layer_ok_def small_layer_def)

lemma small_location_ok: "location_ok small_location"
proof -
  have "([0, 1] @ replicate 14 0) ! i = (0 :: u32)" if "i < 16" "2 \<le> i" for i
    using that by (simp add: nth_append)
  then show ?thesis by (simp add: location_ok_def small_location_def BUCKETS_REGISTRY_MAX_DISKS_def)
qed

lemma small_location_names:
  "ol_bucket small_location = Some ''b''" "ol_object small_location = Some ''o''"
  "ol_version_id small_location = Some ''v''"
  by (simp_all add: small_location_def)

end
