(* ===== verification/Base64.thy ===== *)
theory Base64
  imports Buckets_Prelude
begin

text \<open>
  The base64 routines of the storage layer.  Chunks travel between nodes as base64 text
  inside JSON, and small objects are kept as base64 text inside their metadata.  The
  encoder has the same body in \<^verbatim>\<open>distributed.c\<close>, \<^verbatim>\<open>distributed_rpc.c\<close>, \<^verbatim>\<open>metadata_utils.c\<close>
  and \<^verbatim>\<open>object.c\<close>, all under \<^verbatim>\<open>src/src/storage/\<close>, the latter two adding where the former combine with
  or.  There are four decoders: the one of \<^verbatim>\<open>distributed.c\<close> and \<^verbatim>\<open>distributed_rpc.c\<close>, which
  reads character by character, the one of \<^verbatim>\<open>src/src/registry/registry.c\<close>, which differs from
  it in how much it allocates, the one of \<^verbatim>\<open>object.c\<close>, which reads groups of four, and the
  one of \<^verbatim>\<open>versioning.c\<close>, which has the loop of \<^verbatim>\<open>object.c\<close> and another formula for the size.
\<close>

section \<open>Encoding\<close>

definition base64_chars :: string where
  "base64_chars = ''ABCDEFGHIJKLMNOPQRSTUVWXYZabcdefghijklmnopqrstuvwxyz0123456789+/''"

definition base64_char :: "u32 \<Rightarrow> char" where
  "base64_char w = base64_chars ! unat (w AND 0x3F)"

definition b64_triple :: "u8 \<Rightarrow> u8 \<Rightarrow> u8 \<Rightarrow> u32" where
  "b64_triple a b c = push_bit 16 (ucast a) OR push_bit 8 (ucast b) OR ucast c"

definition b64_triple_sum :: "u8 \<Rightarrow> u8 \<Rightarrow> u8 \<Rightarrow> u32" where
  "b64_triple_sum a b c = push_bit 16 (ucast a) + push_bit 8 (ucast b) + ucast c"

definition b64_quad :: "u32 \<Rightarrow> string" where
  "b64_quad triple =
     [base64_char (drop_bit 18 triple), base64_char (drop_bit 12 triple),
      base64_char (drop_bit 6 triple), base64_char triple]"

text \<open>The loop, three octets at a time, missing ones counted as zero.\<close>

fun b64_quads :: "(u8 \<Rightarrow> u8 \<Rightarrow> u8 \<Rightarrow> u32) \<Rightarrow> bytes \<Rightarrow> string" where
  "b64_quads tr [] = []"
| "b64_quads tr [a] = b64_quad (tr a 0 0)"
| "b64_quads tr [a, b] = b64_quad (tr a b 0)"
| "b64_quads tr (a # b # c # r) = b64_quad (tr a b c) @ b64_quads tr r"

definition b64_pad :: "nat \<Rightarrow> string \<Rightarrow> string" where
  "b64_pad n encoded =
    (let padding = (3 - n mod 3) mod 3
     in take (length encoded - padding) encoded @ replicate padding (CHR ''=''))"

definition base64_encode :: "bytes \<Rightarrow> string" where
  "base64_encode data = b64_pad (length data) (b64_quads b64_triple data)"

definition base64_encode_sum :: "bytes \<Rightarrow> string" where
  "base64_encode_sum data = b64_pad (length data) (b64_quads b64_triple_sum data)"

section \<open>Decoding\<close>

text \<open>\<^verbatim>\<open>strchr(base64_chars, c)\<close> as an index; the table of the registry gives the same, with
  64 for every other character.\<close>

fun b64_position :: "char \<Rightarrow> string \<Rightarrow> nat option" where
  "b64_position c [] = None"
| "b64_position c (x # xs) = (if x = c then Some 0 else map_option Suc (b64_position c xs))"

definition base64_index :: "char \<Rightarrow> u32 option" where
  "base64_index c = map_option of_nat (b64_position c base64_chars)"

text \<open>The loop over the characters: it stops at padding, skips what is not in the alphabet,
  and writes a byte whenever eight bits are there.  \<open>room\<close> is the size of the allocation.\<close>

fun b64_stream :: "nat \<Rightarrow> u32 \<Rightarrow> nat \<Rightarrow> bytes \<Rightarrow> string \<Rightarrow> bytes outcome" where
  "b64_stream room buffer bits out [] = Ok out"
| "b64_stream room buffer bits out (c # cs) =
    (if c = CHR ''='' then Ok out
     else case base64_index c of
       None \<Rightarrow> b64_stream room buffer bits out cs
     | Some v \<Rightarrow>
       (let buffer = push_bit 6 buffer OR v; bits = bits + 6 in
        if 8 \<le> bits
        then (let bits = bits - 8 in
              if length out < room
              then b64_stream room buffer bits (out @ [ucast (drop_bit bits buffer AND 0xFF)]) cs
              else Undefined)
        else b64_stream room buffer bits out cs))"

text \<open>The number of padding characters at the end, as every decoder counts them.\<close>

definition b64_padding :: "string \<Rightarrow> nat" where
  "b64_padding s =
     (if 0 < length s \<and> s ! (length s - 1) = CHR ''='' then 1 else 0) +
     (if 1 < length s \<and> s ! (length s - 2) = CHR ''='' then 1 else 0)"

text \<open>The decoder of the storage nodes.  It looks at the last two characters without asking
  whether there are any; the size is computed in \<^verbatim>\<open>size_t\<close>, and an allocation of the whole
  address space aborts.\<close>

definition base64_decode :: "string \<Rightarrow> bytes outcome" where
  "base64_decode input =
    (let input_len = length input in
     if input_len < 2 then Undefined
     else let decoded_len = of_nat (input_len div 4 * 3) - of_nat (b64_padding input) :: u64
          in if decoded_len + 1 = - 1 then Fail BUCKETS_ERR_NOMEM
             else b64_stream (unat (decoded_len + 1)) 0 0 [] input)"

text \<open>The decoder of the registry: \<^verbatim>\<open>NULL\<close> for an empty text, and the terminator it writes
  must fit as well.\<close>

definition decode_base64_inline :: "string \<Rightarrow> bytes option outcome" where
  "decode_base64_inline encoded =
    (let in_len = length encoded in
     if in_len = 0 then Ok None
     else let room = unat (of_nat (in_len * 3 div 4) - of_nat (b64_padding encoded) + 1 :: u64)
          in case b64_stream room 0 0 [] encoded of
               Ok out \<Rightarrow> if length out < room then Ok (Some out) else Undefined
             | Fail e \<Rightarrow> Fail e
             | Undefined \<Rightarrow> Undefined)"

text \<open>The decoder of \<^verbatim>\<open>object.c\<close>, four characters at a time.  A last group of three takes the
  terminator for its fourth character; a shorter one is read past it.\<close>

definition base64_sextet :: "char \<Rightarrow> u32" where
  "base64_sextet c = (if c = CHR ''='' then 0 else case base64_index c of Some v \<Rightarrow> v | None \<Rightarrow> 0)"

definition b64_octets :: "u32 \<Rightarrow> u32 \<Rightarrow> u32 \<Rightarrow> u32 \<Rightarrow> bytes" where
  "b64_octets a b c d =
    (let triple = push_bit 18 a + push_bit 12 b + push_bit 6 c + d
     in [ucast (drop_bit 16 triple AND 0xFF), ucast (drop_bit 8 triple AND 0xFF), ucast (triple AND 0xFF)])"

fun b64_groups :: "string \<Rightarrow> bytes outcome" where
  "b64_groups [] = Ok []"
| "b64_groups [a, b, c] = Ok (b64_octets (base64_sextet a) (base64_sextet b) (base64_sextet c) 0)"
| "b64_groups (a # b # c # d # r) =
    (case b64_groups r of
       Ok out \<Rightarrow> Ok (b64_octets (base64_sextet a) (base64_sextet b) (base64_sextet c) (base64_sextet d) @ out)
     | Fail e \<Rightarrow> Fail e
     | Undefined \<Rightarrow> Undefined)"
| "b64_groups _ = Undefined"

definition base64_decode_object :: "string \<Rightarrow> bytes outcome" where
  "base64_decode_object encoded =
    (let len = length encoded;
         decoded_size = of_nat (len div 4 * 3) - of_nat (b64_padding encoded) :: u64
     in if 0x8000000000000000 \<le> decoded_size then Fail BUCKETS_ERR_NOMEM
        else case b64_groups encoded of
               Ok out \<Rightarrow> Ok (take (unat decoded_size) out)
             | Fail e \<Rightarrow> Fail e
             | Undefined \<Rightarrow> Undefined)"

text \<open>The decoder of \<^verbatim>\<open>versioning.c\<close> multiplies the length by three before it divides by
  four; both are done in \<^verbatim>\<open>size_t\<close>.\<close>

definition base64_decode_version :: "string \<Rightarrow> bytes outcome" where
  "base64_decode_version encoded =
    (let len = of_nat (length encoded) :: u64;
         decoded_size = len * 3 div 4 - of_nat (b64_padding encoded)
     in if 0x8000000000000000 \<le> decoded_size then Fail BUCKETS_ERR_NOMEM
        else case b64_groups encoded of
               Ok out \<Rightarrow> Ok (take (unat decoded_size) out)
             | Fail e \<Rightarrow> Fail e
             | Undefined \<Rightarrow> Undefined)"

section \<open>The alphabet\<close>

lemma b64_position_nth:
  "distinct xs \<Longrightarrow> n < length xs \<Longrightarrow> b64_position (xs ! n) xs = Some n"
  by (induction xs arbitrary: n) (auto simp: nth_Cons split: nat.split)

lemma b64_position_set: "b64_position c xs = None \<longleftrightarrow> c \<notin> set xs"
  by (induction xs) auto

lemma base64_chars_props: "distinct base64_chars" "length base64_chars = 64" "CHR ''='' \<notin> set base64_chars"
  by (simp_all add: base64_chars_def)

lemma unat_and_63: "unat (w AND 0x3F :: u32) < 64"
proof -
  have "w AND 0x3F = take_bit 6 w" by (simp add: take_bit_eq_mask mask_eq_exp_minus_1)
  then show ?thesis using take_bit_nat_less_exp [of 6 "unat w"] by (simp add: unsigned_take_bit_eq)
qed

lemma base64_index_char: "base64_index (base64_char w) = Some (w AND 0x3F)"
  using unat_and_63 [of w] base64_chars_props by (simp add: base64_index_def base64_char_def b64_position_nth)

lemma base64_char_not_pad: "base64_char w \<noteq> CHR ''=''"
  using unat_and_63 [of w] base64_chars_props unfolding base64_char_def by (metis nth_mem)

section \<open>One group\<close>

lemma mask_numerals: "(0x3F :: u32) = mask 6" "(0xFF :: u32) = mask 8"
  by (simp_all add: mask_eq_exp_minus_1)

definition sextets :: "u32 \<Rightarrow> u32 \<Rightarrow> u32" where
  "sextets buf w = push_bit 6 buf OR (w AND 0x3F)"

lemma not_bit_u8: "8 \<le> n \<Longrightarrow> \<not> bit (w :: u8) n"
  using bit_imp_le_length [of w n] by auto

lemma b64_octet_1:
  "ucast (drop_bit 4 (sextets (sextets buf (drop_bit 18 (b64_triple a b c))) (drop_bit 12 (b64_triple a b c))) AND 0xFF) = a"
  unfolding sextets_def mask_numerals b64_triple_def
  by (rule bit_word_eqI) (auto simp: bit_simps not_bit_u8 numeral_2_eq_2 Suc_diff_Suc)

lemma b64_octet_2:
  "ucast (drop_bit 2 (sextets (sextets buf (drop_bit 12 (b64_triple a b c))) (drop_bit 6 (b64_triple a b c))) AND 0xFF) = b"
  unfolding sextets_def mask_numerals b64_triple_def
  by (rule bit_word_eqI) (auto simp: bit_simps not_bit_u8)

lemma b64_octet_3:
  "ucast (sextets (sextets buf (drop_bit 6 (b64_triple a b c))) (b64_triple a b c) AND 0xFF) = c"
  unfolding sextets_def mask_numerals b64_triple_def
  by (rule bit_word_eqI) (auto simp: bit_simps not_bit_u8)

section \<open>Round trips\<close>

lemma length_b64_quad [simp]: "length (b64_quad t) = 4"
  by (simp add: b64_quad_def)

lemma length_b64_quads: "length (b64_quads tr data) = (length data + 2) div 3 * 4"
proof (induction tr data rule: b64_quads.induct)
  case (4 tr a b c r)
  have "(5 + length r) div 3 = Suc (Suc (Suc (length r)) div 3)" by presburger
  with 4 show ?case by simp
qed simp_all

lemma base64_encode_simps:
  "base64_encode [] = []"
  "base64_encode [a] = take 2 (b64_quad (b64_triple a 0 0)) @ ''==''"
  "base64_encode [a, b] = take 3 (b64_quad (b64_triple a b 0)) @ ''=''"
  "base64_encode (a # b # c # r) = b64_quad (b64_triple a b c) @ base64_encode r"
proof -
  have rep: "replicate 2 x = [x, x]" "replicate (Suc 0) x = [x]" for x :: char by (simp_all add: numeral_2_eq_2)
  show "base64_encode [] = []" "base64_encode [a] = take 2 (b64_quad (b64_triple a 0 0)) @ ''==''"
    "base64_encode [a, b] = take 3 (b64_quad (b64_triple a b 0)) @ ''=''"
    using rep by (simp_all add: base64_encode_def b64_pad_def)
  have "(3 - length r mod 3) mod 3 \<le> (length r + 2) div 3 * 4"
  proof (cases "length r = 0")
    case False
    then have "1 \<le> (length r + 2) div 3" by (simp add: div_le_mono [of 3, simplified] Suc_le_eq div_greater_zero_iff)
    moreover have "(3 - length r mod 3) mod 3 < 3" by simp
    ultimately show ?thesis by linarith
  qed simp
  moreover have "Suc (Suc (Suc (length r))) mod 3 = length r mod 3" by presburger
  ultimately show "base64_encode (a # b # c # r) = b64_quad (b64_triple a b c) @ base64_encode r"
    by (simp add: base64_encode_def b64_pad_def Let_def length_b64_quads)
qed

lemma b64_stream_char:
  "b64_stream room buf bits out (base64_char w # cs) =
    (let buffer = sextets buf w in
     if 2 \<le> bits
     then (if length out < room
           then b64_stream room buffer (bits - 2) (out @ [ucast (drop_bit (bits - 2) buffer AND 0xFF)]) cs
           else Undefined)
     else b64_stream room buffer (bits + 6) out cs)"
  by (simp add: base64_index_char base64_char_not_pad Let_def sextets_def)

lemma b64_stream_pad: "b64_stream room buf bits out (CHR ''='' # cs) = Ok out"
  by simp

lemmas b64_stream_simps = b64_stream.simps(1) b64_stream_char b64_stream_pad

lemma b64_stream_encode:
  "length out + length data \<le> room \<Longrightarrow> b64_stream room buf 0 out (base64_encode data) = Ok (out @ data)"
proof (induction b64_triple data arbitrary: buf out rule: b64_quads.induct)
  case (2 a)
  then show ?case
    by (simp add: base64_encode_simps b64_quad_def b64_stream_simps b64_octet_1 Let_def del: b64_stream.simps)
next
  case (3 a b)
  then show ?case
    by (simp add: base64_encode_simps b64_quad_def b64_stream_simps b64_octet_1 b64_octet_2 Let_def del: b64_stream.simps)
next
  case (4 a b c r)
  then show ?case
    by (simp add: base64_encode_simps b64_quad_def b64_stream_simps b64_octet_1 b64_octet_2 b64_octet_3 Let_def
        del: b64_stream.simps)
qed (simp add: base64_encode_simps)

lemma length_base64_encode: "length (base64_encode data) = (length data + 2) div 3 * 4"
proof (induction b64_triple data rule: b64_quads.induct)
  case (4 a b c r)
  have "(5 + length r) div 3 = Suc (Suc (Suc (length r)) div 3)" by presburger
  with 4 show ?case by (simp add: base64_encode_simps)
qed (simp_all add: base64_encode_simps b64_quad_def)

lemma b64_padding_append: "2 \<le> length t \<Longrightarrow> b64_padding (s @ t) = b64_padding t"
  by (auto simp: b64_padding_def nth_append)

lemma base64_encode_nonempty: "data \<noteq> [] \<Longrightarrow> 2 \<le> length (base64_encode data)"
  by (cases data) (simp_all add: length_base64_encode)

lemma base64_encode_padding: "data \<noteq> [] \<Longrightarrow> length data + b64_padding (base64_encode data) = (length data + 2) div 3 * 3"
proof (induction b64_triple data rule: b64_quads.induct)
  case (4 a b c r)
  show ?case
  proof (cases "r = []")
    case True
    then show ?thesis
      by (simp add: base64_encode_simps b64_quad_def base64_char_not_pad b64_padding_def)
  next
    case False
    have "(5 + length r) div 3 = Suc (Suc (Suc (length r)) div 3)" by presburger
    then show ?thesis
      using 4(1) [OF False] base64_encode_nonempty [OF False] by (simp add: base64_encode_simps b64_padding_append)
  qed
qed (simp_all add: base64_encode_simps b64_quad_def base64_char_not_pad b64_padding_def)

text \<open>The number of bytes the decoders compute from the length and the padding.\<close>

lemma base64_decoded_size:
  assumes "data \<noteq> []"
  defines "e \<equiv> base64_encode data"
  shows "of_nat (length e div 4 * 3) - of_nat (b64_padding e) = (of_nat (length data) :: u64)"
    "length e * 3 div 4 = length e div 4 * 3"
proof -
  have "length e div 4 * 3 = length data + b64_padding e"
    using base64_encode_padding [OF assms(1)] by (simp add: e_def length_base64_encode)
  then show "of_nat (length e div 4 * 3) - of_nat (b64_padding e) = (of_nat (length data) :: u64)" by simp
  show "length e * 3 div 4 = length e div 4 * 3" by (simp add: e_def length_base64_encode)
qed

lemma b64_sum_or:
  "b64_triple_sum a b c = b64_triple a b c"
  "push_bit 18 (x AND 0x3F) + push_bit 12 (y AND 0x3F) + push_bit 6 (z AND 0x3F) + (w AND 0x3F :: u32) =
   (push_bit 18 (x AND 0x3F) OR push_bit 12 (y AND 0x3F) OR push_bit 6 (z AND 0x3F) OR (w AND 0x3F))"
proof -
  have or: "p + q = p OR q" if "\<And>n. bit p n \<Longrightarrow> bit q n \<Longrightarrow> False" for p q :: u32
    using that by (intro disjunctive_add_eq_or) (auto simp: bit_eq_iff bit_and_iff)
  have "push_bit 16 (ucast a) + push_bit 8 (ucast b) = push_bit 16 (ucast a) OR (push_bit 8 (ucast b) :: u32)"
    by (rule or) (auto simp: bit_simps not_bit_u8)
  moreover have "(push_bit 16 (ucast a) OR push_bit 8 (ucast b)) + ucast c =
      (push_bit 16 (ucast a) OR push_bit 8 (ucast b)) OR (ucast c :: u32)"
    by (rule or) (auto simp: bit_simps not_bit_u8)
  ultimately show "b64_triple_sum a b c = b64_triple a b c"
    by (simp add: b64_triple_sum_def b64_triple_def or.assoc)
  let ?x = "push_bit 18 (x AND 0x3F)" and ?y = "push_bit 12 (y AND 0x3F)" and ?z = "push_bit 6 (z AND 0x3F)"
  have "?x + ?y = ?x OR ?y" unfolding mask_numerals by (rule or) (auto simp: bit_simps)
  moreover have "(?x OR ?y) + ?z = (?x OR ?y) OR ?z" unfolding mask_numerals by (rule or) (auto simp: bit_simps)
  moreover have "((?x OR ?y) OR ?z) + (w AND 0x3F) = ((?x OR ?y) OR ?z) OR (w AND 0x3F)"
    unfolding mask_numerals by (rule or) (auto simp: bit_simps)
  ultimately show "?x + ?y + ?z + (w AND 0x3F) = (?x OR ?y OR ?z OR (w AND 0x3F))" by (simp add: or.assoc)
qed

lemma base64_encode_sum_eq: "base64_encode_sum data = base64_encode data"
proof -
  have "b64_quads b64_triple_sum data = b64_quads b64_triple data"
    by (induction b64_triple data rule: b64_quads.induct) (simp_all add: b64_sum_or)
  then show ?thesis by (simp add: base64_encode_sum_def base64_encode_def)
qed

lemma base64_sextet_char: "base64_sextet (base64_char w) = w AND 0x3F" "base64_sextet (CHR ''='') = 0"
  by (simp_all add: base64_sextet_def base64_index_char base64_char_not_pad)

lemma b64_octets_triple:
  "b64_octets (drop_bit 18 (b64_triple a b c) AND 0x3F) (drop_bit 12 (b64_triple a b c) AND 0x3F)
     (drop_bit 6 (b64_triple a b c) AND 0x3F) (b64_triple a b c AND 0x3F) = [a, b, c]"
proof -
  let ?t = "b64_triple a b c"
  have t: "push_bit 18 (drop_bit 18 t AND 0x3F) OR push_bit 12 (drop_bit 12 t AND 0x3F) OR
      push_bit 6 (drop_bit 6 t AND 0x3F) OR (t AND 0x3F) = t" if "\<And>n. bit t n \<Longrightarrow> n < 24" for t :: u32
    unfolding mask_numerals
  proof (rule bit_word_eqI)
    fix n assume n: "n < LENGTH(32)"
    consider "n < 6" | "6 \<le> n" "n < 12" | "12 \<le> n" "n < 18" | "18 \<le> n" "n < 24" | "24 \<le> n" by linarith
    then show "bit (push_bit 18 (drop_bit 18 t AND mask 6) OR push_bit 12 (drop_bit 12 t AND mask 6) OR
        push_bit 6 (drop_bit 6 t AND mask 6) OR t AND mask 6) n = bit t n"
      using n that [of n] by cases (auto simp: bit_simps)
  qed
  have "push_bit 18 (drop_bit 18 ?t AND 0x3F) OR push_bit 12 (drop_bit 12 ?t AND 0x3F) OR
      push_bit 6 (drop_bit 6 ?t AND 0x3F) OR (?t AND 0x3F) = ?t"
    by (rule t) (auto simp: b64_triple_def bit_simps dest: bit_imp_le_length)
  moreover have "ucast (drop_bit 16 ?t AND 0xFF) = a" "ucast (drop_bit 8 ?t AND 0xFF) = b" "ucast (?t AND 0xFF) = c"
    unfolding mask_numerals b64_triple_def by (rule bit_word_eqI; auto simp: bit_simps not_bit_u8)+
  ultimately show ?thesis unfolding b64_octets_def b64_sum_or(2) by (simp only: Let_def)
qed

lemma b64_triple_zeros:
  "b64_triple a b 0 AND 0x3F = 0" "drop_bit 6 (b64_triple a 0 0) AND 0x3F = 0" "b64_triple a 0 0 AND 0x3F = 0"
  unfolding mask_numerals b64_triple_def by (rule bit_word_eqI; auto simp: bit_simps not_bit_u8)+

lemma b64_groups_encode:
  "\<exists>zs. b64_groups (base64_encode data) = Ok (data @ zs)"
proof (induction b64_triple data rule: b64_quads.induct)
  case (2 a)
  show ?case using b64_octets_triple [of a 0 0]
    by (simp add: base64_encode_simps b64_quad_def base64_sextet_char b64_triple_zeros)
next
  case (3 a b)
  show ?case using b64_octets_triple [of a b 0]
    by (simp add: base64_encode_simps b64_quad_def base64_sextet_char b64_triple_zeros)
next
  case (4 a b c r)
  then show ?case using b64_octets_triple [of a b c]
    by (auto simp: base64_encode_simps b64_quad_def base64_sextet_char)
qed (simp add: base64_encode_simps)

lemma base64_size_word:
  assumes "n < 2 ^ 62"
  shows "of_nat n + 1 \<noteq> (- 1 :: u64)" "unat (of_nat n + 1 :: u64) = n + 1" "unat (of_nat n :: u64) = n"
    "\<not> 0x8000000000000000 \<le> (of_nat n :: u64)"
proof -
  have a: "of_nat n + 1 = (of_nat (Suc n) :: u64)" by simp
  show u: "unat (of_nat n + 1 :: u64) = n + 1"
    unfolding a using assms by (subst unat_of_nat) (simp add: take_bit_nat_eq_self)
  show v: "unat (of_nat n :: u64) = n" using assms by (simp add: unat_of_nat take_bit_nat_eq_self)
  have m: "unat (- 1 :: u64) = 2 ^ 64 - 1" by (simp add: unsigned_minus_1_eq_mask mask_eq_exp_minus_1)
  show "of_nat n + 1 \<noteq> (- 1 :: u64)"
  proof
    assume "of_nat n + 1 = (- 1 :: u64)"
    with u m have "n + 1 = 2 ^ 64 - 1" by simp
    with assms show False by simp
  qed
  show "\<not> 0x8000000000000000 \<le> (of_nat n :: u64)" using v assms by (simp add: word_le_nat_alt)
qed

lemma base64_decode_encode:
  assumes "data \<noteq> []" "length data < 2 ^ 62"
  shows "base64_decode (base64_encode data) = Ok data"
  using base64_encode_nonempty [OF assms(1)] base64_size_word [OF assms(2)]
    b64_stream_encode [of "[]" data "length data + 1" 0]
  unfolding base64_decode_def Let_def base64_decoded_size [OF assms(1)] by simp

lemma decode_base64_inline_encode:
  assumes "data \<noteq> []" "length data < 2 ^ 62"
  shows "decode_base64_inline (base64_encode data) = Ok (Some data)"
proof -
  have "base64_encode data \<noteq> []" using base64_encode_nonempty [OF assms(1)] by auto
  then show ?thesis
    using base64_size_word [OF assms(2)] b64_stream_encode [of "[]" data "length data + 1" 0]
    unfolding decode_base64_inline_def Let_def base64_decoded_size [OF assms(1)] by simp
qed

lemma base64_decode_object_encode:
  assumes "data \<noteq> []" "length data < 2 ^ 62"
  shows "base64_decode_object (base64_encode data) = Ok data"
  using b64_groups_encode [of data] base64_size_word [OF assms(2)]
  unfolding base64_decode_object_def Let_def base64_decoded_size(1) [OF assms(1)] by auto

lemma base64_version_size:
  assumes "data \<noteq> []" "length data < 2 ^ 62"
  defines "e \<equiv> base64_encode data"
  shows "of_nat (length e) * 3 div 4 - of_nat (b64_padding e) = (of_nat (length data) :: u64)"
proof -
  have "3 * ((n + 2) div 3) < 2 ^ 62" if "n < 2 ^ 62" for n :: nat
    using that by simp presburger
  from this [OF assms(2)] have l: "length e * 3 < 2 ^ 64" by (simp add: e_def length_base64_encode)
  have u: "unat (of_nat m :: u64) = m" if "m < 2 ^ 64" for m
    unfolding unat_of_nat using that by (intro mod_less) simp
  have "unat (of_nat (length e * 3) div 4 :: u64) = unat (of_nat (length e * 3 div 4) :: u64)"
    using l by (simp only: unat_div unat_numeral u [of "length e * 3"] u [of "length e * 3 div 4"]) simp
  then have "of_nat (length e * 3) div 4 = (of_nat (length e * 3 div 4) :: u64)"
    by (simp only: word_unat_eq_iff)
  then show ?thesis
    using base64_decoded_size [OF assms(1)] by (simp add: e_def)
qed

lemma base64_decode_version_encode:
  assumes "data \<noteq> []" "length data < 2 ^ 62"
  shows "base64_decode_version (base64_encode data) = Ok data"
  using b64_groups_encode [of data] base64_size_word [OF assms(2)]
  unfolding base64_decode_version_def Let_def base64_version_size [OF assms] by auto

text \<open>C28: base64 text is decoded to the bytes that were encoded.  All copies of the encoder give
  the same text, and for every non-empty input below \<open>2\<^sup>6\<^sup>2\<close> bytes each of the four
  decoders returns the input from it, without writing outside its buffer.\<close>

theorem base64_roundtrip:
  assumes "data \<noteq> []" "length data < 2 ^ 62"
  shows "base64_decode (base64_encode data) = Ok data \<and>
         decode_base64_inline (base64_encode data) = Ok (Some data) \<and>
         base64_decode_object (base64_encode data) = Ok data \<and>
         base64_decode_version (base64_encode data) = Ok data \<and>
         base64_encode_sum data = base64_encode data"
  using assms by (simp add: base64_decode_encode decode_base64_inline_encode base64_decode_object_encode
      base64_decode_version_encode base64_encode_sum_eq)

theorem base64_roundtrip_witness:
  "base64_decode (base64_encode [0x68, 0x69]) = Ok [0x68, 0x69] \<and>
   decode_base64_inline (base64_encode [0x68, 0x69]) = Ok (Some [0x68, 0x69]) \<and>
   base64_decode_object (base64_encode [0x68, 0x69]) = Ok [0x68, 0x69] \<and>
   base64_decode_version (base64_encode [0x68, 0x69]) = Ok [0x68, 0x69] \<and>
   base64_encode_sum [0x68, 0x69] = base64_encode [0x68, 0x69]"
  by (rule base64_roundtrip) simp_all

section \<open>Text of the wrong length\<close>

lemma b64_stream_overflow:
  "set cs \<subseteq> set base64_chars \<Longrightarrow> length out \<le> room \<Longrightarrow> bits < 8 \<Longrightarrow>
     room < length out + (bits + 6 * length cs) div 8 \<Longrightarrow> b64_stream room buf bits out cs = Undefined"
proof (induction cs arbitrary: buf bits out)
  case (Cons c cs)
  obtain v where v: "base64_index c = Some v"
    using Cons.prems(1) b64_position_set [of c base64_chars] by (auto simp: base64_index_def)
  have c: "c \<noteq> CHR ''=''" using Cons.prems(1) base64_chars_props(3) by auto
  show ?case
  proof (cases "2 \<le> bits")
    case True
    have "(bits + 6 * length (c # cs)) div 8 = Suc ((bits - 2 + 6 * length cs) div 8)" using True by simp
    then show ?thesis
      using Cons.prems True Cons.IH [of "out @ _" "bits - 2"] by (simp add: v c Let_def)
  next
    case False
    then have "bits + 6 < 8" "bits + 6 * length (c # cs) = bits + 6 + 6 * length cs" by simp_all
    then show ?thesis using Cons.prems Cons.IH [of out "bits + 6"] False by (simp add: v c)
  qed
qed simp

lemma b64_padding_none:
  assumes "CHR ''='' \<notin> set s"
  shows "b64_padding s = 0"
proof -
  have "s ! i \<noteq> CHR ''=''" if "i < length s" for i using that assms by (metis nth_mem)
  from this [of "length s - 1"] this [of "length s - 2"] show ?thesis by (cases s) (auto simp: b64_padding_def)
qed

text \<open>C29: the decoder of the storage nodes writes past its buffer.  For text over the alphabet
  whose length leaves the remainder three when divided by four - which a peer can send as
  the data of a chunk - the number of bytes decoded is one more than the number allocated.\<close>

theorem base64_decode_overflow:
  assumes "set s \<subseteq> set base64_chars" "length s mod 4 = 3" "length s < 2 ^ 62"
  shows "base64_decode s = Undefined"
proof -
  have p: "b64_padding s = 0" using assms(1) base64_chars_props(3) by (intro b64_padding_none) auto
  have q: "length s = 4 * (length s div 4) + 3" using assms(2) mult_div_mod_eq [of 4 "length s"] by simp
  have "6 * length s = 8 * (length s div 4 * 3 + 2) + 2" by (subst q) simp
  then have k: "6 * length s div 8 = length s div 4 * 3 + 2" by simp
  have n: "length s div 4 * 3 < 2 ^ 62" using assms(3) by simp
  have "b64_stream (length s div 4 * 3 + 1) 0 0 [] s = Undefined"
    using k by (intro b64_stream_overflow [OF assms(1)]) simp_all
  moreover have "\<not> length s < 2" using assms(2) by auto
  ultimately show ?thesis
    unfolding base64_decode_def Let_def p using base64_size_word(1,2) [OF n] by simp
qed

theorem base64_decode_overflow_witness: "base64_decode ''AAA'' = Undefined"
  by (rule base64_decode_overflow) (simp_all add: base64_chars_def)

end
