(* ===== verification/Registry_List.thy ===== *)
theory Registry_List
  imports Registry Base64
begin

text \<open>
  Listing a bucket, \<^verbatim>\<open>buckets_registry_list\<close> of \<^verbatim>\<open>src/src/registry/registry.c\<close>: the answer of
  the other nodes where there is one, and otherwise a scan of the metadata files on the
  first local disk.  The listing of the other nodes is a parameter; the directory tree is
  given as the entries in the order in which they are read.
\<close>

section \<open>Reading one entry\<close>

text \<open>Conversions of a JSON number to \<^verbatim>\<open>size_t\<close> and \<^verbatim>\<open>time_t\<close>: not defined outside the range.\<close>

definition size_of_double :: "int \<Rightarrow> u64 outcome" where
  "size_of_double n = (if 0 \<le> n \<and> n < 2 ^ 64 then Ok (of_int n) else Undefined)"

definition time_of_double :: "int \<Rightarrow> int outcome" where
  "time_of_double n = (if in_i64 n then Ok n else Undefined)"

definition ci_string :: "json \<Rightarrow> string \<Rightarrow> string option" where
  "ci_string j name = (case get_object_item_ci j name of Some (JStr s) \<Rightarrow> Some s | _ \<Rightarrow> None)"

definition ci_number :: "json \<Rightarrow> string \<Rightarrow> int option" where
  "ci_number j name = (case get_object_item_ci j name of Some (JNum n) \<Rightarrow> Some n | _ \<Rightarrow> None)"

definition ci_u32 :: "json \<Rightarrow> string \<Rightarrow> u32" where
  "ci_u32 j name = (case ci_number j name of Some n \<Rightarrow> of_int (valueint n) | None \<Rightarrow> 0)"

definition parse_registry_json :: "(string \<Rightarrow> json option) \<Rightarrow> string \<Rightarrow> buckets_object_location option outcome" where
  "parse_registry_json parse json_str =
    (case parse json_str of
       None \<Rightarrow> Ok None
     | Some json \<Rightarrow>
       (case (case ci_number json ''generation'' of Some n \<Rightarrow> size_of_double n | None \<Rightarrow> Ok 0) of
          Ok generation \<Rightarrow>
            (case (case ci_number json ''mod_time'' of Some n \<Rightarrow> time_of_double n | None \<Rightarrow> Ok 0) of
               Ok mod_time \<Rightarrow>
                 (case (case ci_number json ''size'' of Some n \<Rightarrow> size_of_double n | None \<Rightarrow> Ok 0) of
                    Ok sz \<Rightarrow>
                      Ok (Some \<lparr>ol_bucket = ci_string json ''bucket'', ol_object = ci_string json ''object'',
                                ol_version_id = ci_string json ''version_id'',
                                ol_pool_idx = ci_u32 json ''pool_idx'', ol_set_idx = ci_u32 json ''set_idx'',
                                ol_disk_count = ci_u32 json ''disk_count'',
                                ol_disk_idxs = read_disk_idxs (get_object_item_ci json ''disk_idxs''),
                                ol_generation = generation, ol_mod_time = mod_time, ol_size = sz\<rparr>)
                  | _ \<Rightarrow> Undefined)
             | _ \<Rightarrow> Undefined)
        | _ \<Rightarrow> Undefined))"

definition listed_location :: "int \<Rightarrow> string option \<Rightarrow> string option \<Rightarrow> u64 \<Rightarrow> buckets_object_location" where
  "listed_location mod_time bucket object sz =
     buckets_registry_location_new
       \<lparr>ol_bucket := bucket, ol_object := object, ol_version_id := Some ''latest'', ol_size := sz,
        ol_mod_time := mod_time, ol_disk_count := 1, ol_generation := 1\<rparr>"

text \<open>A metadata file that names its object.\<close>

definition list_named ::
  "int \<Rightarrow> string \<Rightarrow> string option \<Rightarrow> json \<Rightarrow> string \<Rightarrow> string \<Rightarrow> buckets_object_location option outcome" where
  "list_named now bucket prefix meta_json meta_bucket meta_object =
    (if meta_bucket \<noteq> bucket then Ok None
     else if take 1 meta_bucket = ''.'' then Ok None
     else if (case prefix of Some p \<Rightarrow> \<not> starts_with p meta_object | None \<Rightarrow> False) then Ok None
     else case get_object_item_ci meta_json ''stat'' of
            None \<Rightarrow> Ok (Some (listed_location 0 (Some meta_bucket) (Some meta_object) 0))
          | Some stat \<Rightarrow>
            (case (case ci_number stat ''size'' of Some n \<Rightarrow> size_of_double n | None \<Rightarrow> Ok 0) of
               Ok sz \<Rightarrow> Ok (Some (listed_location (if ci_string stat ''modTime'' \<noteq> None then now else 0)
                                   (Some meta_bucket) (Some meta_object) sz))
             | _ \<Rightarrow> Undefined))"

text \<open>A metadata file of the older form, whose inline data is the registry entry.  The decoded
  bytes are read as a C string.\<close>

definition text_of_bytes :: "bytes \<Rightarrow> string" where
  "text_of_bytes bs = takeWhile (\<lambda>c. c \<noteq> CHR 0x00) (map (\<lambda>b. char_of (unat b)) bs)"

definition list_legacy ::
  "(string \<Rightarrow> json option) \<Rightarrow> string \<Rightarrow> string option \<Rightarrow> json \<Rightarrow> buckets_object_location option outcome" where
  "list_legacy parse bucket prefix meta_json =
    (case get_object_item_ci meta_json ''meta'' of
       None \<Rightarrow> Ok None
     | Some meta_obj \<Rightarrow>
       if ci_string meta_obj ''content-type'' \<noteq> Some ''application/json'' then Ok None
       else case ci_string meta_json ''inline'' of
              None \<Rightarrow> Ok None
            | Some inline_data \<Rightarrow>
              (case decode_base64_inline inline_data of
                 Ok None \<Rightarrow> Ok None
               | Ok (Some decoded) \<Rightarrow>
                 (case parse_registry_json parse (text_of_bytes decoded) of
                    Ok None \<Rightarrow> Ok None
                  | Ok (Some loc) \<Rightarrow>
                    if ol_bucket loc \<noteq> Some bucket then Ok None
                    else if (case (prefix, ol_object loc) of
                               (Some p, Some obj) \<Rightarrow> \<not> starts_with p obj
                             | _ \<Rightarrow> False) then Ok None
                    else if (case ol_version_id loc of Some v \<Rightarrow> starts_with ''delete-'' v | None \<Rightarrow> False) then Ok None
                    else Ok (Some loc)
                  | _ \<Rightarrow> Undefined)
               | _ \<Rightarrow> Undefined))"

text \<open>One file: not listed if it cannot be opened, is empty or larger than a megabyte, or is no
  JSON.\<close>

definition list_file ::
  "(string \<Rightarrow> json option) \<Rightarrow> int \<Rightarrow> string \<Rightarrow> string option \<Rightarrow> string option
     \<Rightarrow> buckets_object_location option outcome" where
  "list_file parse now bucket prefix file =
    (case file of
       None \<Rightarrow> Ok None
     | Some meta_content \<Rightarrow>
       if length meta_content = 0 \<or> 1024 * 1024 < length meta_content then Ok None
       else case parse (takeWhile (\<lambda>c. c \<noteq> CHR 0x00) meta_content) of
              None \<Rightarrow> Ok None
            | Some meta_json \<Rightarrow>
              (case (ci_string meta_json ''bucket'', ci_string meta_json ''object'') of
                 (Some b, Some obj) \<Rightarrow> list_named now bucket prefix meta_json b obj
               | _ \<Rightarrow> list_legacy parse bucket prefix meta_json))"

section \<open>The scan\<close>

type_synonym meta_entry = "string \<times> string option"

text \<open>One hash directory.  The flag says that the limit was reached, which ends the whole scan;
  it is looked at before each entry that is not hidden.\<close>

fun scan_hash_dir ::
  "(string option \<Rightarrow> buckets_object_location option outcome) \<Rightarrow> nat \<Rightarrow> buckets_object_location list \<Rightarrow> meta_entry list
     \<Rightarrow> (bool \<times> buckets_object_location list) outcome" where
  "scan_hash_dir file max_keys found [] = Ok (False, found)"
| "scan_hash_dir file max_keys found ((name, content) # es) =
    (if take 1 name = ''.'' then scan_hash_dir file max_keys found es
     else if max_keys \<le> length found then Ok (True, found)
     else case file content of
            Ok None \<Rightarrow> scan_hash_dir file max_keys found es
          | Ok (Some loc) \<Rightarrow> scan_hash_dir file max_keys (found @ [loc]) es
          | _ \<Rightarrow> Undefined)"

definition hex_prefix :: "string \<Rightarrow> bool" where
  "hex_prefix name \<longleftrightarrow> length name = 2 \<and> list_all (\<lambda>c. c \<in> set ''0123456789abcdef'') name"

fun scan_prefixes ::
  "(string option \<Rightarrow> buckets_object_location option outcome) \<Rightarrow> nat \<Rightarrow> buckets_object_location list
     \<Rightarrow> (string \<times> meta_entry list option) list \<Rightarrow> buckets_object_location list outcome" where
  "scan_prefixes file max_keys found [] = Ok found"
| "scan_prefixes file max_keys found ((name, dir) # ds) =
    (if \<not> hex_prefix name then scan_prefixes file max_keys found ds
     else case dir of
            None \<Rightarrow> scan_prefixes file max_keys found ds
          | Some es \<Rightarrow>
            (case scan_hash_dir file max_keys found es of
               Ok (full, found) \<Rightarrow> if full then Ok found else scan_prefixes file max_keys found ds
             | _ \<Rightarrow> Undefined))"

text \<open>The answer of the other nodes, converted into an array with room for the number of
  objects they reported.\<close>

fun list_distributed :: "int \<Rightarrow> nat \<Rightarrow> buckets_object_location list \<Rightarrow> json list \<Rightarrow> buckets_object_location list outcome" where
  "list_distributed now room found [] = Ok found"
| "list_distributed now room found (obj # objs) =
    (if get_object_item_ci obj ''bucket'' = None \<or> get_object_item_ci obj ''object'' = None
     then list_distributed now room found objs
     else case (case ci_number obj ''size'' of Some n \<Rightarrow> size_of_double n | None \<Rightarrow> Ok 0) of
            Ok sz \<Rightarrow>
              if room \<le> length found then Undefined
              else list_distributed now room
                     (found @ [listed_location now (ci_string obj ''bucket'') (ci_string obj ''object'') sz]) objs
          | _ \<Rightarrow> Undefined)"

definition buckets_registry_list ::
  "(string \<Rightarrow> json option) \<Rightarrow> (string \<Rightarrow> string option \<Rightarrow> nat \<Rightarrow> (json list \<times> nat) option) \<Rightarrow>
   (string \<Rightarrow> (string \<times> meta_entry list option) list option) \<Rightarrow> string option \<Rightarrow> int \<Rightarrow> registry_state
     \<Rightarrow> string option \<Rightarrow> string option \<Rightarrow> nat \<Rightarrow> (int \<times> buckets_object_location list) outcome" where
  "buckets_registry_list parse dist opendir data_dir now g bucket prefix max_keys =
    (if \<not> rg_initialized g then Ok (-1, [])
     else case bucket of
       None \<Rightarrow> Ok (-1, [])
     | Some b \<Rightarrow>
       let max_keys = (if max_keys = 0 then 1000 else max_keys) in
       case dist b prefix max_keys of
         Some (objs, Suc n) \<Rightarrow>
           (case list_distributed now (Suc n) [] objs of Ok ls \<Rightarrow> Ok (0, ls) | _ \<Rightarrow> Undefined)
       | _ \<Rightarrow>
         (case data_dir of
            None \<Rightarrow> Ok (-1, [])
          | Some base_dir \<Rightarrow>
            let dir = snprintf_s 4096 (base_dir @ ''/disk1'');
                dir = (if opendir dir = None then snprintf_s 4096 base_dir else dir) in
            case opendir dir of
              None \<Rightarrow> Ok (-1, [])
            | Some prefixes \<Rightarrow>
              (case scan_prefixes (list_file parse now b prefix) max_keys [] prefixes of
                 Ok ls \<Rightarrow> Ok (0, ls)
               | _ \<Rightarrow> Undefined)))"

section \<open>What is listed\<close>

definition listed_ok :: "string \<Rightarrow> string option \<Rightarrow> buckets_object_location \<Rightarrow> bool" where
  "listed_ok bucket prefix l \<longleftrightarrow> ol_bucket l = Some bucket \<and>
     (\<forall>p obj. prefix = Some p \<longrightarrow> ol_object l = Some obj \<longrightarrow> starts_with p obj)"

lemma list_file_ok: "list_file parse now bucket prefix file = Ok (Some l) \<Longrightarrow> listed_ok bucket prefix l"
  by (auto simp: list_file_def list_named_def list_legacy_def listed_ok_def listed_location_def Let_def
      split: option.splits if_splits outcome.splits prod.splits)

lemma scan_hash_dir_ok:
  assumes "\<And>c l. read c = Ok (Some l) \<Longrightarrow> P l"
  shows "list_all P found \<Longrightarrow> length found \<le> max_keys \<Longrightarrow>
     scan_hash_dir read max_keys found es = Ok (full, ls) \<Longrightarrow> list_all P ls \<and> length ls \<le> max_keys"
proof (induction es arbitrary: found)
  case (Cons e es)
  obtain name content where e: "e = (name, content)" by (cases e)
  show ?case
  proof (cases "take 1 name = ''.'' \<or> max_keys \<le> length found")
    case True
    then show ?thesis using Cons by (auto simp: e split: if_splits)
  next
    case False
    then show ?thesis
      using Cons.prems Cons.IH [of found] Cons.IH [of "found @ [_]"] assms [of content]
      by (auto simp: e Suc_le_eq split: outcome.splits option.splits)
  qed
qed simp

lemma scan_prefixes_ok:
  assumes "\<And>c l. read c = Ok (Some l) \<Longrightarrow> P l"
  shows "list_all P found \<Longrightarrow> length found \<le> max_keys \<Longrightarrow> scan_prefixes read max_keys found ds = Ok ls \<Longrightarrow>
     list_all P ls \<and> length ls \<le> max_keys"
proof (induction ds arbitrary: found)
  case (Cons d ds)
  obtain name dir where d: "d = (name, dir)" by (cases d)
  show ?case
  proof (cases "hex_prefix name \<and> dir \<noteq> None")
    case True
    then obtain es where es: "dir = Some es" by auto
    obtain full ls1 where s: "scan_hash_dir read max_keys found es = Ok (full, ls1)"
      using Cons.prems(3) True by (auto simp: d es split: outcome.splits)
    then have "list_all P ls1 \<and> length ls1 \<le> max_keys"
      using scan_hash_dir_ok [of read P found max_keys es full ls1] assms Cons.prems(1,2) by blast
    then show ?thesis using Cons.prems(3) Cons.IH [of ls1] s True by (auto simp: d es split: if_splits)
  next
    case False
    then show ?thesis using Cons by (auto simp: d split: option.splits if_splits)
  qed
qed simp

text \<open>A listing contains what was asked for.  Every location found by the scan of the local
  disk belongs to the bucket, its object name starts with the prefix where one was given,
  and there are at most as many as the limit, a limit of zero meaning a thousand.\<close>

theorem registry_list_local:
  assumes "dist bucket prefix (if max_keys = 0 then 1000 else max_keys) = None"
    and "buckets_registry_list parse dist opendir data_dir now g (Some bucket) prefix max_keys = Ok (0, ls)"
  shows "list_all (listed_ok bucket prefix) ls \<and> length ls \<le> (if max_keys = 0 then 1000 else max_keys)"
proof -
  obtain prefixes where "scan_prefixes (list_file parse now bucket prefix)
      (if max_keys = 0 then 1000 else max_keys) [] prefixes = Ok ls"
    using assms by (auto simp: buckets_registry_list_def Let_def split: if_splits option.splits outcome.splits)
  then show ?thesis
    using scan_prefixes_ok [where P = "listed_ok bucket prefix"] list_file_ok by (metis list.pred_inject(1) list.size(3) zero_le)
qed

definition small_opendir :: "string \<Rightarrow> (string \<times> meta_entry list option) list option" where
  "small_opendir dir =
    (if dir = ''/d'' then Some [(''lost'', None), (''0a'', Some [(''x'', Some ''{}'')])] else None)"

definition small_meta_parse :: "string \<Rightarrow> json option" where
  "small_meta_parse s = Some (JObj [(''bucket'', JStr ''b''), (''object'', JStr ''photos/1'')])"

theorem registry_list_local_witness:
  "buckets_registry_list small_meta_parse (\<lambda>_ _ _. None) small_opendir (Some ''/d'') 100 small_registry (Some ''b'')
     (Some ''photos/'') 0 = Ok (0, [listed_location 0 (Some ''b'') (Some ''photos/1'') 0]) \<and>
   list_all (listed_ok ''b'' (Some ''photos/'')) [listed_location 0 (Some ''b'') (Some ''photos/1'') 0]"
proof -
  have "rg_initialized small_registry" by (simp add: small_registry_def buckets_registry_init_def)
  then have r: "buckets_registry_list small_meta_parse (\<lambda>_ _ _. None) small_opendir (Some ''/d'') 100 small_registry (Some ''b'')
     (Some ''photos/'') 0 = Ok (0, [listed_location 0 (Some ''b'') (Some ''photos/1'') 0])"
    by (simp add: buckets_registry_list_def small_opendir_def snprintf_s_def hex_prefix_def list_file_def
        small_meta_parse_def ci_string_def list_named_def starts_with_def tolower_def)
  show ?thesis using r registry_list_local [OF _ r] by simp
qed

end
