(* ===== verification/Throttle.thy ===== *)
theory Throttle
  imports Buckets_Prelude "HOL-Library.Signed_Division"
begin

text \<open>
  The bandwidth limit of the migration, \<^verbatim>\<open>src/src/migration/throttle.c\<close>: a token bucket that
  is refilled from the clock and from which the workers take the bytes they are about to
  move.  All quantities are \<^verbatim>\<open>i64\<close>; they are integers here, and an operation whose result
  leaves the range of \<^verbatim>\<open>i64\<close> is not defined in C and gives \<open>Undefined\<close>.  Readings of the clock
  are given from outside, one for each call of \<^verbatim>\<open>gettimeofday\<close>.
\<close>

section \<open>Operations\<close>

record buckets_throttle =
  th_tokens :: int
  th_rate_bytes_per_sec :: int
  th_burst_bytes :: int
  th_last_refill_us :: int
  th_enabled :: bool

fun get_time_us :: "int \<times> int \<Rightarrow> int" where
  "get_time_us (tv_sec, tv_usec) = tv_sec * 1000000 + tv_usec"

definition buckets_throttle_init :: "int \<times> int \<Rightarrow> int \<Rightarrow> int \<Rightarrow> buckets_throttle outcome" where
  "buckets_throttle_init tv rate_bytes_per_sec burst_bytes =
    (if rate_bytes_per_sec < 0 \<or> burst_bytes < 0 then Fail BUCKETS_ERR_INVALID_ARG
     else Ok \<lparr>th_tokens = burst_bytes, th_rate_bytes_per_sec = rate_bytes_per_sec, th_burst_bytes = burst_bytes,
              th_last_refill_us = get_time_us tv, th_enabled = 0 < rate_bytes_per_sec\<rparr>)"

definition refill_tokens :: "buckets_throttle \<Rightarrow> int \<Rightarrow> buckets_throttle outcome" where
  "refill_tokens t now_us =
    (case i64_result (now_us - th_last_refill_us t) of
       Ok elapsed_us \<Rightarrow>
         if elapsed_us \<le> 0 then Ok t
         else (case i64_result (elapsed_us * th_rate_bytes_per_sec t) of
                 Ok product \<Rightarrow>
                   let tokens_to_add = product sdiv 1000000 in
                   if 0 < tokens_to_add
                   then (case i64_result (th_tokens t + tokens_to_add) of
                           Ok tokens \<Rightarrow>
                             Ok (t\<lparr>th_tokens := (if th_burst_bytes t < tokens then th_burst_bytes t else tokens),
                                   th_last_refill_us := now_us\<rparr>)
                         | _ \<Rightarrow> Undefined)
                   else Ok t
               | _ \<Rightarrow> Undefined)
     | _ \<Rightarrow> Undefined)"

text \<open>The time to sleep, at most a tenth of a second.  A division by zero is not defined.\<close>

definition throttle_sleep_us :: "buckets_throttle \<Rightarrow> int \<Rightarrow> int outcome" where
  "throttle_sleep_us t bytes =
    (case i64_result (bytes - th_tokens t) of
       Ok tokens_needed \<Rightarrow>
         (case i64_result (tokens_needed * 1000000) of
            Ok us \<Rightarrow>
              if th_rate_bytes_per_sec t = 0 then Undefined
              else let sleep_us = us sdiv th_rate_bytes_per_sec t
                   in Ok (if 100000 < sleep_us then 100000 else sleep_us)
          | _ \<Rightarrow> Undefined)
     | _ \<Rightarrow> Undefined)"

text \<open>One turn of the waiting loop, from taking the lock to releasing it: the tokens are taken
  and the wait is over, or the time to sleep is given.\<close>

datatype turn = Taken | Sleep int

definition throttle_turn :: "int \<Rightarrow> int \<Rightarrow> buckets_throttle \<Rightarrow> (turn \<times> buckets_throttle) outcome" where
  "throttle_turn now_us bytes t =
    (case refill_tokens t now_us of
       Ok t \<Rightarrow>
         if bytes \<le> th_tokens t then Ok (Taken, t\<lparr>th_tokens := th_tokens t - bytes\<rparr>)
         else (case throttle_sleep_us t bytes of
                 Ok sleep_us \<Rightarrow> Ok (Sleep sleep_us, t)
               | _ \<Rightarrow> Undefined)
     | _ \<Rightarrow> Undefined)"

text \<open>The loop for one thread alone: turn after turn with the next reading of the clock.  The
  value \<open>None\<close> means that it does not end.\<close>

partial_function (option) throttle_loop ::
  "(nat \<Rightarrow> int \<times> int) \<Rightarrow> int \<Rightarrow> nat \<Rightarrow> buckets_throttle \<Rightarrow> (nat \<times> buckets_throttle) outcome option" where
  "throttle_loop clock bytes i t =
    (case throttle_turn (get_time_us (clock i)) bytes t of
       Ok (Taken, t') \<Rightarrow> Some (Ok (i, t'))
     | Ok (Sleep us, t') \<Rightarrow> throttle_loop clock bytes (i + 1) t'
     | Fail e \<Rightarrow> Some (Fail e)
     | Undefined \<Rightarrow> Some Undefined)"

definition buckets_throttle_wait ::
  "(nat \<Rightarrow> int \<times> int) \<Rightarrow> nat \<Rightarrow> buckets_throttle option \<Rightarrow> int \<Rightarrow> (nat \<times> buckets_throttle) outcome option" where
  "buckets_throttle_wait clock i throttle bytes =
    (case throttle of
       None \<Rightarrow> Some (Fail BUCKETS_ERR_INVALID_ARG)
     | Some t \<Rightarrow>
       if \<not> th_enabled t \<or> th_rate_bytes_per_sec t = 0 then Some (Ok (i, t))
       else if bytes \<le> 0 then Some (Ok (i, t))
       else throttle_loop clock bytes i t)"

definition buckets_throttle_set_rate :: "int \<Rightarrow> buckets_throttle \<Rightarrow> buckets_throttle outcome" where
  "buckets_throttle_set_rate rate t =
    (if rate < 0 then Fail BUCKETS_ERR_INVALID_ARG
     else Ok (t\<lparr>th_rate_bytes_per_sec := rate, th_enabled := 0 < rate\<rparr>))"

definition buckets_throttle_get_rate :: "buckets_throttle option \<Rightarrow> int" where
  "buckets_throttle_get_rate throttle = (case throttle of None \<Rightarrow> 0 | Some t \<Rightarrow> th_rate_bytes_per_sec t)"

definition buckets_throttle_set_enabled :: "bool \<Rightarrow> buckets_throttle \<Rightarrow> buckets_throttle" where
  "buckets_throttle_set_enabled enabled t = t\<lparr>th_enabled := enabled\<rparr>"

definition buckets_throttle_is_enabled :: "buckets_throttle option \<Rightarrow> bool" where
  "buckets_throttle_is_enabled throttle = (case throttle of None \<Rightarrow> False | Some t \<Rightarrow> th_enabled t)"

definition buckets_throttle_get_stats ::
  "int \<times> int \<Rightarrow> buckets_throttle \<Rightarrow> ((int \<times> int \<times> bool) \<times> buckets_throttle) outcome" where
  "buckets_throttle_get_stats tv t =
    (case refill_tokens t (get_time_us tv) of
       Ok t \<Rightarrow> Ok ((th_tokens t, th_rate_bytes_per_sec t, th_enabled t), t)
     | _ \<Rightarrow> Undefined)"

definition buckets_throttle_create_default :: "int \<times> int \<Rightarrow> buckets_throttle outcome" where
  "buckets_throttle_create_default tv =
     (let rate = 100 * 1024 * 1024; burst = 10 * 1024 * 1024 in buckets_throttle_init tv rate burst)"

text \<open>\<^verbatim>\<open>NULL\<close> for negative arguments.\<close>

definition buckets_throttle_create :: "int \<times> int \<Rightarrow> int \<Rightarrow> int \<Rightarrow> buckets_throttle option outcome" where
  "buckets_throttle_create tv rate_mbps burst_mb =
    (if rate_mbps < 0 \<or> burst_mb < 0 then Ok None
     else case (i64_result (rate_mbps * 1024 * 1024), i64_result (burst_mb * 1024 * 1024)) of
            (Ok rate_bytes, Ok burst_bytes) \<Rightarrow>
              (case buckets_throttle_init tv rate_bytes burst_bytes of Ok t \<Rightarrow> Ok (Some t) | _ \<Rightarrow> Ok None)
          | _ \<Rightarrow> Undefined)"

section \<open>One refill\<close>

lemma sdiv_nonneg: "0 \<le> (a::int) \<Longrightarrow> 0 < b \<Longrightarrow> a sdiv b = a div b"
  by (cases "a = 0") (simp_all add: signed_divide_int_def)

text \<open>The bucket never holds more than the burst and is never overdrawn.\<close>

definition throttle_ok :: "buckets_throttle \<Rightarrow> bool" where
  "throttle_ok t \<longleftrightarrow> 0 \<le> th_tokens t \<and> th_tokens t \<le> th_burst_bytes t \<and> 0 \<le> th_rate_bytes_per_sec t"

lemma refill_tokens_credit:
  assumes "refill_tokens t now = Ok t'" "throttle_ok t"
  shows "throttle_ok t'" "th_burst_bytes t' = th_burst_bytes t" "th_rate_bytes_per_sec t' = th_rate_bytes_per_sec t"
    "th_last_refill_us t \<le> th_last_refill_us t'" "th_last_refill_us t' \<le> max now (th_last_refill_us t)"
    "1000000 * (th_tokens t' - th_tokens t) \<le> th_rate_bytes_per_sec t * (th_last_refill_us t' - th_last_refill_us t)"
    "th_tokens t \<le> th_tokens t'"
proof -
  let ?e = "now - th_last_refill_us t" and ?r = "th_rate_bytes_per_sec t"
  let ?add = "?e * ?r div 1000000"
  consider "t' = t"
    | "0 < ?e" "0 < ?add" "t' = t\<lparr>th_tokens := min (th_burst_bytes t) (th_tokens t + ?add), th_last_refill_us := now\<rparr>"
    using assms by (fastforce simp: refill_tokens_def throttle_ok_def Let_def sdiv_nonneg min_def not_le
        split: outcome.splits if_splits)
  then have *: "throttle_ok t' \<and> th_burst_bytes t' = th_burst_bytes t \<and> th_rate_bytes_per_sec t' = ?r \<and>
    th_last_refill_us t \<le> th_last_refill_us t' \<and> th_last_refill_us t' \<le> max now (th_last_refill_us t) \<and>
    1000000 * (th_tokens t' - th_tokens t) \<le> ?r * (th_last_refill_us t' - th_last_refill_us t) \<and> th_tokens t \<le> th_tokens t'"
  proof cases
    case 2
    have "1000000 * ?add \<le> ?r * ?e" by (simp add: mult.commute)
    then show ?thesis using 2 assms(2) by (auto simp: throttle_ok_def min_def)
  qed (use assms in auto)
  then show "throttle_ok t'" "th_burst_bytes t' = th_burst_bytes t" "th_rate_bytes_per_sec t' = ?r"
    "th_last_refill_us t \<le> th_last_refill_us t'" "th_last_refill_us t' \<le> max now (th_last_refill_us t)"
    "1000000 * (th_tokens t' - th_tokens t) \<le> ?r * (th_last_refill_us t' - th_last_refill_us t)"
    "th_tokens t \<le> th_tokens t'"
    by auto
qed

section \<open>Many threads\<close>

text \<open>What the threads of the program do to one throttle, in the order in which they do it: the
  test a call of \<open>buckets_throttle_wait\<close> makes before it takes the lock, a turn of some
  waiting loop, a change of the rate or of the switch, a reading of the statistics.  Bytes
  are granted by a turn, which takes tokens for them, and by the first test, which lets the
  caller pass if the throttle is switched off or its rate is zero.  A run returns both
  numbers.\<close>

datatype throttle_act =
  Enter int
  | Turn "int \<times> int" int
  | Set_Rate int
  | Set_Enabled bool
  | Stats "int \<times> int"

fun throttle_event :: "throttle_act \<Rightarrow> buckets_throttle \<Rightarrow> ((int \<times> int) \<times> buckets_throttle) outcome" where
  "throttle_event (Enter bytes) t =
    Ok ((0, if (\<not> th_enabled t \<or> th_rate_bytes_per_sec t = 0) \<and> 0 < bytes then bytes else 0), t)"
| "throttle_event (Turn tv bytes) t =
    (if bytes \<le> 0 then Ok ((0, 0), t)
     else case throttle_turn (get_time_us tv) bytes t of
            Ok (Taken, t') \<Rightarrow> Ok ((bytes, 0), t')
          | Ok (Sleep us, t') \<Rightarrow> Ok ((0, 0), t')
          | Fail e \<Rightarrow> Fail e
          | Undefined \<Rightarrow> Undefined)"
| "throttle_event (Set_Rate rate) t =
    (case buckets_throttle_set_rate rate t of Ok t' \<Rightarrow> Ok ((0, 0), t') | _ \<Rightarrow> Ok ((0, 0), t))"
| "throttle_event (Set_Enabled enabled) t = Ok ((0, 0), buckets_throttle_set_enabled enabled t)"
| "throttle_event (Stats tv) t =
    (case buckets_throttle_get_stats tv t of Ok (_, t') \<Rightarrow> Ok ((0, 0), t') | _ \<Rightarrow> Undefined)"

fun throttle_run :: "throttle_act list \<Rightarrow> buckets_throttle \<Rightarrow> ((int \<times> int) \<times> buckets_throttle) outcome" where
  "throttle_run [] t = Ok ((0, 0), t)"
| "throttle_run (e # es) t =
    (case throttle_event e t of
       Ok ((taken, free), t') \<Rightarrow>
         (case throttle_run es t' of
            Ok ((taken', free'), t'') \<Rightarrow> Ok ((taken + taken', free + free'), t'')
          | _ \<Rightarrow> Undefined)
     | _ \<Rightarrow> Undefined)"

text \<open>The events that keep the throttle switched on.\<close>

fun event_limits :: "throttle_act \<Rightarrow> bool" where
  "event_limits (Set_Rate rate) \<longleftrightarrow> rate \<noteq> 0"
| "event_limits (Set_Enabled enabled) \<longleftrightarrow> enabled"
| "event_limits _ \<longleftrightarrow> True"

fun event_within :: "int \<Rightarrow> int \<Rightarrow> throttle_act \<Rightarrow> bool" where
  "event_within R T (Enter bytes) \<longleftrightarrow> True"
| "event_within R T (Turn tv bytes) \<longleftrightarrow> get_time_us tv \<le> T"
| "event_within R T (Set_Rate rate) \<longleftrightarrow> rate \<le> R"
| "event_within R T (Set_Enabled enabled) \<longleftrightarrow> True"
| "event_within R T (Stats tv) \<longleftrightarrow> get_time_us tv \<le> T"

abbreviation throttle_inv :: "int \<Rightarrow> int \<Rightarrow> buckets_throttle \<Rightarrow> bool" where
  "throttle_inv R T t \<equiv> throttle_ok t \<and> th_rate_bytes_per_sec t \<le> R \<and> th_last_refill_us t \<le> T"

text \<open>Bytes are paid for by tokens or by time.\<close>

abbreviation throttle_paid :: "int \<Rightarrow> int \<Rightarrow> buckets_throttle \<Rightarrow> buckets_throttle \<Rightarrow> bool" where
  "throttle_paid R g t t' \<equiv>
     1000000 * (th_tokens t' + g - th_tokens t) \<le> R * (th_last_refill_us t' - th_last_refill_us t)"

lemma refill_tokens_inv:
  assumes "refill_tokens t now = Ok t'" "throttle_inv R T t" "now \<le> T"
  shows "throttle_inv R T t' \<and> throttle_paid R 0 t t' \<and> th_burst_bytes t' = th_burst_bytes t"
proof -
  have "throttle_ok t" using assms(2) by simp
  note c = refill_tokens_credit [OF assms(1) this]
  have "th_rate_bytes_per_sec t * (th_last_refill_us t' - th_last_refill_us t) \<le> R * (th_last_refill_us t' - th_last_refill_us t)"
    using c(4) assms(2) by (intro mult_right_mono) auto
  then show ?thesis using c assms by auto
qed

lemma throttle_event_inv:
  assumes "throttle_event e t = Ok ((g, f), t')" "throttle_inv R T t" "event_within R T e"
  shows "throttle_inv R T t' \<and> throttle_paid R g t t' \<and> th_burst_bytes t' = th_burst_bytes t"
proof (cases e)
  case (Enter bytes)
  then show ?thesis using assms by simp
next
  case (Turn tv bytes)
  show ?thesis
  proof (cases "bytes \<le> 0")
    case False
    then obtain u where u: "refill_tokens t (get_time_us tv) = Ok u"
      and s: "t' = u \<and> g = 0 \<or> t' = u\<lparr>th_tokens := th_tokens u - bytes\<rparr> \<and> g = bytes \<and> bytes \<le> th_tokens u"
      using assms(1) Turn by (auto simp: throttle_turn_def split: outcome.splits if_splits prod.splits turn.splits)
    show ?thesis using refill_tokens_inv [OF u assms(2)] assms(3) Turn s False by (auto simp: throttle_ok_def)
  qed (use assms Turn in auto)
next
  case (Set_Rate rate)
  then show ?thesis using assms by (auto simp: buckets_throttle_set_rate_def throttle_ok_def split: if_splits)
next
  case (Set_Enabled enabled)
  then show ?thesis using assms by (auto simp: buckets_throttle_set_enabled_def throttle_ok_def)
next
  case (Stats tv)
  then show ?thesis using assms refill_tokens_inv [of t "get_time_us tv" t' R T]
    by (auto simp: buckets_throttle_get_stats_def split: outcome.splits prod.splits)
qed

lemma throttle_run_inv:
  "throttle_run es t = Ok ((g, f), t') \<Longrightarrow> throttle_inv R T t \<Longrightarrow> list_all (event_within R T) es \<Longrightarrow>
   throttle_inv R T t' \<and> throttle_paid R g t t' \<and> th_burst_bytes t' = th_burst_bytes t"
proof (induction es arbitrary: t g f)
  case (Cons e es)
  then obtain g1 f1 t1 g2 f2 where
    s: "throttle_event e t = Ok ((g1, f1), t1)" "throttle_run es t1 = Ok ((g2, f2), t')" "g = g1 + g2"
    by (auto split: outcome.splits)
  have e: "throttle_inv R T t1 \<and> throttle_paid R g1 t t1 \<and> th_burst_bytes t1 = th_burst_bytes t"
    using Cons.prems by (intro throttle_event_inv [OF s(1)]) auto
  have r: "throttle_inv R T t' \<and> throttle_paid R g2 t1 t' \<and> th_burst_bytes t' = th_burst_bytes t1"
    using e Cons.prems by (intro Cons.IH [OF s(2)]) auto
  show ?case using e r s(3) by (auto simp: algebra_simps)
qed simp

abbreviation throttle_on :: "buckets_throttle \<Rightarrow> bool" where
  "throttle_on t \<equiv> th_enabled t \<and> 0 < th_rate_bytes_per_sec t"

lemma refill_tokens_on: "refill_tokens t now = Ok t' \<Longrightarrow> throttle_on t' = throttle_on t"
  by (auto simp: refill_tokens_def Let_def split: outcome.splits if_splits)

lemma throttle_event_on:
  assumes "throttle_event e t = Ok ((g, f), t')" "throttle_on t" "event_limits e"
  shows "throttle_on t' \<and> f = 0"
proof (cases e)
  case (Turn tv bytes)
  show ?thesis
  proof (cases "bytes \<le> 0")
    case False
    then obtain u where u: "refill_tokens t (get_time_us tv) = Ok u" and "t' = u \<or> t' = u\<lparr>th_tokens := th_tokens u - bytes\<rparr>" "f = 0"
      using assms(1) Turn by (auto simp: throttle_turn_def split: outcome.splits if_splits prod.splits turn.splits)
    then show ?thesis using refill_tokens_on [OF u] assms(2) by auto
  qed (use assms Turn in auto)
next
  case (Stats tv)
  then show ?thesis using assms refill_tokens_on [of t "get_time_us tv" t']
    by (auto simp: buckets_throttle_get_stats_def split: outcome.splits prod.splits)
qed (use assms in \<open>auto simp: buckets_throttle_set_rate_def buckets_throttle_set_enabled_def split: if_splits\<close>)

lemma throttle_run_on:
  "throttle_run es t = Ok ((g, f), t') \<Longrightarrow> throttle_on t \<Longrightarrow> list_all event_limits es \<Longrightarrow> f = 0"
proof (induction es arbitrary: t g f)
  case (Cons e es)
  then obtain g1 f1 t1 g2 f2 where
    s: "throttle_event e t = Ok ((g1, f1), t1)" "throttle_run es t1 = Ok ((g2, f2), t')" "f = f1 + f2"
    by (auto split: outcome.splits)
  have "throttle_on t1 \<and> f1 = 0" using Cons.prems by (intro throttle_event_on [OF s(1)]) auto
  moreover from this have "f2 = 0" using Cons.prems by (intro Cons.IH [OF s(2)]) auto
  ultimately show ?case using s(3) by simp
qed simp

text \<open>C30: the throttle keeps the bandwidth.  Whatever threads wait on a throttle, in whatever
  order they act on it and however the rate is changed meanwhile, the bytes for which tokens
  were taken up to a time are at most the burst plus what the highest rate allows for the
  time since the throttle was set up; and the tokens stay between zero and the burst.  If
  the throttle starts with a positive rate and is neither switched off nor given the rate
  zero in the meantime, no caller passes it without taking tokens, so the bound is one on
  all bytes.  This holds also for a clock that steps back.\<close>

theorem throttle_bandwidth:
  assumes "buckets_throttle_init tv rate burst = Ok t" "throttle_run es t = Ok ((taken, free), t')"
    and "rate \<le> R" "get_time_us tv \<le> T" "list_all (event_within R T) es"
  shows "taken * 1000000 \<le> burst * 1000000 + R * (T - get_time_us tv) \<and> 0 \<le> th_tokens t' \<and> th_tokens t' \<le> burst \<and>
    (0 < rate \<and> list_all event_limits es \<longrightarrow> free = 0)"
proof -
  have "free = 0" if "0 < rate \<and> list_all event_limits es"
    using assms(1) that by (intro throttle_run_on [OF assms(2)]) (auto simp: buckets_throttle_init_def split: if_splits)
  moreover
  have i: "throttle_inv R T t" "th_tokens t = burst" "th_burst_bytes t = burst" "th_last_refill_us t = get_time_us tv" "0 \<le> R"
    using assms(1,3,4) by (auto simp: buckets_throttle_init_def throttle_ok_def split: if_splits)
  note r = throttle_run_inv [OF assms(2) i(1) assms(5)]
  have "R * (th_last_refill_us t' - th_last_refill_us t) \<le> R * (T - th_last_refill_us t)"
    using r i(5) by (intro mult_left_mono) auto
  ultimately show ?thesis using r i by (auto simp: throttle_ok_def)
qed

theorem throttle_bandwidth_witness:
  "\<exists>t t'. buckets_throttle_init (0, 0) 4 8 = Ok t \<and>
     throttle_run [Enter 7, Turn (0, 0) 7, Enter 3, Turn (1, 0) 3, Turn (1, 0) 4] t = Ok ((10, 0), t') \<and>
     10 * 1000000 \<le> 8 * 1000000 + 4 * (1500000 - get_time_us (0, 0)) \<and> 0 \<le> th_tokens t' \<and> th_tokens t' \<le> 8"
proof -
  let ?t = "\<lparr>th_tokens = 8, th_rate_bytes_per_sec = 4, th_burst_bytes = 8, th_last_refill_us = 0, th_enabled = True\<rparr>"
  let ?es = "[Enter 7, Turn (0, 0) 7, Enter 3, Turn (1, 0) 3, Turn (1, 0) 4]"
  have i: "buckets_throttle_init (0, 0) 4 8 = Ok ?t" by (simp add: buckets_throttle_init_def)
  have r: "throttle_run ?es ?t = Ok ((10, 0), ?t\<lparr>th_tokens := 2, th_last_refill_us := 1000000\<rparr>)"
    by (simp add: throttle_turn_def refill_tokens_def throttle_sleep_us_def in_i64_def signed_divide_int_def)
  show ?thesis using i r throttle_bandwidth [OF i r, of 4 1500000] by simp
qed

section \<open>One thread waiting\<close>

text \<open>A clock that advances between two turns, by at most \<open>D\<close> microseconds.\<close>

definition clock_steps :: "(nat \<Rightarrow> int \<times> int) \<Rightarrow> int \<Rightarrow> bool" where
  "clock_steps clock D \<longleftrightarrow>
     (\<forall>i. get_time_us (clock i) < get_time_us (clock (i + 1)) \<and>
          get_time_us (clock (i + 1)) \<le> get_time_us (clock i) + D)"

text \<open>Sizes for which no product overflows.\<close>

definition throttle_range :: "int \<Rightarrow> int \<Rightarrow> int \<Rightarrow> int \<Rightarrow> bool" where
  "throttle_range D rate burst bytes \<longleftrightarrow>
     0 < rate \<and> 0 \<le> burst \<and> 0 < bytes \<and> bytes * 1000000 \<le> i64_max \<and> burst + D * rate + 1000000 \<le> i64_max"

definition waiting :: "(nat \<Rightarrow> int \<times> int) \<Rightarrow> int \<Rightarrow> int \<Rightarrow> int \<Rightarrow> nat \<Rightarrow> buckets_throttle \<Rightarrow> bool" where
  "waiting clock D rate burst i t \<longleftrightarrow>
     throttle_ok t \<and> th_rate_bytes_per_sec t = rate \<and> th_burst_bytes t = burst \<and>
     th_last_refill_us t \<le> get_time_us (clock i) \<and>
     (get_time_us (clock i) - th_last_refill_us t) * rate < 1000000 + D * rate"

lemma le_mult_pos: "0 < (r::int) \<Longrightarrow> 0 \<le> e \<Longrightarrow> e \<le> e * r"
  using mult_left_mono [of 1 r e] by simp

lemma waiting_refill:
  assumes "waiting clock D rate burst i t" "throttle_range D rate burst bytes"
  defines "e \<equiv> get_time_us (clock i) - th_last_refill_us t"
  shows "refill_tokens t (get_time_us (clock i)) =
     Ok (if e * rate < 1000000 then t
         else t\<lparr>th_tokens := min burst (th_tokens t + e * rate div 1000000), th_last_refill_us := get_time_us (clock i)\<rparr>)"
proof -
  have r: "0 < rate" "0 \<le> e" "th_rate_bytes_per_sec t = rate" "th_burst_bytes t = burst" "0 \<le> th_tokens t" "th_tokens t \<le> burst"
    "e * rate < 1000000 + D * rate" "burst + D * rate + 1000000 \<le> i64_max"
    using assms by (auto simp: waiting_def throttle_range_def throttle_ok_def e_def)
  have p: "0 \<le> e * rate" "e \<le> e * rate" using r(1,2) le_mult_pos [of rate e] by auto
  then have q: "e * rate div 1000000 \<le> e * rate" "0 \<le> e * rate div 1000000" by linarith+
  have "in_i64 e" "in_i64 (e * rate)" "in_i64 (th_tokens t + e * rate div 1000000)"
    using r p q by (auto simp: in_i64_def)
  moreover have "0 < e * rate div 1000000 \<longleftrightarrow> \<not> e * rate < 1000000" by linarith
  ultimately show ?thesis
    using r(2-4) p(1)
    unfolding refill_tokens_def e_def [symmetric] by (auto simp: sdiv_nonneg Let_def min_def)
qed

text \<open>What is left to be done: the tokens that are missing, and the part of the next token that
  the time since the last refill does not pay for.\<close>

definition wait_left :: "(nat \<Rightarrow> int \<times> int) \<Rightarrow> int \<Rightarrow> int \<Rightarrow> nat \<Rightarrow> buckets_throttle \<Rightarrow> nat" where
  "wait_left clock rate bytes i t =
     nat (bytes - th_tokens t) * 1000000 + nat (1000000 - (get_time_us (clock i) - th_last_refill_us t) * rate)"

lemma waiting_turn:
  assumes w: "waiting clock D rate burst i t" and range: "throttle_range D rate burst bytes" and c: "clock_steps clock D"
  obtains (taken) t' where "throttle_turn (get_time_us (clock i)) bytes t = Ok (Taken, t')" "bytes \<le> burst"
  | (sleep) us t' where "throttle_turn (get_time_us (clock i)) bytes t = Ok (Sleep us, t')"
      "waiting clock D rate burst (i + 1) t'"
      "bytes \<le> burst \<longrightarrow> wait_left clock rate bytes (i + 1) t' < wait_left clock rate bytes i t"
proof -
  let ?now = "get_time_us (clock i)" and ?next = "get_time_us (clock (i + 1))"
  define e where "e = ?now - th_last_refill_us t"
  define t' where "t' = (if e * rate < 1000000 then t
    else t\<lparr>th_tokens := min burst (th_tokens t + e * rate div 1000000), th_last_refill_us := ?now\<rparr>)"
  have f: "refill_tokens t ?now = Ok t'" using waiting_refill [OF w range] by (simp add: t'_def e_def)
  have n: "?now < ?next" "?next \<le> ?now + D" using c by (auto simp: clock_steps_def)
  have r: "0 < rate" "0 < bytes" "bytes * 1000000 \<le> i64_max" and o: "throttle_ok t" "th_rate_bytes_per_sec t = rate" "th_burst_bytes t = burst"
    "th_last_refill_us t \<le> ?now"
    using w range by (auto simp: waiting_def throttle_range_def)
  note k = refill_tokens_credit [OF f o(1)]
  show thesis
  proof (cases "bytes \<le> th_tokens t'")
    case True
    then show thesis using k o(3) by (intro taken) (auto simp: throttle_turn_def f throttle_ok_def)
  next
    case False
    have "in_i64 (bytes - th_tokens t')" "in_i64 ((bytes - th_tokens t') * 1000000)"
      using False r k(1) by (auto simp: in_i64_def throttle_ok_def)
    then obtain us where us: "throttle_sleep_us t' bytes = Ok us"
      using r(1) k(3) o(2) by (auto simp: throttle_sleep_us_def Let_def)
    have m: "(?next - ?now) * rate \<le> D * rate" "rate \<le> (?next - ?now) * rate"
      using n r(1) mult_right_mono [of 1 "?next - ?now" rate] by (auto intro: mult_right_mono)
    have split: "(?next - th_last_refill_us t) * rate = (?next - ?now) * rate + e * rate"
      by (simp add: e_def algebra_simps)
    have "waiting clock D rate burst (i + 1) t'"
      using k o n m split by (auto simp: waiting_def t'_def)
    moreover have "wait_left clock rate bytes (i + 1) t' < wait_left clock rate bytes i t" if b: "bytes \<le> burst"
    proof (cases "e * rate < 1000000")
      case True
      then show ?thesis using split m r(1) by (auto simp: wait_left_def t'_def e_def)
    next
      case g: False
      then have "th_tokens t + 1 \<le> th_tokens t'" "th_last_refill_us t' = ?now"
        using False b by (auto simp: t'_def min_def)
      moreover have "0 < (?next - ?now) * rate" using m(2) r(1) by linarith
      moreover have "nat (bytes - th_tokens t) = nat (bytes - th_tokens t') + nat (th_tokens t' - th_tokens t)"
        using False calculation(1) by (simp add: nat_add_distrib [symmetric])
      ultimately show ?thesis unfolding wait_left_def by (simp add: add_mult_distrib)
    qed
    ultimately show thesis using False by (intro sleep) (auto simp: throttle_turn_def f us)
  qed
qed

lemma throttle_loop_returns:
  assumes "throttle_range D rate burst bytes" "clock_steps clock D" "bytes \<le> burst"
  shows "waiting clock D rate burst i t \<Longrightarrow>
    \<exists>k t'. throttle_loop clock bytes i t = Some (Ok (k, t')) \<and> k \<le> i + wait_left clock rate bytes i t"
proof (induction "wait_left clock rate bytes i t" arbitrary: i t rule: less_induct)
  case less
  show ?case
  proof (cases rule: waiting_turn [OF less.prems assms(1,2), case_names taken sleep])
    case (taken t')
    then show ?thesis by (subst throttle_loop.simps) simp
  next
    case (sleep us t')
    have l: "wait_left clock rate bytes (i + 1) t' < wait_left clock rate bytes i t" using sleep(3) assms(3) by simp
    obtain k u where "throttle_loop clock bytes (i + 1) t' = Some (Ok (k, u))"
      "k \<le> (i + 1) + wait_left clock rate bytes (i + 1) t'"
      using less.hyps [OF l sleep(2)] by blast
    then show ?thesis using sleep(1) l by (subst throttle_loop.simps) auto
  qed
qed

lemma throttle_loop_stuck:
  assumes range: "throttle_range D rate burst bytes" and c: "clock_steps clock D" and "burst < bytes"
  shows "throttle_loop clock bytes i t = Some r \<Longrightarrow> \<not> waiting clock D rate burst i t"
proof (rule throttle_loop.raw_induct [where P = "\<lambda>clock' bytes' i t r. clock' = clock \<longrightarrow> bytes' = bytes \<longrightarrow>
      \<not> waiting clock D rate burst i t", rule_format], goal_cases)
  case (1 loop cl b i t y)
  have False if w: "waiting clock D rate burst i t"
  proof (cases rule: waiting_turn [OF w range c, case_names taken sleep])
    case (sleep us t')
    then show ?thesis using 1 by fastforce
  qed (use assms in auto)
  then show ?case by blast
qed auto

text \<open>C31: a wait returns exactly if its bytes fit the burst.  Take a thread that waits for a
  positive number of bytes on a throttle that is switched on with a positive rate, however
  much of its tokens has been used up already; let the clock advance from turn to turn by at
  most \<open>D\<close> microseconds, and also from the last refill to the first turn, with all quantities
  small enough for the arithmetic.  If the bytes are at most the burst, the wait returns,
  however small the rate, after at most a million turns for each token that is missing and
  a million more; if they are more, the bucket can never hold enough and the wait never
  returns.\<close>

theorem throttle_wait_returns_iff:
  assumes "throttle_ok t" "th_enabled t" "throttle_range D (th_rate_bytes_per_sec t) (th_burst_bytes t) bytes"
    and "clock_steps clock D"
    and "th_last_refill_us t \<le> get_time_us (clock i)" "get_time_us (clock i) \<le> th_last_refill_us t + D"
  shows "(bytes \<le> th_burst_bytes t \<longrightarrow>
           (\<exists>k t'. buckets_throttle_wait clock i (Some t) bytes = Some (Ok (k, t')) \<and>
              k \<le> i + nat (bytes - th_tokens t) * 1000000 + 1000000)) \<and>
         (th_burst_bytes t < bytes \<longrightarrow> buckets_throttle_wait clock i (Some t) bytes = None)"
proof -
  let ?rate = "th_rate_bytes_per_sec t" and ?burst = "th_burst_bytes t"
  let ?e = "get_time_us (clock i) - th_last_refill_us t"
  have t: "0 < bytes" "0 < ?rate" using assms(3) by (auto simp: throttle_range_def)
  have "?e * ?rate \<le> D * ?rate" using assms(6) t(2) by (intro mult_right_mono) auto
  then have "?e * ?rate < 1000000 + D * ?rate" by linarith
  then have w: "waiting clock D ?rate ?burst i t" using assms(1,5) unfolding waiting_def by simp
  have "0 \<le> ?e * ?rate" using assms(5) t(2) by simp
  then have "wait_left clock ?rate bytes i t \<le> nat (bytes - th_tokens t) * 1000000 + 1000000"
    by (simp add: wait_left_def)
  moreover have "buckets_throttle_wait clock i (Some t) bytes = throttle_loop clock bytes i t"
    using t assms(2) by (simp add: buckets_throttle_wait_def)
  moreover have "throttle_loop clock bytes i t = None" if "?burst < bytes"
    using throttle_loop_stuck [OF assms(3,4) that] w by (cases "throttle_loop clock bytes i t") auto
  moreover have "\<exists>k t'. throttle_loop clock bytes i t = Some (Ok (k, t')) \<and> k \<le> i + wait_left clock ?rate bytes i t"
    if "bytes \<le> ?burst"
    using throttle_loop_returns [OF assms(3,4) that w] .
  ultimately show ?thesis by (auto intro: order_trans)
qed

definition ticking :: "nat \<Rightarrow> int \<times> int" where
  "ticking i = (int i, 0)"

theorem throttle_wait_returns_iff_witness:
  "\<exists>t. t = \<lparr>th_tokens = 0, th_rate_bytes_per_sec = 4, th_burst_bytes = 8, th_last_refill_us = 0, th_enabled = True\<rparr> \<and>
     (\<exists>k t'. buckets_throttle_wait ticking 0 (Some t) 8 = Some (Ok (k, t')) \<and> k \<le> 9000000) \<and>
     buckets_throttle_wait ticking 0 (Some t) 9 = None"
proof -
  let ?t = "\<lparr>th_tokens = 0, th_rate_bytes_per_sec = 4, th_burst_bytes = 8, th_last_refill_us = 0, th_enabled = True\<rparr>"
  have c: "clock_steps ticking 1000000" by (simp add: clock_steps_def ticking_def)
  have o: "throttle_ok ?t" "th_enabled ?t" by (simp_all add: throttle_ok_def)
  show ?thesis
    using throttle_wait_returns_iff [OF o _ c, of 8 0] throttle_wait_returns_iff [OF o _ c, of 9 0]
    by (simp add: throttle_range_def ticking_def)
qed

section \<open>Undefined arithmetic\<close>

text \<open>C32: two ways in which a wait leaves the arithmetic of C.  If the throttle is switched off
  by setting its rate to zero while a thread sleeps in a wait, the next turn of that thread
  divides by zero, unless the tokens have become enough.  And after a day without traffic -
  a little less than \<open>2 ^ 63\<close> divided by the rate, in microseconds - the product of elapsed
  time and default rate overflows at the next use of a throttle with default settings.\<close>

theorem throttle_undefined:
  "(throttle_turn now bytes t = Ok (Sleep us, t') \<and> buckets_throttle_set_rate 0 t' = Ok t'' \<and>
      in_i64 (get_time_us tv - th_last_refill_us t') \<longrightarrow>
      throttle_event (Turn tv bytes) t'' = Undefined \<or> bytes \<le> 0) \<and>
   (buckets_throttle_create_default tv0 = Ok d \<and> 87960930223 \<le> get_time_us tv - get_time_us tv0 \<and> 0 < bytes \<longrightarrow>
      throttle_event (Turn tv bytes) d = Undefined)"
proof (intro conjI impI)
  assume a: "throttle_turn now bytes t = Ok (Sleep us, t') \<and> buckets_throttle_set_rate 0 t' = Ok t'' \<and>
      in_i64 (get_time_us tv - th_last_refill_us t')"
  then have "th_tokens t' < bytes" "t'' = t'\<lparr>th_rate_bytes_per_sec := 0, th_enabled := False\<rparr>"
    by (auto simp: throttle_turn_def buckets_throttle_set_rate_def split: outcome.splits if_splits)
  moreover from this have "refill_tokens t'' (get_time_us tv) = Ok t''"
    using a by (auto simp: refill_tokens_def in_i64_def signed_divide_int_def)
  moreover from calculation have "throttle_sleep_us t'' bytes = Undefined"
    by (auto simp: throttle_sleep_us_def split: outcome.split)
  ultimately show "throttle_event (Turn tv bytes) t'' = Undefined \<or> bytes \<le> 0"
    by (auto simp: throttle_turn_def)
next
  assume a: "buckets_throttle_create_default tv0 = Ok d \<and> 87960930223 \<le> get_time_us tv - get_time_us tv0 \<and> 0 < bytes"
  then have "refill_tokens d (get_time_us tv) = Undefined"
    by (auto simp: buckets_throttle_create_default_def buckets_throttle_init_def refill_tokens_def i64_result_def in_i64_def)
  then show "throttle_event (Turn tv bytes) d = Undefined" using a by (simp add: throttle_turn_def)
qed

theorem throttle_undefined_witness:
  "\<exists>t t' t'' d. throttle_turn 0 5 t = Ok (Sleep 100000, t') \<and> buckets_throttle_set_rate 0 t' = Ok t'' \<and>
     throttle_event (Turn (1, 0) 5) t'' = Undefined \<and>
     buckets_throttle_create_default (0, 0) = Ok d \<and> throttle_event (Turn (90000, 0) 1) d = Undefined"
proof -
  let ?t = "\<lparr>th_tokens = 0, th_rate_bytes_per_sec = 4, th_burst_bytes = 8, th_last_refill_us = 0, th_enabled = True\<rparr>"
  have 1: "throttle_turn 0 5 ?t = Ok (Sleep 100000, ?t)"
    by (simp add: throttle_turn_def refill_tokens_def throttle_sleep_us_def in_i64_def signed_divide_int_def)
  obtain t'' where 2: "buckets_throttle_set_rate 0 ?t = Ok t''" by (simp add: buckets_throttle_set_rate_def)
  obtain d where 3: "buckets_throttle_create_default (0, 0) = Ok d"
    by (simp add: buckets_throttle_create_default_def buckets_throttle_init_def)
  have "throttle_event (Turn (1, 0) 5) t'' = Undefined"
    using throttle_undefined [THEN conjunct1, of 0 5 ?t 100000 ?t t'' "(1, 0)"] 1 2 by (simp add: in_i64_def)
  moreover have "throttle_event (Turn (90000, 0) 1) d = Undefined"
    using throttle_undefined [THEN conjunct2, of "(0, 0)" d "(90000, 0)" 1] 3 by simp
  ultimately show ?thesis using 1 2 3 by blast
qed

end
