(* ===== verification/Migration_Worker.thy ===== *)
theory Migration_Worker
  imports Topology "HOL-Library.Multiset"
begin

text \<open>
  The worker threads of the migration, \<^verbatim>\<open>src/src/migration/worker.c\<close>: a bounded queue of
  tasks in a ring buffer, and a pool of threads that take tasks from it, carry them out
  with retries and count what they did.  The operations under a lock are functions; what
  the threads do together is a step relation in which each step is one section under a
  lock.  An operation that waits on a condition variable is not enabled in the states in
  which it would wait.
\<close>

section \<open>Tasks and the queue\<close>

record buckets_migration_task =
  mt_bucket :: string
  mt_object :: string
  mt_version_id :: string
  mt_old_pool_idx :: int
  mt_old_set_idx :: int
  mt_new_pool_idx :: int
  mt_new_set_idx :: int
  mt_size :: int
  mt_mod_time :: int
  mt_retry_count :: int
  mt_last_attempt :: int

definition zero_task :: buckets_migration_task where
  "zero_task = \<lparr>mt_bucket = [], mt_object = [], mt_version_id = [], mt_old_pool_idx = 0, mt_old_set_idx = 0,
     mt_new_pool_idx = 0, mt_new_set_idx = 0, mt_size = 0, mt_mod_time = 0, mt_retry_count = 0, mt_last_attempt = 0\<rparr>"

record task_queue =
  tq_tasks :: "buckets_migration_task list"
  tq_capacity :: nat
  tq_count :: nat
  tq_head :: nat
  tq_tail :: nat
  tq_shutdown :: bool

definition task_queue_init :: "nat \<Rightarrow> task_queue" where
  "task_queue_init capacity =
     \<lparr>tq_tasks = replicate capacity zero_task, tq_capacity = capacity, tq_count = 0, tq_head = 0, tq_tail = 0,
      tq_shutdown = False\<rparr>"

text \<open>\<open>None\<close> where the caller waits for space or for tasks.\<close>

definition task_queue_push :: "buckets_migration_task \<Rightarrow> task_queue \<Rightarrow> task_queue outcome option" where
  "task_queue_push task q =
    (if tq_capacity q \<le> tq_count q \<and> \<not> tq_shutdown q then None
     else if tq_shutdown q then Some (Fail BUCKETS_ERR_INVALID_ARG)
     else Some (Ok (q\<lparr>tq_tasks := (tq_tasks q)[tq_tail q := task],
                      tq_tail := (tq_tail q + 1) mod tq_capacity q,
                      tq_count := tq_count q + 1\<rparr>)))"

definition task_queue_pop :: "task_queue \<Rightarrow> (buckets_migration_task option \<times> task_queue) option" where
  "task_queue_pop q =
    (if tq_count q = 0 \<and> \<not> tq_shutdown q then None
     else if tq_count q = 0 \<and> tq_shutdown q then Some (None, q)
     else Some (Some (tq_tasks q ! tq_head q),
                q\<lparr>tq_head := (tq_head q + 1) mod tq_capacity q, tq_count := tq_count q - 1\<rparr>))"

definition task_queue_shutdown :: "task_queue \<Rightarrow> task_queue" where
  "task_queue_shutdown q = q\<lparr>tq_shutdown := True\<rparr>"

section \<open>The pool\<close>

record buckets_worker_pool =
  wp_num_workers :: nat
  wp_queue :: task_queue
  wp_old_topology :: buckets_cluster_topology
  wp_new_topology :: buckets_cluster_topology
  wp_disk_paths :: "string list"
  wp_disk_count :: int
  wp_tasks_completed :: int
  wp_tasks_failed :: int
  wp_bytes_migrated :: int
  wp_active_workers :: int
  wp_start_time :: int
  wp_running :: bool

text \<open>\<^verbatim>\<open>&topology->pools[p].sets[s]\<close>, with indices outside the arrays made explicit.\<close>

definition topology_set :: "buckets_cluster_topology \<Rightarrow> int \<Rightarrow> int \<Rightarrow> buckets_set_topology option" where
  "topology_set topology p s =
    (if 0 \<le> p \<and> nat p < length (tp_pools topology)
     then let sets = pl_sets (tp_pools topology ! nat p)
          in if 0 \<le> s \<and> nat s < length sets then Some (sets ! nat s) else None
     else None)"

definition read_source_object :: "buckets_worker_pool \<Rightarrow> buckets_migration_task \<Rightarrow> int outcome" where
  "read_source_object pool task =
    (case topology_set (wp_old_topology pool) (mt_old_pool_idx task) (mt_old_set_idx task) of
       None \<Rightarrow> Undefined
     | Some st \<Rightarrow> if st_disks st = [] then Fail BUCKETS_ERR_INVALID_ARG else Ok (mt_size task))"

definition write_destination_object :: "buckets_worker_pool \<Rightarrow> buckets_migration_task \<Rightarrow> unit outcome" where
  "write_destination_object pool task =
    (case topology_set (wp_new_topology pool) (mt_new_pool_idx task) (mt_new_set_idx task) of
       None \<Rightarrow> Undefined
     | Some st \<Rightarrow> if st_disks st = [] then Fail BUCKETS_ERR_INVALID_ARG else Ok ())"

text \<open>Moving the registry entry and deleting the source are placeholders that report success.\<close>

definition execute_migration :: "buckets_worker_pool \<Rightarrow> buckets_migration_task \<Rightarrow> buckets_worker_pool outcome" where
  "execute_migration pool task =
    (case read_source_object pool task of
       Ok data_size \<Rightarrow>
         (case write_destination_object pool task of
            Ok _ \<Rightarrow>
              (case (i64_result (wp_tasks_completed pool + 1), i64_result (wp_bytes_migrated pool + mt_size task)) of
                 (Ok completed, Ok bytes) \<Rightarrow> Ok (pool\<lparr>wp_tasks_completed := completed, wp_bytes_migrated := bytes\<rparr>)
               | _ \<Rightarrow> Undefined)
          | Fail e \<Rightarrow> Fail e
          | Undefined \<Rightarrow> Undefined)
     | Fail e \<Rightarrow> Fail e
     | Undefined \<Rightarrow> Undefined)"

definition MAX_RETRY_ATTEMPTS :: int where
  "MAX_RETRY_ATTEMPTS = 3"

definition INITIAL_RETRY_DELAY_MS :: int where
  "INITIAL_RETRY_DELAY_MS = 100"

definition MAX_RETRY_DELAY_MS :: int where
  "MAX_RETRY_DELAY_MS = 5000"

text \<open>The loop over the attempts; the result has the pool, the task and the delays slept.\<close>

function retry_loop ::
  "int \<Rightarrow> int \<Rightarrow> buckets_worker_pool \<Rightarrow> buckets_migration_task
     \<Rightarrow> (bool \<times> buckets_worker_pool \<times> buckets_migration_task \<times> int list) outcome" where
  "retry_loop attempts delay_ms pool task =
    (if attempts < MAX_RETRY_ATTEMPTS
     then case execute_migration pool task of
            Ok pool' \<Rightarrow> Ok (True, pool', task, [])
          | Undefined \<Rightarrow> Undefined
          | Fail e \<Rightarrow>
            let attempts = attempts + 1; task = task\<lparr>mt_retry_count := attempts\<rparr> in
            if attempts < MAX_RETRY_ATTEMPTS
            then let next_ms = delay_ms * 2;
                     next_ms = (if MAX_RETRY_DELAY_MS < next_ms then MAX_RETRY_DELAY_MS else next_ms)
                 in case retry_loop attempts next_ms pool task of
                      Ok (ok, pool', task', slept) \<Rightarrow> Ok (ok, pool', task', delay_ms # slept)
                    | Fail e \<Rightarrow> Fail e
                    | Undefined \<Rightarrow> Undefined
            else retry_loop attempts delay_ms pool task
     else Ok (False, pool, task, []))"
  by auto
termination
  by (relation "measure (\<lambda>(attempts, _). nat (MAX_RETRY_ATTEMPTS - attempts))") auto

definition execute_migration_with_retry ::
  "buckets_worker_pool \<Rightarrow> buckets_migration_task \<Rightarrow> (bool \<times> buckets_worker_pool) outcome" where
  "execute_migration_with_retry pool task =
    (case retry_loop 0 INITIAL_RETRY_DELAY_MS pool task of
       Ok (True, pool', _, _) \<Rightarrow> Ok (True, pool')
     | Ok (False, pool', _, _) \<Rightarrow>
         (case i64_result (wp_tasks_failed pool' + 1) of
            Ok failed \<Rightarrow> Ok (False, pool'\<lparr>wp_tasks_failed := failed\<rparr>)
          | _ \<Rightarrow> Undefined)
     | Fail e \<Rightarrow> Fail e
     | Undefined \<Rightarrow> Undefined)"

definition DEFAULT_NUM_WORKERS :: int where
  "DEFAULT_NUM_WORKERS = 16"

definition buckets_worker_pool_create ::
  "int \<Rightarrow> int \<Rightarrow> buckets_cluster_topology option \<Rightarrow> buckets_cluster_topology option \<Rightarrow> string list option \<Rightarrow> int
     \<Rightarrow> buckets_worker_pool option" where
  "buckets_worker_pool_create now num_workers old_topology new_topology disk_paths disk_count =
    (case (old_topology, new_topology, disk_paths) of
       (Some old, Some new, Some paths) \<Rightarrow>
         if disk_count \<le> 0 then None
         else Some \<lparr>wp_num_workers = nat (if num_workers \<le> 0 then DEFAULT_NUM_WORKERS else num_workers),
                    wp_queue = task_queue_init 10000, wp_old_topology = old, wp_new_topology = new,
                    wp_disk_paths = paths, wp_disk_count = disk_count, wp_tasks_completed = 0, wp_tasks_failed = 0,
                    wp_bytes_migrated = 0, wp_active_workers = 0, wp_start_time = now, wp_running = False\<rparr>
     | _ \<Rightarrow> None)"

declare retry_loop.simps [simp del]

section \<open>The threads\<close>

text \<open>Where a worker is in its loop: before taking a task, with a task but not yet counted as
  active, active, done with its task but still counted, or gone.\<close>

datatype worker =
  W_Idle
  | W_Popped buckets_migration_task
  | W_Active buckets_migration_task
  | W_Finished
  | W_Exited

text \<open>The pool with all threads created for it.  The last two fields record the history: the
  tasks accepted, and the tasks carried out with their result.\<close>

record pool_system =
  ps_pool :: buckets_worker_pool
  ps_workers :: "worker list"
  ps_submitted :: "buckets_migration_task list"
  ps_executed :: "(buckets_migration_task \<times> bool) list"

definition pool_initial :: "buckets_worker_pool \<Rightarrow> pool_system" where
  "pool_initial pool = \<lparr>ps_pool = pool, ps_workers = [], ps_submitted = [], ps_executed = []\<rparr>"

text \<open>Starting the pool when the system can create \<open>spawned\<close> threads.  If these are too few,
  the call to stop the others has no effect, because the pool is not marked as running.\<close>

definition buckets_worker_pool_start :: "int \<Rightarrow> nat \<Rightarrow> pool_system \<Rightarrow> buckets_error \<times> pool_system" where
  "buckets_worker_pool_start now spawned s =
    (let pool = ps_pool s in
     if wp_running pool then (BUCKETS_ERR_INVALID_ARG, s)
     else if spawned < wp_num_workers pool
     then (BUCKETS_ERR_IO, s\<lparr>ps_workers := ps_workers s @ replicate spawned W_Idle\<rparr>)
     else (BUCKETS_OK, s\<lparr>ps_workers := ps_workers s @ replicate (wp_num_workers pool) W_Idle,
                         ps_pool := pool\<lparr>wp_running := True, wp_start_time := now\<rparr>\<rparr>))"

text \<open>One task of a submission.\<close>

definition worker_pool_submit_one :: "buckets_migration_task \<Rightarrow> pool_system \<Rightarrow> (buckets_error \<times> pool_system) option" where
  "worker_pool_submit_one task s =
    (let pool = ps_pool s in
     if \<not> wp_running pool then Some (BUCKETS_ERR_INVALID_ARG, s)
     else case task_queue_push task (wp_queue pool) of
            None \<Rightarrow> None
          | Some (Ok q) \<Rightarrow> Some (BUCKETS_OK, s\<lparr>ps_pool := pool\<lparr>wp_queue := q\<rparr>, ps_submitted := ps_submitted s @ [task]\<rparr>)
          | Some _ \<Rightarrow> Some (BUCKETS_ERR_INVALID_ARG, s))"

text \<open>The steps of a worker in its loop.\<close>

fun worker_thread_step :: "worker \<Rightarrow> pool_system \<Rightarrow> (worker \<times> pool_system) option" where
  "worker_thread_step W_Idle s =
    (case task_queue_pop (wp_queue (ps_pool s)) of
       None \<Rightarrow> None
     | Some (Some task, q) \<Rightarrow> Some (W_Popped task, s\<lparr>ps_pool := (ps_pool s)\<lparr>wp_queue := q\<rparr>\<rparr>)
     | Some (None, q) \<Rightarrow> Some (W_Exited, s))"
| "worker_thread_step (W_Popped task) s =
     Some (W_Active task, s\<lparr>ps_pool := (ps_pool s)\<lparr>wp_active_workers := wp_active_workers (ps_pool s) + 1\<rparr>\<rparr>)"
| "worker_thread_step (W_Active task) s =
    (case execute_migration_with_retry (ps_pool s) task of
       Ok (ok, pool) \<Rightarrow> Some (W_Finished, s\<lparr>ps_pool := pool, ps_executed := ps_executed s @ [(task, ok)]\<rparr>)
     | _ \<Rightarrow> None)"
| "worker_thread_step W_Finished s =
     Some (W_Idle, s\<lparr>ps_pool := (ps_pool s)\<lparr>wp_active_workers := wp_active_workers (ps_pool s) - 1\<rparr>\<rparr>)"
| "worker_thread_step W_Exited s = None"

inductive pool_step :: "pool_system \<Rightarrow> pool_system \<Rightarrow> bool" where
  start: "buckets_worker_pool_start now spawned s = (r, s') \<Longrightarrow> pool_step s s'"
| submit: "worker_pool_submit_one task s = Some (r, s') \<Longrightarrow> pool_step s s'"
| work: "i < length (ps_workers s) \<Longrightarrow> worker_thread_step (ps_workers s ! i) s = Some (w, s') \<Longrightarrow>
     pool_step s (s'\<lparr>ps_workers := (ps_workers s')[i := w]\<rparr>)"
| stop: "wp_running (ps_pool s) \<Longrightarrow>
     pool_step s (s\<lparr>ps_pool := (ps_pool s)\<lparr>wp_queue := task_queue_shutdown (wp_queue (ps_pool s))\<rparr>\<rparr>)"
| join: "wp_running (ps_pool s) \<Longrightarrow> tq_shutdown (wp_queue (ps_pool s)) \<Longrightarrow>
     list_all (\<lambda>w. w = W_Exited) (drop (length (ps_workers s) - wp_num_workers (ps_pool s)) (ps_workers s)) \<Longrightarrow>
     pool_step s (s\<lparr>ps_pool := (ps_pool s)\<lparr>wp_running := False\<rparr>\<rparr>)"

abbreviation pool_reach :: "pool_system \<Rightarrow> pool_system \<Rightarrow> bool" where
  "pool_reach \<equiv> pool_step\<^sup>*\<^sup>*"

text \<open>\<^verbatim>\<open>buckets_worker_pool_wait\<close> returns if it reads an empty queue and, later, no active
  worker.\<close>

definition pool_wait_returns :: "pool_system \<Rightarrow> pool_system \<Rightarrow> bool" where
  "pool_wait_returns s s' \<longleftrightarrow> tq_count (wp_queue (ps_pool s)) = 0 \<and> pool_reach s s' \<and> wp_active_workers (ps_pool s') = 0"

text \<open>Submitting tasks one after the other, each time waiting for space while the other threads
  go on.\<close>

inductive buckets_worker_pool_submit ::
  "buckets_migration_task list \<Rightarrow> pool_system \<Rightarrow> buckets_error \<Rightarrow> pool_system \<Rightarrow> bool" where
  finished: "pool_reach s s' \<Longrightarrow> buckets_worker_pool_submit [] s BUCKETS_OK s'"
| accepted: "pool_reach s u \<Longrightarrow> worker_pool_submit_one task u = Some (BUCKETS_OK, v) \<Longrightarrow>
     buckets_worker_pool_submit tasks v r s' \<Longrightarrow> buckets_worker_pool_submit (task # tasks) s r s'"
| refused: "pool_reach s u \<Longrightarrow> worker_pool_submit_one task u = Some (r, s') \<Longrightarrow> r \<noteq> BUCKETS_OK \<Longrightarrow>
     buckets_worker_pool_submit (task # tasks) s r s'"

text \<open>Stopping: the queue is shut down and the call returns when the threads started last have
  all left their loops.\<close>

inductive buckets_worker_pool_stop :: "pool_system \<Rightarrow> buckets_error \<Rightarrow> pool_system \<Rightarrow> bool" where
  idle: "\<not> wp_running (ps_pool s) \<Longrightarrow> buckets_worker_pool_stop s BUCKETS_ERR_INVALID_ARG s"
| joined: "wp_running (ps_pool s) \<Longrightarrow>
     pool_reach (s\<lparr>ps_pool := (ps_pool s)\<lparr>wp_queue := task_queue_shutdown (wp_queue (ps_pool s))\<rparr>\<rparr>) u \<Longrightarrow>
     list_all (\<lambda>w. w = W_Exited) (drop (length (ps_workers u) - wp_num_workers (ps_pool u)) (ps_workers u)) \<Longrightarrow>
     buckets_worker_pool_stop s BUCKETS_OK (u\<lparr>ps_pool := (ps_pool u)\<lparr>wp_running := False\<rparr>\<rparr>)"

section \<open>The queue is first-in first-out\<close>

definition queue_items :: "task_queue \<Rightarrow> buckets_migration_task list" where
  "queue_items q = map (\<lambda>i. tq_tasks q ! ((tq_head q + i) mod tq_capacity q)) [0..<tq_count q]"

definition queue_wf :: "task_queue \<Rightarrow> bool" where
  "queue_wf q \<longleftrightarrow> length (tq_tasks q) = tq_capacity q \<and> tq_head q < tq_capacity q \<and> tq_count q \<le> tq_capacity q \<and>
     tq_tail q = (tq_head q + tq_count q) mod tq_capacity q"

text \<open>What the pool needs to know about its queue.\<close>

locale task_fifo =
  fixes ok :: "'q \<Rightarrow> bool" and items :: "'q \<Rightarrow> 't list" and closed :: "'q \<Rightarrow> bool"
    and push :: "'t \<Rightarrow> 'q \<Rightarrow> 'q outcome option" and pop :: "'q \<Rightarrow> ('t option \<times> 'q) option"
  assumes push_law: "ok q \<Longrightarrow> push t q = Some (Ok q') \<Longrightarrow> ok q' \<and> items q' = items q @ [t] \<and> \<not> closed q \<and> \<not> closed q'"
    and pop_law: "ok q \<Longrightarrow> pop q = Some (Some t, q') \<Longrightarrow> ok q' \<and> items q = t # items q' \<and> closed q' = closed q"
    and pop_end: "ok q \<Longrightarrow> pop q = Some (None, q') \<Longrightarrow> q' = q \<and> items q = [] \<and> closed q"
    and pop_blocks: "ok q \<Longrightarrow> pop q = None \<longleftrightarrow> items q = [] \<and> \<not> closed q"
begin

lemma push_mset: "ok q \<Longrightarrow> push t q = Some (Ok q') \<Longrightarrow> mset (items q') = add_mset t (mset (items q))"
  using push_law by fastforce

lemma pop_mset: "ok q \<Longrightarrow> pop q = Some (Some t, q') \<Longrightarrow> mset (items q) = add_mset t (mset (items q'))"
  using pop_law by fastforce

end

lemma length_queue_items [simp]: "length (queue_items q) = tq_count q"
  by (simp add: queue_items_def)

lemma queue_items_empty_iff: "queue_items q = [] \<longleftrightarrow> tq_count q = 0"
  by (simp add: queue_items_def)

lemma queue_push_items:
  assumes "queue_wf q" "task_queue_push t q = Some (Ok q')"
  shows "queue_wf q'" "queue_items q' = queue_items q @ [t]" "\<not> tq_shutdown q" "\<not> tq_shutdown q'"
proof -
  let ?c = "tq_capacity q"
  have w: "length (tq_tasks q) = ?c" "tq_head q < ?c" "tq_count q < ?c" "tq_tail q = (tq_head q + tq_count q) mod ?c"
    and q': "q' = q\<lparr>tq_tasks := (tq_tasks q)[tq_tail q := t], tq_tail := (tq_tail q + 1) mod ?c, tq_count := tq_count q + 1\<rparr>"
    and s: "\<not> tq_shutdown q"
    using assms by (auto simp: queue_wf_def task_queue_push_def split: if_splits)
  have "tq_tail q \<noteq> (tq_head q + i) mod ?c" if "i < tq_count q" for i
  proof
    assume "tq_tail q = (tq_head q + i) mod ?c"
    then have "(tq_head q + i) mod ?c = (tq_head q + tq_count q) mod ?c" by (simp add: w(4))
    then have "?c dvd tq_count q - i" using that by (metis add_diff_cancel_left less_imp_le mod_eq_dvd_iff_nat nat_add_left_cancel_le)
    then show False using that w(3) by (auto dest!: dvd_imp_le)
  qed
  then have "map (\<lambda>i. (tq_tasks q)[tq_tail q := t] ! ((tq_head q + i) mod ?c)) [0..<tq_count q] = queue_items q"
    by (auto simp: queue_items_def)
  moreover have "tq_tail q < ?c" using w(2,4) by simp
  ultimately show "queue_items q' = queue_items q @ [t]" using w by (simp add: queue_items_def q')
  show "queue_wf q'" using w by (auto simp: queue_wf_def q' mod_Suc_eq)
  show "\<not> tq_shutdown q" "\<not> tq_shutdown q'" using s by (simp_all add: q')
qed

lemma queue_pop_items:
  assumes "queue_wf q" "task_queue_pop q = Some (Some t, q')"
  shows "queue_wf q'" "queue_items q = t # queue_items q'" "tq_shutdown q' = tq_shutdown q"
proof -
  let ?c = "tq_capacity q"
  have w: "length (tq_tasks q) = ?c" "tq_head q < ?c" "tq_count q \<le> ?c" "0 < tq_count q" "t = tq_tasks q ! tq_head q"
    "tq_tail q = (tq_head q + tq_count q) mod ?c"
    and q': "q' = q\<lparr>tq_head := (tq_head q + 1) mod ?c, tq_count := tq_count q - 1\<rparr>"
    using assms by (auto simp: queue_wf_def task_queue_pop_def split: if_splits)
  have "queue_items q = map (\<lambda>i. tq_tasks q ! ((tq_head q + i) mod ?c)) (0 # map Suc [0..<tq_count q - 1])"
    using w(4) by (simp only: queue_items_def map_Suc_upt upt_conv_Cons Suc_pred' [symmetric])
  then show "queue_items q = t # queue_items q'"
    using w(2,5) by (simp add: queue_items_def q' mod_add_left_eq comp_def)
  have "(tq_head q + 1) mod ?c + (tq_count q - 1) = (tq_head q + 1) mod ?c + tq_count q - 1" using w(4) by simp
  have "((tq_head q + 1) mod ?c + (tq_count q - 1)) mod ?c = (tq_head q + 1 + (tq_count q - 1)) mod ?c"
    by (simp only: mod_add_left_eq)
  then show "queue_wf q'" using w by (auto simp: queue_wf_def q')
  show "tq_shutdown q' = tq_shutdown q" by (simp add: q')
qed

interpretation tq: task_fifo queue_wf queue_items tq_shutdown task_queue_push task_queue_pop
proof unfold_locales
  fix q t q' assume "queue_wf q" "task_queue_push t q = Some (Ok q')"
  then show "queue_wf q' \<and> queue_items q' = queue_items q @ [t] \<and> \<not> tq_shutdown q \<and> \<not> tq_shutdown q'"
    using queue_push_items by blast
next
  fix q t q' assume "queue_wf q" "task_queue_pop q = Some (Some t, q')"
  then show "queue_wf q' \<and> queue_items q = t # queue_items q' \<and> tq_shutdown q' = tq_shutdown q"
    using queue_pop_items by blast
qed (auto simp: task_queue_pop_def queue_items_empty_iff split: if_splits)

text \<open>A sequence of calls on a queue; \<open>None\<close> if a call waits.  The result has the tasks accepted
  and the tasks handed out.\<close>

datatype queue_op = Push buckets_migration_task | Pop | Shutdown

fun queue_run :: "queue_op list \<Rightarrow> task_queue
    \<Rightarrow> (buckets_migration_task list \<times> buckets_migration_task list \<times> task_queue) option" where
  "queue_run [] q = Some ([], [], q)"
| "queue_run (Push t # ops) q =
    (case task_queue_push t q of
       None \<Rightarrow> None
     | Some (Ok q') \<Rightarrow> map_option (\<lambda>(ins, outs, r). (t # ins, outs, r)) (queue_run ops q')
     | Some _ \<Rightarrow> queue_run ops q)"
| "queue_run (Pop # ops) q =
    (case task_queue_pop q of
       None \<Rightarrow> None
     | Some (Some t, q') \<Rightarrow> map_option (\<lambda>(ins, outs, r). (ins, t # outs, r)) (queue_run ops q')
     | Some (None, q') \<Rightarrow> queue_run ops q')"
| "queue_run (Shutdown # ops) q = queue_run ops (task_queue_shutdown q)"

lemma task_queue_shutdown_simps [simp]:
  "queue_wf (task_queue_shutdown q) = queue_wf q" "queue_items (task_queue_shutdown q) = queue_items q"
  "tq_shutdown (task_queue_shutdown q)" "tq_capacity (task_queue_shutdown q) = tq_capacity q"
  by (simp_all add: task_queue_shutdown_def queue_wf_def queue_items_def)

lemma queue_capacity:
  "task_queue_push t q = Some (Ok q') \<Longrightarrow> tq_capacity q' = tq_capacity q"
  "task_queue_pop q = Some (r, q') \<Longrightarrow> tq_capacity q' = tq_capacity q"
  by (auto simp: task_queue_push_def task_queue_pop_def split: if_splits)

lemma queue_run_order:
  "queue_run ops q = Some (ins, outs, q') \<Longrightarrow> queue_wf q \<Longrightarrow>
     queue_wf q' \<and> queue_items q @ ins = outs @ queue_items q' \<and> tq_capacity q' = tq_capacity q"
proof (induction ops arbitrary: q ins outs)
  case (Cons op ops)
  show ?case
  proof (cases op)
    case (Push t)
    show ?thesis
    proof (cases "\<exists>r. task_queue_push t q = Some (Ok r)")
      case True
      then obtain r where r: "task_queue_push t q = Some (Ok r)" by blast
      obtain ins' where "queue_run ops r = Some (ins', outs, q')" "ins = t # ins'" using Cons.prems Push r by auto
      then show ?thesis using Cons.IH [of r ins' outs] tq.push_law [OF _ r] Cons.prems(2) queue_capacity(1) [OF r] by auto
    next
      case False
      then have "queue_run ops q = Some (ins, outs, q')" using Cons.prems Push by (auto split: option.splits outcome.splits)
      then show ?thesis using Cons by blast
    qed
  next
    case Pop
    then obtain h r where p: "task_queue_pop q = Some (h, r)" using Cons.prems by (auto split: option.splits)
    show ?thesis
    proof (cases h)
      case None
      then show ?thesis using Cons.IH [of q ins outs] tq.pop_end [of q r] Cons.prems p Pop by simp
    next
      case (Some t)
      then obtain outs' where "queue_run ops r = Some (ins, outs', q')" "outs = t # outs'" using Cons.prems Pop p by auto
      then show ?thesis using Cons.IH [of r ins outs'] tq.pop_law [of q t r] Cons.prems(2) queue_capacity(2) [OF p] p Some by simp
    qed
  next
    case Shutdown
    then show ?thesis using Cons.IH [of "task_queue_shutdown q" ins outs] Cons.prems by simp
  qed
qed simp

text \<open>C33: the ring buffer of the task queue is a bounded first-in first-out queue.  After any
  sequence of pushes, pops and shutdowns that does not wait, the tasks handed out followed
  by the tasks still queued are the tasks accepted, in order; there are never more queued
  than the capacity; a pop waits exactly if nothing is queued and the queue is not shut
  down, and a push exactly if the queue is full and not shut down.\<close>

theorem task_queue_fifo:
  assumes "queue_run ops (task_queue_init capacity) = Some (accepted, handed_out, q)" "0 < capacity"
  shows "accepted = handed_out @ queue_items q \<and> length (queue_items q) \<le> capacity \<and>
         (task_queue_pop q = None \<longleftrightarrow> queue_items q = [] \<and> \<not> tq_shutdown q) \<and>
         (task_queue_push t q = None \<longleftrightarrow> length (queue_items q) = capacity \<and> \<not> tq_shutdown q)"
proof -
  have i: "queue_wf (task_queue_init capacity)" "queue_items (task_queue_init capacity) = []"
      "tq_capacity (task_queue_init capacity) = capacity"
    using assms(2) by (simp_all add: task_queue_init_def queue_wf_def queue_items_def)
  note r = queue_run_order [OF assms(1) i(1)]
  then have "tq_count q \<le> capacity" using i(3) by (auto simp: queue_wf_def)
  then show ?thesis using r i tq.pop_blocks [of q] by (auto simp: task_queue_push_def)
qed

theorem task_queue_fifo_witness:
  "\<exists>q. queue_run [Push (zero_task\<lparr>mt_size := 1\<rparr>), Push (zero_task\<lparr>mt_size := 2\<rparr>), Pop, Push (zero_task\<lparr>mt_size := 3\<rparr>)]
       (task_queue_init 2) =
       Some ([zero_task\<lparr>mt_size := 1\<rparr>, zero_task\<lparr>mt_size := 2\<rparr>, zero_task\<lparr>mt_size := 3\<rparr>], [zero_task\<lparr>mt_size := 1\<rparr>], q) \<and>
     queue_items q = [zero_task\<lparr>mt_size := 2\<rparr>, zero_task\<lparr>mt_size := 3\<rparr>] \<and> task_queue_push zero_task q = None"
proof -
  obtain q where q: "queue_run [Push (zero_task\<lparr>mt_size := 1\<rparr>), Push (zero_task\<lparr>mt_size := 2\<rparr>), Pop, Push (zero_task\<lparr>mt_size := 3\<rparr>)]
       (task_queue_init 2) =
       Some ([zero_task\<lparr>mt_size := 1\<rparr>, zero_task\<lparr>mt_size := 2\<rparr>, zero_task\<lparr>mt_size := 3\<rparr>], [zero_task\<lparr>mt_size := 1\<rparr>], q)"
    "\<not> tq_shutdown q"
    by (simp add: task_queue_init_def task_queue_push_def task_queue_pop_def)
  have i: "queue_items q = [zero_task\<lparr>mt_size := 2\<rparr>, zero_task\<lparr>mt_size := 3\<rparr>]"
    using task_queue_fifo [OF q(1)] by simp
  then have "tq_count q = 2" using length_queue_items [of q] by simp
  then show ?thesis using task_queue_fifo [OF q(1), of zero_task] q i by auto
qed

section \<open>No task is lost\<close>

fun in_flight :: "worker \<Rightarrow> buckets_migration_task list" where
  "in_flight (W_Popped t) = [t]"
| "in_flight (W_Active t) = [t]"
| "in_flight _ = []"

fun counted :: "worker \<Rightarrow> bool" where
  "counted (W_Active t) = True"
| "counted W_Finished = True"
| "counted _ = False"

definition tasks_in_flight :: "pool_system \<Rightarrow> buckets_migration_task list" where
  "tasks_in_flight s = concat (map in_flight (ps_workers s))"

text \<open>Every accepted task is in the queue, with a worker, or carried out, and the counters tell
  how many were carried out with which result.\<close>

definition pool_balanced :: "pool_system \<Rightarrow> bool" where
  "pool_balanced s \<longleftrightarrow>
     mset (ps_submitted s) =
       mset (queue_items (wp_queue (ps_pool s))) + mset (tasks_in_flight s) + mset (map fst (ps_executed s)) \<and>
     wp_active_workers (ps_pool s) = int (length (filter counted (ps_workers s))) \<and>
     wp_tasks_completed (ps_pool s) = int (length (filter snd (ps_executed s))) \<and>
     wp_tasks_failed (ps_pool s) = int (length (filter (\<lambda>e. \<not> snd e) (ps_executed s))) \<and>
     wp_bytes_migrated (ps_pool s) = sum_list (map (mt_size \<circ> fst) (filter snd (ps_executed s)))"

definition pool_closed :: "pool_system \<Rightarrow> bool" where
  "pool_closed s \<longleftrightarrow>
     queue_wf (wp_queue (ps_pool s)) \<and>
     (W_Exited \<in> set (ps_workers s) \<longrightarrow> tq_shutdown (wp_queue (ps_pool s)) \<and> queue_items (wp_queue (ps_pool s)) = [])"

lemma execute_migration_effect:
  "execute_migration pool task = Ok pool' \<Longrightarrow>
     pool' = pool\<lparr>wp_tasks_completed := wp_tasks_completed pool + 1, wp_bytes_migrated := wp_bytes_migrated pool + mt_size task\<rparr>"
  by (auto simp: execute_migration_def split: outcome.splits)

lemma retry_loop_effect:
  "retry_loop attempts delay pool task = Ok (ok, pool', task', slept) \<Longrightarrow>
     pool' = (if ok then pool\<lparr>wp_tasks_completed := wp_tasks_completed pool + 1,
                              wp_bytes_migrated := wp_bytes_migrated pool + mt_size task\<rparr>
              else pool)"
proof (induction attempts delay pool task arbitrary: slept rule: retry_loop.induct)
  case (1 attempts delay pool task)
  show ?case
  proof (cases "attempts < MAX_RETRY_ATTEMPTS")
    case False
    then show ?thesis using 1(3) by (subst (asm) retry_loop.simps) auto
  next
    case True
    show ?thesis
    proof (cases "execute_migration pool task")
      case (Ok p)
      then show ?thesis using True 1(3) execute_migration_effect [OF Ok] by (subst (asm) retry_loop.simps) auto
    next
      case (Fail e)
      then show ?thesis
        using True 1(3) 1(1) [OF True Fail refl refl _ refl refl] 1(2) [OF True Fail refl refl]
        by (subst (asm) retry_loop.simps) (auto simp: Let_def split: if_splits outcome.splits)
    next
      case Undefined
      then show ?thesis using True 1(3) by (subst (asm) retry_loop.simps) auto
    qed
  qed
qed

lemma execute_with_retry_effect:
  "execute_migration_with_retry pool task = Ok (ok, pool') \<Longrightarrow>
     pool' = (if ok then pool\<lparr>wp_tasks_completed := wp_tasks_completed pool + 1,
                              wp_bytes_migrated := wp_bytes_migrated pool + mt_size task\<rparr>
              else pool\<lparr>wp_tasks_failed := wp_tasks_failed pool + 1\<rparr>)"
  by (auto simp: execute_migration_with_retry_def dest!: retry_loop_effect split: outcome.splits bool.splits)

lemma list_update_split:
  assumes "i < length ws"
  obtains a b where "ws = a @ ws ! i # b" "\<And>w. ws[i := w] = a @ w # b"
  using assms id_take_nth_drop upd_conv_take_nth_drop by metis

lemma worker_step_closed:
  assumes "pool_closed s" "i < length (ps_workers s)" "worker_thread_step (ps_workers s ! i) s = Some (w, s')"
  shows "pool_closed (s'\<lparr>ps_workers := (ps_workers s')[i := w]\<rparr>)"
proof -
  have *: "W_Exited \<in> set (ps_workers s)" if "W_Exited \<in> set ((ps_workers s)[i := w])" "w \<noteq> W_Exited"
    using that set_update_subset_insert [of "ps_workers s" i w] by auto
  show ?thesis
  proof (cases "ps_workers s ! i")
    case W_Idle
    then obtain h q where p: "task_queue_pop (wp_queue (ps_pool s)) = Some (h, q)"
      using assms(3) by (auto split: option.splits)
    show ?thesis
    proof (cases h)
      case None
      then show ?thesis using assms W_Idle p tq.pop_end [OF _ p [unfolded None]] by (auto simp: pool_closed_def)
    next
      case (Some t)
      then show ?thesis using assms W_Idle p * tq.pop_law [OF _ p [unfolded Some]] by (auto simp: pool_closed_def)
    qed
  next
    case (W_Active t)
    then show ?thesis using assms * execute_with_retry_effect [of "ps_pool s" t]
      by (auto simp: pool_closed_def split: outcome.splits prod.splits if_splits)
  qed (use assms * in \<open>auto simp: pool_closed_def\<close>)
qed

lemma worker_step_balanced:
  assumes "pool_balanced s" "pool_closed s" "i < length (ps_workers s)"
    and "worker_thread_step (ps_workers s ! i) s = Some (w, s')"
  shows "pool_balanced (s'\<lparr>ps_workers := (ps_workers s')[i := w]\<rparr>)"
proof -
  obtain a b where ab: "ps_workers s = a @ ps_workers s ! i # b" "\<And>w. (ps_workers s)[i := w] = a @ w # b"
    using list_update_split [OF assms(3)] by blast
  have split: "mset (tasks_in_flight s) = mset (in_flight (ps_workers s ! i)) + mset (concat (map in_flight (a @ b)))"
      "length (filter counted (ps_workers s)) = (if counted (ps_workers s ! i) then 1 else 0) + length (filter counted (a @ b))"
    by (subst ab(1), simp add: tasks_in_flight_def)+
  show ?thesis
  proof (cases "ps_workers s ! i")
    case W_Idle
    then obtain h q where p: "task_queue_pop (wp_queue (ps_pool s)) = Some (h, q)"
      using assms(4) by (auto split: option.splits)
    show ?thesis
    proof (cases h)
      case None
      then have "s' = s" "w = W_Exited" using assms(4) W_Idle p by auto
      then show ?thesis using assms(1) W_Idle split by (simp add: pool_balanced_def tasks_in_flight_def ab(2))
    next
      case (Some t)
      then show ?thesis using assms W_Idle p split tq.pop_mset [OF _ p [unfolded Some]]
        by (auto simp: pool_balanced_def pool_closed_def tasks_in_flight_def ab(2))
    qed
  next
    case (W_Active t)
    then obtain ok pool where "execute_migration_with_retry (ps_pool s) t = Ok (ok, pool)"
      using assms(4) by (auto split: outcome.splits)
    then show ?thesis using assms(1,4) W_Active split execute_with_retry_effect [of "ps_pool s" t ok pool]
      by (auto simp: pool_balanced_def tasks_in_flight_def ab(2))
  qed (use assms split in \<open>auto simp: pool_balanced_def tasks_in_flight_def ab(2)\<close>)
qed

lemma submit_one_cases:
  "worker_pool_submit_one task s = Some (r, s') \<Longrightarrow> s' = s \<or>
     (\<exists>q. task_queue_push task (wp_queue (ps_pool s)) = Some (Ok q) \<and>
          s' = s\<lparr>ps_pool := (ps_pool s)\<lparr>wp_queue := q\<rparr>, ps_submitted := ps_submitted s @ [task]\<rparr>)"
  by (auto simp: worker_pool_submit_one_def Let_def split: if_splits option.splits outcome.splits)

lemma pool_step_inv:
  assumes "pool_step s s'" "pool_balanced s" "pool_closed s"
  shows "pool_balanced s' \<and> pool_closed s'"
  using assms(1)
proof (cases rule: pool_step.cases)
  case (start now spawned r)
  then show ?thesis using assms(2,3)
    by (auto simp: buckets_worker_pool_start_def pool_balanced_def pool_closed_def tasks_in_flight_def Let_def split: if_splits)
next
  case (submit task r)
  then consider "s' = s" | q where "task_queue_push task (wp_queue (ps_pool s)) = Some (Ok q)"
      "s' = s\<lparr>ps_pool := (ps_pool s)\<lparr>wp_queue := q\<rparr>, ps_submitted := ps_submitted s @ [task]\<rparr>"
    using submit_one_cases by blast
  then show ?thesis
  proof cases
    case (2 q)
    then show ?thesis using assms(2,3) tq.push_law [OF _ 2(1)]
      by (auto simp: pool_balanced_def pool_closed_def tasks_in_flight_def)
  qed (use assms in auto)
next
  case (work i w u)
  then show ?thesis using worker_step_closed worker_step_balanced assms(2,3) by metis
next
  case stop
  then show ?thesis using assms(2,3) by (auto simp: pool_balanced_def pool_closed_def tasks_in_flight_def)
next
  case join
  then show ?thesis using assms(2,3) by (auto simp: pool_balanced_def pool_closed_def tasks_in_flight_def)
qed

lemma pool_reach_inv:
  "pool_reach s s' \<Longrightarrow> pool_balanced s \<Longrightarrow> pool_closed s \<Longrightarrow> pool_balanced s' \<and> pool_closed s'"
  by (induction rule: rtranclp_induct) (use pool_step_inv in blast)+

lemma pool_created_inv:
  "buckets_worker_pool_create now n old new paths disks = Some pool \<Longrightarrow>
     pool_balanced (pool_initial pool) \<and> pool_closed (pool_initial pool)"
  by (auto simp: buckets_worker_pool_create_def pool_initial_def pool_balanced_def pool_closed_def tasks_in_flight_def
      queue_wf_def queue_items_def task_queue_init_def split: option.splits if_splits)

text \<open>Whether a task succeeds depends on its two sets alone: each must exist and have disks.\<close>

definition set_usable :: "buckets_cluster_topology \<Rightarrow> int \<Rightarrow> int \<Rightarrow> bool" where
  "set_usable topology p s \<longleftrightarrow> (case topology_set topology p s of None \<Rightarrow> False | Some st \<Rightarrow> st_disks st \<noteq> [])"

definition task_feasible :: "buckets_cluster_topology \<Rightarrow> buckets_cluster_topology \<Rightarrow> buckets_migration_task \<Rightarrow> bool" where
  "task_feasible old new task \<longleftrightarrow>
     set_usable old (mt_old_pool_idx task) (mt_old_set_idx task) \<and>
     set_usable new (mt_new_pool_idx task) (mt_new_set_idx task)"

lemma task_feasible_retry [simp]: "task_feasible old new (task\<lparr>mt_retry_count := n\<rparr>) = task_feasible old new task"
  by (simp add: task_feasible_def)

abbreviation feasible_for :: "buckets_worker_pool \<Rightarrow> buckets_migration_task \<Rightarrow> bool" where
  "feasible_for pool task \<equiv> task_feasible (wp_old_topology pool) (wp_new_topology pool) task"

lemma execute_migration_feasible:
  "execute_migration pool task = Ok pool' \<Longrightarrow> feasible_for pool task"
  "execute_migration pool task = Fail e \<Longrightarrow> \<not> feasible_for pool task"
  by (auto simp: execute_migration_def read_source_object_def write_destination_object_def task_feasible_def set_usable_def
      split: outcome.splits option.splits if_splits)

lemma retry_loop_success:
  "retry_loop attempts delay pool task = Ok (True, pool', task', slept) \<Longrightarrow> feasible_for pool task"
proof (induction attempts delay pool task arbitrary: slept rule: retry_loop.induct)
  case (1 attempts delay pool task)
  show ?case
  proof (cases "attempts < MAX_RETRY_ATTEMPTS")
    case True
    show ?thesis
    proof (cases "execute_migration pool task")
      case (Fail e)
      then show ?thesis
        using True 1(3) 1(1) [OF True Fail refl refl _ refl refl] 1(2) [OF True Fail refl refl]
        by (subst (asm) retry_loop.simps) (auto simp: Let_def split: if_splits outcome.splits)
    next
      case (Ok p)
      then show ?thesis by (rule execute_migration_feasible(1))
    next
      case Undefined
      then show ?thesis using True 1(3) by (subst (asm) retry_loop.simps) auto
    qed
  next
    case False
    then show ?thesis using 1(3) by (subst (asm) retry_loop.simps) auto
  qed
qed

lemma execute_with_retry_outcome:
  assumes "execute_migration_with_retry pool task = Ok (ok, pool')"
  shows "ok \<longleftrightarrow> feasible_for pool task"
proof -
  obtain p t d where l: "retry_loop 0 INITIAL_RETRY_DELAY_MS pool task = Ok (ok, p, t, d)"
    using assms by (auto simp: execute_migration_with_retry_def split: outcome.splits bool.splits)
  show ?thesis
  proof (cases ok)
    case True
    then show ?thesis using l retry_loop_success [of 0 INITIAL_RETRY_DELAY_MS pool task p t d] by simp
  next
    case False
    then obtain e where "execute_migration pool task = Fail e"
      using l by (subst (asm) retry_loop.simps) (auto simp: MAX_RETRY_ATTEMPTS_def split: outcome.splits)
    then show ?thesis using False execute_migration_feasible(2) by blast
  qed
qed

definition pool_outcomes :: "buckets_worker_pool \<Rightarrow> pool_system \<Rightarrow> bool" where
  "pool_outcomes pool s \<longleftrightarrow>
     wp_old_topology (ps_pool s) = wp_old_topology pool \<and> wp_new_topology (ps_pool s) = wp_new_topology pool \<and>
     list_all (\<lambda>(t, ok). ok \<longleftrightarrow> feasible_for pool t) (ps_executed s)"

lemma pool_step_outcomes:
  assumes "pool_step s s'" "pool_outcomes pool s"
  shows "pool_outcomes pool s'"
  using assms(1)
proof (cases rule: pool_step.cases)
  case (start now spawned r)
  then show ?thesis using assms(2) by (auto simp: buckets_worker_pool_start_def pool_outcomes_def Let_def split: if_splits)
next
  case (submit task r)
  then show ?thesis using assms(2) submit_one_cases [OF submit] by (auto simp: pool_outcomes_def)
next
  case (work i w u)
  then show ?thesis
  proof (cases "ps_workers s ! i")
    case (W_Active t)
    then obtain ok p where e: "execute_migration_with_retry (ps_pool s) t = Ok (ok, p)"
      using work by (auto split: outcome.splits)
    then show ?thesis using work W_Active assms(2) execute_with_retry_effect [OF e] execute_with_retry_outcome [OF e]
      by (auto simp: pool_outcomes_def)
  qed (use assms(2) in \<open>auto simp: pool_outcomes_def split: option.splits\<close>)
qed (use assms(2) in \<open>auto simp: pool_outcomes_def\<close>)

lemma pool_reach_outcomes: "pool_reach (pool_initial pool) s \<Longrightarrow> pool_outcomes pool s"
  by (induction rule: rtranclp_induct) (simp add: pool_outcomes_def pool_initial_def, rule pool_step_outcomes)

text \<open>C34: the pool loses no task and does none twice.  In every state that the threads, the
  submitting thread and the stopping thread can reach together, the accepted tasks are, with
  multiplicity, those in the queue, those held by a worker and those carried out; the
  counters are exactly the number of active workers, the number of tasks carried out with
  success, the number of those that failed, and the bytes of the former; a task was carried
  out with success if and only if its source set in the old topology and its destination set
  in the new one exist and have disks; and once a worker has left its loop and no other
  holds a task, every accepted task has been carried out once.\<close>

theorem worker_pool_conservation:
  assumes "buckets_worker_pool_create now n old new paths disks = Some pool" "pool_reach (pool_initial pool) s"
  shows "mset (ps_submitted s) =
           mset (queue_items (wp_queue (ps_pool s))) + mset (tasks_in_flight s) + mset (map fst (ps_executed s)) \<and>
         wp_active_workers (ps_pool s) = int (length (filter counted (ps_workers s))) \<and>
         wp_tasks_completed (ps_pool s) = int (length (filter snd (ps_executed s))) \<and>
         wp_tasks_failed (ps_pool s) = int (length (filter (\<lambda>e. \<not> snd e) (ps_executed s))) \<and>
         wp_bytes_migrated (ps_pool s) = sum_list (map (mt_size \<circ> fst) (filter snd (ps_executed s))) \<and>
         list_all (\<lambda>(t, ok). ok \<longleftrightarrow> task_feasible (wp_old_topology pool) (wp_new_topology pool) t) (ps_executed s) \<and>
         (W_Exited \<in> set (ps_workers s) \<and> tasks_in_flight s = [] \<longrightarrow>
            mset (map fst (ps_executed s)) = mset (ps_submitted s))"
proof -
  have "pool_balanced s \<and> pool_closed s" using pool_reach_inv [OF assms(2)] pool_created_inv [OF assms(1)] by blast
  then show ?thesis
    using pool_reach_outcomes [OF assms(2)] by (auto simp: pool_balanced_def pool_closed_def pool_outcomes_def)
qed

text \<open>A pool that was started, one that was then given one task, and one whose first worker has
  just taken it.\<close>

definition pool_started :: "int \<Rightarrow> buckets_worker_pool \<Rightarrow> pool_system" where
  "pool_started now pool = (pool_initial pool)\<lparr>ps_workers := replicate (wp_num_workers pool) W_Idle,
     ps_pool := pool\<lparr>wp_running := True, wp_start_time := now\<rparr>\<rparr>"

definition queue_of_one :: "buckets_migration_task \<Rightarrow> task_queue \<Rightarrow> task_queue" where
  "queue_of_one task q = q\<lparr>tq_tasks := (tq_tasks q)[0 := task], tq_tail := 1, tq_count := 1\<rparr>"

definition pool_offered :: "int \<Rightarrow> buckets_migration_task \<Rightarrow> buckets_worker_pool \<Rightarrow> pool_system" where
  "pool_offered now task pool = (pool_started now pool)\<lparr>
     ps_pool := (ps_pool (pool_started now pool))\<lparr>wp_queue := queue_of_one task (wp_queue pool)\<rparr>, ps_submitted := [task]\<rparr>"

definition pool_taken :: "int \<Rightarrow> buckets_migration_task \<Rightarrow> buckets_worker_pool \<Rightarrow> pool_system" where
  "pool_taken now task pool =
     \<lparr>ps_pool = pool\<lparr>wp_running := True, wp_start_time := now,
        wp_queue := (wp_queue pool)\<lparr>tq_tasks := (tq_tasks (wp_queue pool))[0 := task], tq_tail := 1, tq_head := 1, tq_count := 0\<rparr>\<rparr>,
      ps_workers = W_Popped task # replicate (wp_num_workers pool - 1) W_Idle,
      ps_submitted = [task], ps_executed = []\<rparr>"

lemma pool_offered_reached:
  assumes "buckets_worker_pool_create now n old new paths disks = Some pool"
  shows "pool_reach (pool_initial pool) (pool_started now pool)" "pool_step (pool_started now pool) (pool_offered now task pool)"
    "tq_count (wp_queue (ps_pool (pool_started now pool))) = 0" "wp_active_workers (ps_pool (pool_offered now task pool)) = 0"
proof -
  have p: "wp_queue pool = task_queue_init 10000" "\<not> wp_running pool" "wp_active_workers pool = 0"
    using assms by (auto simp: buckets_worker_pool_create_def split: option.splits if_splits)
  have "buckets_worker_pool_start now (wp_num_workers pool) (pool_initial pool) = (BUCKETS_OK, pool_started now pool)"
    using p(2) by (simp add: buckets_worker_pool_start_def pool_initial_def pool_started_def)
  then have "pool_step (pool_initial pool) (pool_started now pool)" by (rule pool_step.start)
  then show "pool_reach (pool_initial pool) (pool_started now pool)" by simp
  have "task_queue_push task (wp_queue pool) = Some (Ok (queue_of_one task (wp_queue pool)))"
    using p(1) by (simp add: task_queue_push_def task_queue_init_def queue_of_one_def)
  then have "worker_pool_submit_one task (pool_started now pool) = Some (BUCKETS_OK, pool_offered now task pool)"
    by (simp add: worker_pool_submit_one_def pool_started_def pool_offered_def pool_initial_def)
  then show "pool_step (pool_started now pool) (pool_offered now task pool)" by (rule pool_step.submit)
  show "tq_count (wp_queue (ps_pool (pool_started now pool))) = 0" "wp_active_workers (ps_pool (pool_offered now task pool)) = 0"
    using p by (simp_all add: pool_started_def pool_offered_def task_queue_init_def)
qed

lemma pool_taken_reached:
  assumes "buckets_worker_pool_create now n old new paths disks = Some pool"
  shows "pool_reach (pool_initial pool) (pool_taken now task pool)"
    "tq_count (wp_queue (ps_pool (pool_taken now task pool))) = 0" "wp_active_workers (ps_pool (pool_taken now task pool)) = 0"
    "wp_tasks_completed (ps_pool (pool_taken now task pool)) = 0" "wp_tasks_failed (ps_pool (pool_taken now task pool)) = 0"
proof -
  let ?n = "wp_num_workers pool"
  have p: "0 < ?n" "wp_queue pool = task_queue_init 10000" "\<not> wp_running pool" "wp_active_workers pool = 0"
    "wp_tasks_completed pool = 0" "wp_tasks_failed pool = 0"
    using assms by (auto simp: buckets_worker_pool_create_def DEFAULT_NUM_WORKERS_def split: option.splits if_splits)
  then obtain m where m: "?n = Suc m" using gr0_implies_Suc by blast
  let ?s2 = "pool_offered now task pool" and ?q2 = "queue_of_one task (wp_queue pool)"
  have "task_queue_pop ?q2 = Some (Some task, ?q2\<lparr>tq_head := 1, tq_count := 0\<rparr>)"
    using p(2) by (simp add: task_queue_pop_def task_queue_init_def queue_of_one_def)
  then have "worker_thread_step (ps_workers ?s2 ! 0) ?s2 =
      Some (W_Popped task, ?s2\<lparr>ps_pool := (ps_pool ?s2)\<lparr>wp_queue := ?q2\<lparr>tq_head := 1, tq_count := 0\<rparr>\<rparr>\<rparr>)"
    using m by (simp add: pool_offered_def pool_started_def)
  from pool_step.work [OF _ this] have "pool_step ?s2 (pool_taken now task pool)"
    using m by (simp add: pool_offered_def pool_started_def queue_of_one_def pool_taken_def pool_initial_def)
  then show "pool_reach (pool_initial pool) (pool_taken now task pool)"
    using pool_offered_reached(1) [OF assms] pool_offered_reached(2) [OF assms, of task]
    by (meson rtranclp.rtrancl_into_rtrancl)
  show "tq_count (wp_queue (ps_pool (pool_taken now task pool))) = 0" "wp_active_workers (ps_pool (pool_taken now task pool)) = 0"
    "wp_tasks_completed (ps_pool (pool_taken now task pool)) = 0" "wp_tasks_failed (ps_pool (pool_taken now task pool)) = 0"
    using p by (simp_all add: pool_taken_def)
qed

definition empty_topology :: buckets_cluster_topology where
  "empty_topology = \<lparr>tp_version = 1, tp_generation = 0, tp_deployment_id = [], tp_vnode_factor = 150, tp_pools = []\<rparr>"

definition small_pool :: buckets_worker_pool where
  "small_pool = \<lparr>wp_num_workers = 2, wp_queue = task_queue_init 10000, wp_old_topology = empty_topology,
     wp_new_topology = empty_topology, wp_disk_paths = [''/d1''], wp_disk_count = 1, wp_tasks_completed = 0,
     wp_tasks_failed = 0, wp_bytes_migrated = 0, wp_active_workers = 0, wp_start_time = 0, wp_running = False\<rparr>"

lemma small_pool_created:
  "buckets_worker_pool_create 0 2 (Some empty_topology) (Some empty_topology) (Some [''/d1'']) 1 = Some small_pool"
  by (simp add: buckets_worker_pool_create_def small_pool_def)

lemma pool_taken_carried_out:
  assumes "buckets_worker_pool_create now n old new paths disks = Some pool"
    and "execute_migration_with_retry ((ps_pool (pool_taken now task pool))\<lparr>wp_active_workers := 1\<rparr>) task = Ok (ok, pool')"
  obtains s where "pool_reach (pool_initial pool) s" "ps_submitted s = [task]" "ps_executed s = [(task, ok)]"
    "pool_wait_returns s s" "\<forall>t. W_Popped t \<notin> set (ps_workers s)"
proof -
  let ?s = "pool_taken now task pool"
  let ?s4 = "?s\<lparr>ps_pool := (ps_pool ?s)\<lparr>wp_active_workers := 1\<rparr>, ps_workers := (ps_workers ?s)[0 := W_Active task]\<rparr>"
  let ?s5 = "?s4\<lparr>ps_pool := pool', ps_executed := [(task, ok)], ps_workers := (ps_workers ?s4)[0 := W_Finished]\<rparr>"
  have "wp_active_workers (ps_pool ?s) = 0" using pool_taken_reached(3) [OF assms(1)] .
  then have 4: "pool_step ?s ?s4"
    using pool_step.work [of 0 ?s "W_Active task" "?s\<lparr>ps_pool := (ps_pool ?s)\<lparr>wp_active_workers := 1\<rparr>\<rparr>"]
    by (simp add: pool_taken_def)
  have 5: "pool_step ?s4 ?s5"
    using pool_step.work [of 0 ?s4 W_Finished "?s4\<lparr>ps_pool := pool', ps_executed := [(task, ok)]\<rparr>"] assms(2)
    by (simp add: pool_taken_def)
  let ?s6 = "?s5\<lparr>ps_pool := pool'\<lparr>wp_active_workers := 0\<rparr>, ps_workers := (ps_workers ?s5)[0 := W_Idle]\<rparr>"
  note e = execute_with_retry_effect [OF assms(2)]
  have 6: "pool_step ?s5 ?s6"
    using pool_step.work [of 0 ?s5 W_Idle "?s5\<lparr>ps_pool := pool'\<lparr>wp_active_workers := 0\<rparr>\<rparr>"] e
    by (simp add: pool_taken_def)
  have "pool_reach (pool_initial pool) ?s6"
    using pool_taken_reached(1) [OF assms(1)] 4 5 6 by (meson rtranclp.rtrancl_into_rtrancl)
  then show thesis by (rule that) (use e in \<open>simp_all add: pool_wait_returns_def pool_taken_def\<close>)
qed

definition busy_pool :: buckets_worker_pool where
  "busy_pool = small_pool\<lparr>wp_old_topology := topology_example, wp_new_topology := topology_example\<rparr>"

lemma busy_pool_created:
  "buckets_worker_pool_create 0 2 (Some topology_example) (Some topology_example) (Some [''/d1'']) 1 = Some busy_pool"
  by (simp add: buckets_worker_pool_create_def small_pool_def busy_pool_def)

lemma busy_pool_runs:
  obtains s where "pool_reach (pool_initial busy_pool) s" "ps_submitted s = [zero_task]" "ps_executed s = [(zero_task, True)]"
    "pool_wait_returns s s" "\<forall>t. W_Popped t \<notin> set (ps_workers s)"
proof -
  have "\<exists>p. execute_migration_with_retry ((ps_pool (pool_taken 0 zero_task busy_pool))\<lparr>wp_active_workers := 1\<rparr>) zero_task = Ok (True, p)"
    by (simp add: execute_migration_with_retry_def retry_loop.simps MAX_RETRY_ATTEMPTS_def execute_migration_def
        read_source_object_def write_destination_object_def topology_set_def busy_pool_def small_pool_def pool_taken_def
        zero_task_def in_i64_def)
  then show thesis using pool_taken_carried_out [OF busy_pool_created] that by metis
qed

theorem worker_pool_conservation_witness:
  "\<exists>s. pool_reach (pool_initial busy_pool) s \<and> ps_submitted s = [zero_task] \<and> ps_executed s = [(zero_task, True)] \<and>
     queue_items (wp_queue (ps_pool s)) = [] \<and> tasks_in_flight s = [] \<and>
     wp_tasks_completed (ps_pool s) = 1 \<and> wp_tasks_failed (ps_pool s) = 0 \<and>
     task_feasible (wp_old_topology busy_pool) (wp_new_topology busy_pool) zero_task"
proof -
  obtain s where s: "pool_reach (pool_initial busy_pool) s" "ps_submitted s = [zero_task]" "ps_executed s = [(zero_task, True)]"
    by (rule busy_pool_runs)
  show ?thesis
    using s worker_pool_conservation [OF busy_pool_created s(1)] by (intro exI [of _ s]) simp
qed

text \<open>While nothing new is accepted, an empty queue stays empty.\<close>

lemma pool_step_drained:
  assumes "pool_step s s'" "pool_closed s"
  shows "\<exists>new. ps_submitted s' = ps_submitted s @ new \<and>
     (new = [] \<and> tq_count (wp_queue (ps_pool s)) = 0 \<longrightarrow> tq_count (wp_queue (ps_pool s')) = 0)"
  using assms(1)
proof (cases rule: pool_step.cases)
  case (start now spawned r)
  then show ?thesis by (auto simp: buckets_worker_pool_start_def Let_def split: if_splits)
next
  case (submit task r)
  then show ?thesis using submit_one_cases [OF submit] by auto
next
  case (work i w u)
  then show ?thesis
  proof (cases "ps_workers s ! i")
    case (W_Active t)
    then obtain ok pool where "execute_migration_with_retry (ps_pool s) t = Ok (ok, pool)"
      using work by (auto split: outcome.splits)
    then show ?thesis using work W_Active execute_with_retry_effect [of "ps_pool s" t ok pool] by auto
  qed (auto simp: task_queue_pop_def split: if_splits)
qed (auto simp: task_queue_shutdown_def)

lemma pool_reach_drained:
  "pool_reach s s' \<Longrightarrow> pool_balanced s \<Longrightarrow> pool_closed s \<Longrightarrow>
   \<exists>new. ps_submitted s' = ps_submitted s @ new \<and>
     (new = [] \<and> tq_count (wp_queue (ps_pool s)) = 0 \<longrightarrow> tq_count (wp_queue (ps_pool s')) = 0)"
proof (induction rule: rtranclp_induct)
  case (step y z)
  have "pool_closed y" using pool_reach_inv [OF step(1,4,5)] by simp
  from pool_step_drained [OF step(2) this] step(3) [OF step(4,5)] show ?case by auto
qed simp

text \<open>C35: waiting for the pool can end too early, in two ways.  A worker takes a task from the
  queue and counts itself as active in two separate steps.  Between them the queue is empty
  and no worker is active, so a wait that looks then reports all tasks as completed, although
  the task has not been started.  And the wait reads the length of the queue and the number
  of active workers one after the other: a task that is submitted between the two reads is
  not seen by either.  These are the only ways: whatever the threads do between the reads of
  a wait that returns, if nothing was accepted between them and no worker is between its two
  steps at the second, then every accepted task was carried out.\<close>

theorem worker_pool_wait_race:
  assumes "buckets_worker_pool_create now n old new paths disks = Some pool"
  shows "(\<exists>s. pool_reach (pool_initial pool) s \<and> pool_wait_returns s s \<and> ps_submitted s = [task] \<and>
              wp_tasks_completed (ps_pool s) = 0 \<and> wp_tasks_failed (ps_pool s) = 0) \<and>
         (\<exists>s s'. pool_reach (pool_initial pool) s \<and> pool_wait_returns s s' \<and> (\<forall>t. W_Popped t \<notin> set (ps_workers s')) \<and>
              ps_submitted s = [] \<and> ps_submitted s' = [task] \<and> ps_executed s' = []) \<and>
         (\<forall>s s'. pool_reach (pool_initial pool) s \<and> pool_wait_returns s s' \<and> (\<forall>t. W_Popped t \<notin> set (ps_workers s')) \<and>
              ps_submitted s' = ps_submitted s \<longrightarrow>
              mset (map fst (ps_executed s')) = mset (ps_submitted s'))"
proof (intro conjI allI impI)
  show "\<exists>s. pool_reach (pool_initial pool) s \<and> pool_wait_returns s s \<and> ps_submitted s = [task] \<and>
              wp_tasks_completed (ps_pool s) = 0 \<and> wp_tasks_failed (ps_pool s) = 0"
    using pool_taken_reached [OF assms, of task]
    by (intro exI [of _ "pool_taken now task pool"]) (simp add: pool_wait_returns_def pool_taken_def)
next
  have "pool_wait_returns (pool_started now pool) (pool_offered now task pool)"
    using pool_offered_reached(3) [OF assms] pool_offered_reached(2,4) [OF assms, of task]
    by (simp add: pool_wait_returns_def r_into_rtranclp)
  then show "\<exists>s s'. pool_reach (pool_initial pool) s \<and> pool_wait_returns s s' \<and> (\<forall>t. W_Popped t \<notin> set (ps_workers s')) \<and>
              ps_submitted s = [] \<and> ps_submitted s' = [task] \<and> ps_executed s' = []"
    using pool_offered_reached(1) [OF assms]
    by (intro exI [of _ "pool_started now pool"] exI [of _ "pool_offered now task pool"])
      (simp add: pool_started_def pool_offered_def pool_initial_def)
next
  fix s s' assume a: "pool_reach (pool_initial pool) s \<and> pool_wait_returns s s' \<and> (\<forall>t. W_Popped t \<notin> set (ps_workers s')) \<and>
    ps_submitted s' = ps_submitted s"
  then have inv: "pool_balanced s" "pool_closed s" using pool_reach_inv pool_created_inv [OF assms] by blast+
  have r: "pool_reach s s'" "tq_count (wp_queue (ps_pool s)) = 0" "wp_active_workers (ps_pool s') = 0"
    using a by (auto simp: pool_wait_returns_def)
  have b: "pool_balanced s'" using pool_reach_inv [OF r(1) inv] by simp
  have q: "queue_items (wp_queue (ps_pool s')) = []"
    unfolding queue_items_empty_iff using pool_reach_drained [OF r(1) inv] r(2) a by auto
  have "filter counted (ps_workers s') = []" using r(3) b by (simp add: pool_balanced_def)
  then have "in_flight w = []" if "w \<in> set (ps_workers s')" for w
    using that a by (cases w) (auto simp: filter_empty_conv)
  then have "tasks_in_flight s' = []" by (simp add: tasks_in_flight_def)
  then show "mset (map fst (ps_executed s')) = mset (ps_submitted s')"
    using b q by (simp add: pool_balanced_def)
qed

theorem worker_pool_wait_race_witness:
  "(\<exists>s. pool_reach (pool_initial busy_pool) s \<and> pool_wait_returns s s \<and> ps_submitted s = [zero_task] \<and>
      wp_tasks_completed (ps_pool s) = 0 \<and> wp_tasks_failed (ps_pool s) = 0) \<and>
   (\<exists>s s'. pool_reach (pool_initial busy_pool) s \<and> pool_wait_returns s s' \<and> ps_submitted s = [] \<and>
      ps_submitted s' = [zero_task] \<and> ps_executed s' = []) \<and>
   (\<exists>s. pool_reach (pool_initial busy_pool) s \<and> pool_wait_returns s s \<and> ps_submitted s = [zero_task] \<and>
      mset (map fst (ps_executed s)) = {#zero_task#})"
proof -
  note r = worker_pool_wait_race [OF busy_pool_created, of zero_task]
  obtain s where s: "pool_reach (pool_initial busy_pool) s" "ps_submitted s = [zero_task]"
    "pool_wait_returns s s" "\<forall>t. W_Popped t \<notin> set (ps_workers s)"
    by (rule busy_pool_runs)
  have "mset (map fst (ps_executed s)) = mset (ps_submitted s)"
    using r [THEN conjunct2, THEN conjunct2, rule_format, of s s] s by blast
  then have "\<exists>s. pool_reach (pool_initial busy_pool) s \<and> pool_wait_returns s s \<and> ps_submitted s = [zero_task] \<and>
      mset (map fst (ps_executed s)) = {#zero_task#}"
    using s by (intro exI [of _ s]) simp
  then show ?thesis using r [THEN conjunct1] r [THEN conjunct2, THEN conjunct1] by blast
qed

section \<open>Stopping the pool\<close>

lemma pool_step_fixed:
  assumes "pool_step s s'"
  shows "wp_num_workers (ps_pool s') = wp_num_workers (ps_pool s) \<and>
     (tq_shutdown (wp_queue (ps_pool s)) \<longrightarrow> tq_shutdown (wp_queue (ps_pool s')) \<and> ps_submitted s' = ps_submitted s)"
  using assms
proof (cases rule: pool_step.cases)
  case (start now spawned r)
  then show ?thesis by (auto simp: buckets_worker_pool_start_def Let_def split: if_splits)
next
  case (submit task r)
  then consider "s' = s" | q where "task_queue_push task (wp_queue (ps_pool s)) = Some (Ok q)"
      "s' = s\<lparr>ps_pool := (ps_pool s)\<lparr>wp_queue := q\<rparr>, ps_submitted := ps_submitted s @ [task]\<rparr>"
    using submit_one_cases by blast
  then show ?thesis by cases (auto simp: task_queue_push_def split: if_splits)
next
  case (work i w u)
  then show ?thesis
  proof (cases "ps_workers s ! i")
    case (W_Active t)
    then obtain ok pool where "execute_migration_with_retry (ps_pool s) t = Ok (ok, pool)"
      using work by (auto split: outcome.splits)
    then show ?thesis using work W_Active execute_with_retry_effect [of "ps_pool s" t ok pool] by auto
  qed (auto simp: task_queue_pop_def split: if_splits)
qed (auto simp: task_queue_shutdown_def)

lemma pool_reach_fixed:
  "pool_reach s s' \<Longrightarrow> wp_num_workers (ps_pool s') = wp_num_workers (ps_pool s) \<and>
     (tq_shutdown (wp_queue (ps_pool s)) \<longrightarrow> tq_shutdown (wp_queue (ps_pool s')) \<and> ps_submitted s' = ps_submitted s)"
proof (induction rule: rtranclp_induct)
  case (step y z)
  then show ?case using pool_step_fixed [OF step(2)] by auto
qed simp

lemma pool_stop_reach:
  assumes "buckets_worker_pool_stop s r s'"
  shows "pool_reach s s'"
  using assms
proof (cases rule: buckets_worker_pool_stop.cases)
  case (joined u)
  let ?s1 = "s\<lparr>ps_pool := (ps_pool s)\<lparr>wp_queue := task_queue_shutdown (wp_queue (ps_pool s))\<rparr>\<rparr>"
  have "pool_step s ?s1" by (rule pool_step.stop [OF joined(3)])
  moreover have "pool_reach u s'"
  proof (cases "wp_running (ps_pool u)")
    case True
    have "tq_shutdown (wp_queue (ps_pool u))" using pool_reach_fixed [OF joined(4)] by simp
    then show ?thesis using pool_step.join [OF True _ joined(5)] joined(2) by auto
  next
    case False
    then have "s' = u" using joined(2) by simp
    then show ?thesis by simp
  qed
  ultimately show ?thesis using joined(4) by (meson converse_rtranclp_into_rtranclp rtranclp_trans)
qed simp

lemma pool_submit_reach:
  "buckets_worker_pool_submit tasks s r s' \<Longrightarrow> pool_reach s s'"
proof (induction rule: buckets_worker_pool_submit.induct)
  case (accepted s u task v tasks r s')
  then show ?case using pool_step.submit [OF accepted(2)] by (meson converse_rtranclp_into_rtranclp rtranclp_trans)
next
  case (refused s u task r s' tasks)
  then show ?case using pool_step.submit [OF refused(2)] by (meson rtranclp.rtrancl_into_rtrancl)
qed

text \<open>C38: stopping the pool finishes its work and is final.  When the stop returns - with no
  threads left over from a failed start - every task that was ever accepted has been carried
  out: a stop, and with it the pause of a job, waits for the whole queue.  And the queue stays
  shut down: whatever happens later, a restart included, no task is accepted again.\<close>

theorem worker_pool_stop_final:
  assumes "buckets_worker_pool_create now n old new paths disks = Some pool" "pool_reach (pool_initial pool) s"
    and "buckets_worker_pool_stop s BUCKETS_OK s'" "length (ps_workers s') = wp_num_workers (ps_pool s')"
  shows "\<not> wp_running (ps_pool s') \<and> mset (map fst (ps_executed s')) = mset (ps_submitted s') \<and>
         wp_tasks_completed (ps_pool s') + wp_tasks_failed (ps_pool s') = int (length (ps_submitted s')) \<and>
         (\<forall>u task r v. pool_reach s' u \<and> worker_pool_submit_one task u = Some (r, v) \<longrightarrow> r = BUCKETS_ERR_INVALID_ARG \<and> v = u)"
proof -
  have reach: "pool_reach (pool_initial pool) s'" using assms(2) pool_stop_reach [OF assms(3)] by simp
  have inv: "pool_balanced s'" "pool_closed s'"
    using pool_reach_inv [OF reach] pool_created_inv [OF assms(1)] by auto
  from assms(3) obtain u where
    u: "pool_reach (s\<lparr>ps_pool := (ps_pool s)\<lparr>wp_queue := task_queue_shutdown (wp_queue (ps_pool s))\<rparr>\<rparr>) u"
      "s' = u\<lparr>ps_pool := (ps_pool u)\<lparr>wp_running := False\<rparr>\<rparr>"
      "list_all (\<lambda>w. w = W_Exited) (drop (length (ps_workers u) - wp_num_workers (ps_pool u)) (ps_workers u))"
    by (cases rule: buckets_worker_pool_stop.cases) auto
  have down: "tq_shutdown (wp_queue (ps_pool s'))" using pool_reach_fixed [OF u(1)] u(2) by simp
  have exited: "list_all (\<lambda>w. w = W_Exited) (ps_workers s')" using u assms(4) by simp
  have "0 < wp_num_workers pool"
    using assms(1) by (auto simp: buckets_worker_pool_create_def DEFAULT_NUM_WORKERS_def split: option.splits if_splits)
  then have "W_Exited \<in> set (ps_workers s')"
    using exited assms(4) pool_reach_fixed [OF reach] by (cases "ps_workers s'") (auto simp: pool_initial_def)
  then have q: "queue_items (wp_queue (ps_pool s')) = []" using inv(2) by (simp add: pool_closed_def)
  have "tasks_in_flight s' = []" using exited by (auto simp: tasks_in_flight_def list_all_iff)
  then have bal: "mset (map fst (ps_executed s')) = mset (ps_submitted s')" using inv(1) q by (simp add: pool_balanced_def)
  then have "length (ps_executed s') = length (ps_submitted s')" by (metis length_map size_mset)
  then have cnt: "wp_tasks_completed (ps_pool s') + wp_tasks_failed (ps_pool s') = int (length (ps_submitted s'))"
    using inv(1) sum_length_filter_compl [of snd "ps_executed s'"] by (simp add: pool_balanced_def)
  have "r = BUCKETS_ERR_INVALID_ARG \<and> v = w"
    if "pool_reach s' w" "worker_pool_submit_one task w = Some (r, v)" for w task r v
    using that(2) pool_reach_fixed [OF that(1)] down
    by (auto simp: worker_pool_submit_one_def task_queue_push_def Let_def split: if_splits)
  then show ?thesis using bal cnt u(2) by auto
qed

lemma idle_worker_exits:
  assumes "i < length (ps_workers s)" "ps_workers s ! i = W_Idle"
    and "task_queue_pop (wp_queue (ps_pool s)) = Some (None, wp_queue (ps_pool s))"
  shows "pool_step s (s\<lparr>ps_workers := (ps_workers s)[i := W_Exited]\<rparr>)"
  using pool_step.work [OF assms(1), of W_Exited s] assms(2,3) by simp

theorem worker_pool_stop_final_witness:
  "\<exists>s s'. pool_reach (pool_initial small_pool) s \<and> buckets_worker_pool_stop s BUCKETS_OK s' \<and>
     \<not> wp_running (ps_pool s') \<and> mset (map fst (ps_executed s')) = mset (ps_submitted s')"
proof -
  define s where "s = (pool_initial small_pool)\<lparr>ps_pool := small_pool\<lparr>wp_running := True\<rparr>, ps_workers := [W_Idle, W_Idle]\<rparr>"
  let ?down = "\<lambda>s ws. s\<lparr>ps_pool := (ps_pool s)\<lparr>wp_queue := task_queue_shutdown (wp_queue (ps_pool s))\<rparr>, ps_workers := ws\<rparr>"
  have "buckets_worker_pool_start 0 2 (pool_initial small_pool) = (BUCKETS_OK, s)"
    by (simp add: buckets_worker_pool_start_def pool_initial_def small_pool_def s_def numeral_2_eq_2)
  then have 1: "pool_reach (pool_initial small_pool) s" by (intro r_into_rtranclp pool_step.start)
  have pop: "task_queue_pop (wp_queue (ps_pool (?down s ws))) = Some (None, wp_queue (ps_pool (?down s ws)))" for ws
    by (simp add: s_def small_pool_def task_queue_init_def task_queue_shutdown_def task_queue_pop_def)
  have "pool_step (?down s [W_Idle, W_Idle]) (?down s [W_Exited, W_Idle])"
    using idle_worker_exits [of 0 "?down s [W_Idle, W_Idle]"] pop by simp
  moreover have "pool_step (?down s [W_Exited, W_Idle]) (?down s [W_Exited, W_Exited])"
    using idle_worker_exits [of 1 "?down s [W_Exited, W_Idle]"] pop by simp
  ultimately have 2: "pool_reach (?down s [W_Idle, W_Idle]) (?down s [W_Exited, W_Exited])"
    by (meson converse_rtranclp_into_rtranclp rtranclp.rtrancl_refl)
  have "ps_workers s = [W_Idle, W_Idle]" by (simp add: s_def)
  then have eq: "s\<lparr>ps_pool := (ps_pool s)\<lparr>wp_queue := task_queue_shutdown (wp_queue (ps_pool s))\<rparr>\<rparr> = ?down s [W_Idle, W_Idle]" by simp
  let ?s' = "(?down s [W_Exited, W_Exited])\<lparr>ps_pool := (ps_pool (?down s [W_Exited, W_Exited]))\<lparr>wp_running := False\<rparr>\<rparr>"
  have 3: "buckets_worker_pool_stop s BUCKETS_OK ?s'"
  proof (rule buckets_worker_pool_stop.joined)
    show "wp_running (ps_pool s)" by (simp add: s_def)
    show "pool_reach (s\<lparr>ps_pool := (ps_pool s)\<lparr>wp_queue := task_queue_shutdown (wp_queue (ps_pool s))\<rparr>\<rparr>)
        (?down s [W_Exited, W_Exited])"
      by (subst eq) (rule 2)
    show "list_all (\<lambda>w. w = W_Exited) (drop (length (ps_workers (?down s [W_Exited, W_Exited])) -
        wp_num_workers (ps_pool (?down s [W_Exited, W_Exited]))) (ps_workers (?down s [W_Exited, W_Exited])))"
      by (simp add: s_def small_pool_def)
  qed
  have "length (ps_workers ?s') = wp_num_workers (ps_pool ?s')" by (simp add: s_def small_pool_def)
  from worker_pool_stop_final [OF small_pool_created 1 3 this] show ?thesis using 1 3 by blast
qed

end
