(* ===== verification/Migration_Scanner.thy ===== *)
theory Migration_Scanner
  imports Hash_Ring Migration_Worker
begin

text \<open>
  The scanner of the migration, \<^verbatim>\<open>src/src/migration/scanner.c\<close>: one thread per disk walks
  the directories, computes where each object belongs under the old and under the new
  topology with a hash ring of sets, and makes a task of each object for which the two
  differ.  The threads share nothing but the counters they add to at their end, so they are
  run one after the other here.  A disk is given as the tree of its directory entries in
  the order in which they are read; paths are taken to be shorter than the buffers of 4096
  bytes.  The merged tasks are sorted with the C library's \<^verbatim>\<open>qsort\<close>, for which the model
  uses a stable sort.
\<close>

section \<open>Rings of sets\<close>

definition ENCODE_NODE_ID :: "int \<Rightarrow> int \<Rightarrow> int" where
  "ENCODE_NODE_ID p s = p * 1000 + s"

definition DECODE_POOL :: "int \<Rightarrow> int" where
  "DECODE_POOL node_id = node_id div 1000"

definition DECODE_SET :: "int \<Rightarrow> int" where
  "DECODE_SET node_id = node_id mod 1000"

text \<open>The pairs of pool and set index in the order of the two loops.\<close>

definition topology_sets :: "buckets_cluster_topology \<Rightarrow> (nat \<times> nat) list" where
  "topology_sets topology =
     concat (map (\<lambda>p. map (Pair p) [0..<length (pl_sets (tp_pools topology ! p))]) [0..<length (tp_pools topology)])"

fun ring_add_sets :: "(nat \<times> nat) list \<Rightarrow> buckets_ring \<Rightarrow> buckets_ring option" where
  "ring_add_sets [] ring = Some ring"
| "ring_add_sets ((p, s) # ps) ring =
    (let node_id = ENCODE_NODE_ID (int p) (int s);
         node_name = snprintf_s 64 (''pool'' @ dec_nat p @ ''-set'' @ dec_nat s)
     in case buckets_ring_add_node ring node_id (Some node_name) of
          (BUCKETS_OK, ring') \<Rightarrow> ring_add_sets ps ring'
        | _ \<Rightarrow> None)"

definition topology_to_ring :: "buckets_cluster_topology \<Rightarrow> buckets_ring option" where
  "topology_to_ring topology =
    (case buckets_ring_create 150 0 of
       None \<Rightarrow> None
     | Some ring \<Rightarrow> ring_add_sets (topology_sets topology) ring)"

section \<open>Scanning a disk\<close>

record disk_scanner_ctx =
  dc_old_ring :: buckets_ring
  dc_new_ring :: buckets_ring
  dc_tasks :: "buckets_migration_task list"
  dc_objects_scanned :: int
  dc_objects_affected :: int
  dc_bytes_affected :: int

definition needs_migration :: "disk_scanner_ctx \<Rightarrow> string \<Rightarrow> string \<Rightarrow> (int \<times> int \<times> int \<times> int) option" where
  "needs_migration ctx bucket object =
    (let object_key = snprintf_s 2048 (bucket @ ''/'' @ object);
         old_node_id = buckets_ring_lookup (dc_old_ring ctx) (Some object_key) in
     if old_node_id < 0 then None
     else let new_node_id = buckets_ring_lookup (dc_new_ring ctx) (Some object_key) in
       if new_node_id < 0 then None
       else if old_node_id \<noteq> new_node_id
       then Some (DECODE_POOL old_node_id, DECODE_SET old_node_id, DECODE_POOL new_node_id, DECODE_SET new_node_id)
       else None)"

definition add_migration_task ::
  "string \<Rightarrow> string \<Rightarrow> string option \<Rightarrow> int \<Rightarrow> int \<Rightarrow> int \<times> int \<times> int \<times> int \<Rightarrow> disk_scanner_ctx \<Rightarrow> disk_scanner_ctx" where
  "add_migration_task bucket object version_id sz mod_time loc ctx =
    (case loc of (old_pool, old_set, new_pool, new_set) \<Rightarrow>
       ctx\<lparr>dc_tasks := dc_tasks ctx @
             [\<lparr>mt_bucket = snprintf_s 256 bucket, mt_object = snprintf_s 1024 object,
               mt_version_id = snprintf_s 64 (case version_id of Some v \<Rightarrow> v | None \<Rightarrow> []),
               mt_old_pool_idx = old_pool, mt_old_set_idx = old_set,
               mt_new_pool_idx = new_pool, mt_new_set_idx = new_set,
               mt_size = sz, mt_mod_time = mod_time, mt_retry_count = 0, mt_last_attempt = 0\<rparr>],
           dc_objects_affected := dc_objects_affected ctx + 1,
           dc_bytes_affected := dc_bytes_affected ctx + sz\<rparr>)"

text \<open>A directory entry: a directory that can or cannot be opened, another file with its size and
  time, or an entry for which \<^verbatim>\<open>stat\<close> fails.\<close>

datatype disk_entry =
  Directory string "disk_entry list"
  | Closed_Directory string
  | Regular string int int
  | Vanished string

definition skipped_name :: "string \<Rightarrow> bool" where
  "skipped_name name \<longleftrightarrow> name = ''.'' \<or> name = ''..'' \<or> name = ''.buckets.sys''"

definition scan_object :: "string \<Rightarrow> string \<Rightarrow> int \<Rightarrow> int \<Rightarrow> disk_scanner_ctx \<Rightarrow> disk_scanner_ctx" where
  "scan_object bucket object sz mtime ctx =
    (let ctx = ctx\<lparr>dc_objects_scanned := dc_objects_scanned ctx + 1\<rparr> in
     case needs_migration ctx bucket object of
       None \<Rightarrow> ctx
     | Some loc \<Rightarrow> add_migration_task bucket object None sz mtime loc ctx)"

fun scan_entry :: "string \<Rightarrow> string \<Rightarrow> disk_entry \<Rightarrow> disk_scanner_ctx \<Rightarrow> disk_scanner_ctx"
  and scan_directory :: "string \<Rightarrow> string \<Rightarrow> disk_entry list \<Rightarrow> disk_scanner_ctx \<Rightarrow> disk_scanner_ctx" where
  "scan_entry bucket prefix (Directory name es) ctx =
    (if skipped_name name then ctx
     else scan_directory bucket (snprintf_s 2048 (if prefix = [] then name else prefix @ ''/'' @ name)) es ctx)"
| "scan_entry bucket prefix (Regular name sz mtime) ctx =
    (if skipped_name name then ctx
     else if name = ''xl.meta'' then scan_object bucket prefix sz mtime ctx
     else ctx)"
| "scan_entry bucket prefix (Closed_Directory name) ctx = ctx"
| "scan_entry bucket prefix (Vanished name) ctx = ctx"
| "scan_directory bucket prefix [] ctx = ctx"
| "scan_directory bucket prefix (e # es) ctx = scan_directory bucket prefix es (scan_entry bucket prefix e ctx)"

text \<open>The buckets of a disk; a disk that cannot be opened is an error that the thread ignores.\<close>

fun scan_buckets :: "disk_entry list \<Rightarrow> disk_scanner_ctx \<Rightarrow> disk_scanner_ctx" where
  "scan_buckets [] ctx = ctx"
| "scan_buckets (Directory name es # bs) ctx =
     scan_buckets bs (if skipped_name name then ctx else scan_directory name [] es ctx)"
| "scan_buckets (_ # bs) ctx = scan_buckets bs ctx"

definition scan_disk_buckets :: "disk_entry list option \<Rightarrow> disk_scanner_ctx \<Rightarrow> disk_scanner_ctx" where
  "scan_disk_buckets disk ctx = (case disk of None \<Rightarrow> ctx | Some es \<Rightarrow> scan_buckets es ctx)"

section \<open>The scanner\<close>

record buckets_scanner_state =
  sn_disk_paths :: "string list"
  sn_old_topology :: buckets_cluster_topology
  sn_new_topology :: buckets_cluster_topology
  sn_objects_scanned :: int
  sn_objects_affected :: int
  sn_bytes_affected :: int
  sn_scan_complete :: bool

definition buckets_scanner_init ::
  "string list option \<Rightarrow> int \<Rightarrow> buckets_cluster_topology option \<Rightarrow> buckets_cluster_topology option
     \<Rightarrow> buckets_scanner_state option" where
  "buckets_scanner_init disk_paths disk_count old_topology new_topology =
    (case (disk_paths, old_topology, new_topology) of
       (Some paths, Some old, Some new) \<Rightarrow>
         if disk_count \<le> 0 then None
         else Some \<lparr>sn_disk_paths = take (nat disk_count) paths, sn_old_topology = old, sn_new_topology = new,
                    sn_objects_scanned = 0, sn_objects_affected = 0, sn_bytes_affected = 0, sn_scan_complete = False\<rparr>
     | _ \<Rightarrow> None)"

definition disk_scanner_thread ::
  "disk_entry list option \<Rightarrow> buckets_ring \<Rightarrow> buckets_ring \<Rightarrow> buckets_scanner_state
     \<Rightarrow> buckets_migration_task list \<times> buckets_scanner_state" where
  "disk_scanner_thread disk old_ring new_ring scanner =
    (let ctx = scan_disk_buckets disk
                 \<lparr>dc_old_ring = old_ring, dc_new_ring = new_ring, dc_tasks = [], dc_objects_scanned = 0,
                  dc_objects_affected = 0, dc_bytes_affected = 0\<rparr>
     in (dc_tasks ctx,
         scanner\<lparr>sn_objects_scanned := sn_objects_scanned scanner + dc_objects_scanned ctx,
                 sn_objects_affected := sn_objects_affected scanner + dc_objects_affected ctx,
                 sn_bytes_affected := sn_bytes_affected scanner + dc_bytes_affected ctx\<rparr>))"

fun scan_disks ::
  "(string \<Rightarrow> disk_entry list option) \<Rightarrow> buckets_ring \<Rightarrow> buckets_ring \<Rightarrow> string list \<Rightarrow> buckets_scanner_state
     \<Rightarrow> buckets_migration_task list \<times> buckets_scanner_state" where
  "scan_disks disks old_ring new_ring [] scanner = ([], scanner)"
| "scan_disks disks old_ring new_ring (path # paths) scanner =
    (let (tasks, scanner) = disk_scanner_thread (disks path) old_ring new_ring scanner;
         (more, scanner) = scan_disks disks old_ring new_ring paths scanner
     in (tasks @ more, scanner))"

definition buckets_scanner_scan ::
  "(string \<Rightarrow> disk_entry list option) \<Rightarrow> buckets_scanner_state
     \<Rightarrow> (buckets_migration_task list \<times> buckets_scanner_state) outcome" where
  "buckets_scanner_scan disks scanner =
    (case (topology_to_ring (sn_old_topology scanner), topology_to_ring (sn_new_topology scanner)) of
       (Some old_ring, Some new_ring) \<Rightarrow>
         let (merged, scanner) = scan_disks disks old_ring new_ring (sn_disk_paths scanner) scanner
         in Ok (sort_key mt_size merged, scanner\<lparr>sn_scan_complete := True\<rparr>)
     | _ \<Rightarrow> Fail BUCKETS_ERR_NOMEM)"

section \<open>What a scan finds\<close>

text \<open>The objects of a disk: every metadata file, with the path of its directory below the bucket
  as the object name.\<close>

type_synonym found_object = "string \<times> string \<times> int \<times> int"

fun entry_objects :: "string \<Rightarrow> string \<Rightarrow> disk_entry \<Rightarrow> found_object list"
  and dir_objects :: "string \<Rightarrow> string \<Rightarrow> disk_entry list \<Rightarrow> found_object list" where
  "entry_objects bucket prefix (Directory name es) =
    (if skipped_name name then []
     else dir_objects bucket (snprintf_s 2048 (if prefix = [] then name else prefix @ ''/'' @ name)) es)"
| "entry_objects bucket prefix (Regular name sz mtime) =
    (if \<not> skipped_name name \<and> name = ''xl.meta'' then [(bucket, prefix, sz, mtime)] else [])"
| "entry_objects bucket prefix (Closed_Directory name) = []"
| "entry_objects bucket prefix (Vanished name) = []"
| "dir_objects bucket prefix [] = []"
| "dir_objects bucket prefix (e # es) = entry_objects bucket prefix e @ dir_objects bucket prefix es"

fun bucket_objects :: "disk_entry \<Rightarrow> found_object list" where
  "bucket_objects (Directory name es) = (if skipped_name name then [] else dir_objects name [] es)"
| "bucket_objects _ = []"

definition disk_objects :: "disk_entry list option \<Rightarrow> found_object list" where
  "disk_objects disk = (case disk of None \<Rightarrow> [] | Some es \<Rightarrow> concat (map bucket_objects es))"

text \<open>The task for an object, if the two rings place it on different sets.\<close>

definition object_task :: "buckets_ring \<Rightarrow> buckets_ring \<Rightarrow> found_object \<Rightarrow> buckets_migration_task option" where
  "object_task old_ring new_ring obj =
    (case obj of (bucket, object, sz, mtime) \<Rightarrow>
       let key = snprintf_s 2048 (bucket @ ''/'' @ object);
           i = buckets_ring_lookup old_ring (Some key);
           j = buckets_ring_lookup new_ring (Some key)
       in if i < 0 \<or> j < 0 \<or> i = j then None
          else Some \<lparr>mt_bucket = snprintf_s 256 bucket, mt_object = snprintf_s 1024 object, mt_version_id = [],
                     mt_old_pool_idx = DECODE_POOL i, mt_old_set_idx = DECODE_SET i,
                     mt_new_pool_idx = DECODE_POOL j, mt_new_set_idx = DECODE_SET j,
                     mt_size = sz, mt_mod_time = mtime, mt_retry_count = 0, mt_last_attempt = 0\<rparr>)"

definition scan_found :: "found_object \<Rightarrow> disk_scanner_ctx \<Rightarrow> disk_scanner_ctx" where
  "scan_found obj = (case obj of (bucket, object, sz, mtime) \<Rightarrow> scan_object bucket object sz mtime)"

abbreviation found_tasks :: "buckets_ring \<Rightarrow> buckets_ring \<Rightarrow> found_object list \<Rightarrow> buckets_migration_task list" where
  "found_tasks old_ring new_ring objs \<equiv> List.map_filter (object_task old_ring new_ring) objs"

lemma scan_as_fold:
  "scan_entry bucket prefix e ctx = fold scan_found (entry_objects bucket prefix e) ctx"
  "scan_directory bucket prefix es ctx = fold scan_found (dir_objects bucket prefix es) ctx"
  by (induction bucket prefix e ctx and bucket prefix es ctx rule: scan_entry_scan_directory.induct)
    (auto simp: scan_found_def)

lemma scan_buckets_fold: "scan_buckets es ctx = fold scan_found (concat (map bucket_objects es)) ctx"
  by (induction es ctx rule: scan_buckets.induct) (auto simp: scan_as_fold)

lemma scan_disk_fold: "scan_disk_buckets disk ctx = fold scan_found (disk_objects disk) ctx"
  by (simp add: scan_disk_buckets_def disk_objects_def scan_buckets_fold split: option.split)

lemma scan_found_rings [simp]:
  "dc_old_ring (scan_found obj ctx) = dc_old_ring ctx" "dc_new_ring (scan_found obj ctx) = dc_new_ring ctx"
  by (auto simp: scan_found_def scan_object_def add_migration_task_def Let_def split: prod.split option.split)

lemma scan_found_effect:
  "dc_tasks (scan_found obj ctx) = dc_tasks ctx @ found_tasks (dc_old_ring ctx) (dc_new_ring ctx) [obj]"
  "dc_objects_scanned (scan_found obj ctx) = dc_objects_scanned ctx + 1"
  "dc_objects_affected (scan_found obj ctx) =
     dc_objects_affected ctx + int (length (found_tasks (dc_old_ring ctx) (dc_new_ring ctx) [obj]))"
  "dc_bytes_affected (scan_found obj ctx) =
     dc_bytes_affected ctx + sum_list (map mt_size (found_tasks (dc_old_ring ctx) (dc_new_ring ctx) [obj]))"
  by (auto simp: scan_found_def scan_object_def needs_migration_def add_migration_task_def object_task_def
      List.map_filter_simps Let_def split: prod.split)

lemma map_filter_Cons: "List.map_filter f (x # xs) = List.map_filter f [x] @ List.map_filter f xs"
  by (simp add: List.map_filter_simps split: option.split)

lemma fold_scan_found:
  "dc_tasks (fold scan_found objs ctx) = dc_tasks ctx @ found_tasks (dc_old_ring ctx) (dc_new_ring ctx) objs \<and>
   dc_objects_scanned (fold scan_found objs ctx) = dc_objects_scanned ctx + int (length objs) \<and>
   dc_objects_affected (fold scan_found objs ctx) =
     dc_objects_affected ctx + int (length (found_tasks (dc_old_ring ctx) (dc_new_ring ctx) objs)) \<and>
   dc_bytes_affected (fold scan_found objs ctx) =
     dc_bytes_affected ctx + sum_list (map mt_size (found_tasks (dc_old_ring ctx) (dc_new_ring ctx) objs))"
proof (induction objs arbitrary: ctx)
  case Nil
  then show ?case by (simp add: List.map_filter_simps)
next
  case (Cons obj objs)
  show ?case
    unfolding fold_simps(2) map_filter_Cons [of _ obj objs] using Cons [of "scan_found obj ctx"]
    by (simp add: scan_found_effect)
qed

lemma scan_disks_effect:
  "scan_disks disks old_ring new_ring paths scanner =
    (let objs = concat (map (disk_objects \<circ> disks) paths); tasks = found_tasks old_ring new_ring objs
     in (tasks,
         scanner\<lparr>sn_objects_scanned := sn_objects_scanned scanner + int (length objs),
                 sn_objects_affected := sn_objects_affected scanner + int (length tasks),
                 sn_bytes_affected := sn_bytes_affected scanner + sum_list (map mt_size tasks)\<rparr>))"
proof (induction paths arbitrary: scanner)
  case (Cons path paths)
  have app: "List.map_filter f (xs @ ys) = List.map_filter f xs @ List.map_filter f ys" for f xs ys
    by (simp add: List.map_filter_def)
  show ?case using fold_scan_found by (simp add: Cons Let_def disk_scanner_thread_def scan_disk_fold app)
qed (simp add: List.map_filter_simps)

text \<open>C10: a scan finds exactly what has to move.  The tasks are, with multiplicity, those of the
  metadata files on all disks whose object the rings of the old and the new topology place
  on different sets - one for each disk that has a copy - in order of size; and the counters
  grow by the objects seen, the tasks and their bytes.\<close>

theorem scanner_finds_moved_objects:
  assumes "buckets_scanner_scan disks scanner = Ok (tasks, scanner')"
    and "topology_to_ring (sn_old_topology scanner) = Some old_ring"
    and "topology_to_ring (sn_new_topology scanner) = Some new_ring"
  shows "mset tasks = mset (found_tasks old_ring new_ring (concat (map (disk_objects \<circ> disks) (sn_disk_paths scanner)))) \<and>
         sorted (map mt_size tasks) \<and>
         sn_objects_scanned scanner' =
           sn_objects_scanned scanner + int (length (concat (map (disk_objects \<circ> disks) (sn_disk_paths scanner)))) \<and>
         sn_objects_affected scanner' = sn_objects_affected scanner + int (length tasks) \<and>
         sn_bytes_affected scanner' = sn_bytes_affected scanner + sum_list (map mt_size tasks)"
proof -
  let ?objs = "concat (map (disk_objects \<circ> disks) (sn_disk_paths scanner))"
  have t: "tasks = sort_key mt_size (found_tasks old_ring new_ring ?objs)"
    using assms by (auto simp: buckets_scanner_scan_def scan_disks_effect Let_def)
  have "sum_list (map mt_size tasks) = sum_list (map mt_size (found_tasks old_ring new_ring ?objs))"
    by (subst (1 2) sum_mset_sum_list [symmetric]) (simp add: t)
  then show ?thesis
    using assms t by (auto simp: buckets_scanner_scan_def scan_disks_effect Let_def)
qed

section \<open>The rings\<close>

lemma ring_add_ids:
  assumes "ring_wf r" "buckets_ring_add_node r i name = (BUCKETS_OK, r')"
  shows "ring_wf r'" "ring_ids r' = insert i (ring_ids r)"
proof -
  show "ring_wf r'" using ring_add_wf [OF assms(1), of i name] assms(2) by simp
  obtain n where "rg_vnodes r' = sort_key vn_hash (rg_vnodes r @ ring_new_vnodes r i n)"
    using ring_add_ok [OF assms(2)] by metis
  moreover have "0 < rg_vnodes_per_node r" using assms(1) by (simp add: ring_wf_def)
  ultimately show "ring_ids r' = insert i (ring_ids r)" using ring_new_vnodes_ids [of r i n]
    by (simp only: set_sort set_append image_Un) simp
qed

abbreviation set_node_id :: "nat \<times> nat \<Rightarrow> int" where
  "set_node_id ps \<equiv> ENCODE_NODE_ID (int (fst ps)) (int (snd ps))"

lemma ring_add_sets_Cons:
  assumes "ring_add_sets (ps # sets) r = Some r'"
  obtains u name where "buckets_ring_add_node r (set_node_id ps) (Some name) = (BUCKETS_OK, u)" "ring_add_sets sets u = Some r'"
proof -
  obtain p s where ps: "ps = (p, s)" by (cases ps)
  let ?name = "snprintf_s 64 (''pool'' @ dec_nat p @ ''-set'' @ dec_nat s)"
  obtain e u where "buckets_ring_add_node r (set_node_id ps) (Some ?name) = (e, u)" by fastforce
  moreover from this have "e = BUCKETS_OK" "ring_add_sets sets u = Some r'"
    using assms by (cases e; simp add: ps Let_def)+
  ultimately show thesis using that by blast
qed

lemma ring_add_sets_ids:
  "ring_add_sets sets r = Some r' \<Longrightarrow> ring_wf r \<Longrightarrow> ring_wf r' \<and> ring_ids r' = ring_ids r \<union> set_node_id ` set sets"
proof (induction sets arbitrary: r)
  case (Cons ps sets)
  from Cons.prems(1) obtain u name where
    u: "buckets_ring_add_node r (set_node_id ps) (Some name) = (BUCKETS_OK, u)" "ring_add_sets sets u = Some r'"
    by (rule ring_add_sets_Cons)
  show ?case using ring_add_ids [OF Cons.prems(2) u(1)] Cons.IH [OF u(2)] by auto
qed simp

lemma ring_add_sets_append:
  "ring_add_sets (xs @ ys) r = (case ring_add_sets xs r of None \<Rightarrow> None | Some u \<Rightarrow> ring_add_sets ys u)"
proof (induction xs arbitrary: r)
  case (Cons ps xs)
  obtain p s e u where "ps = (p, s)"
    "buckets_ring_add_node r (set_node_id ps) (Some (snprintf_s 64 (''pool'' @ dec_nat p @ ''-set'' @ dec_nat s))) = (e, u)"
    by (cases ps) (meson surj_pair)
  then show ?case using Cons [of u] by (cases e) (simp_all add: Let_def)
qed simp

text \<open>Sets added to a ring take objects from the others, and nothing else moves.\<close>

lemma ring_add_sets_moves:
  "ring_add_sets sets r = Some r' \<Longrightarrow> ring_wf r \<Longrightarrow> rg_vnodes r \<noteq> [] \<Longrightarrow>
     buckets_ring_lookup r' (Some key) \<in> insert (buckets_ring_lookup r (Some key)) (set_node_id ` set sets)"
proof (induction sets arbitrary: r)
  case (Cons ps sets)
  from Cons.prems(1) obtain u name where
    u: "buckets_ring_add_node r (set_node_id ps) (Some name) = (BUCKETS_OK, u)" "ring_add_sets sets u = Some r'"
    by (rule ring_add_sets_Cons)
  note m = ring_add_moves [OF Cons.prems(2,3) u(1)]
  show ?case using Cons.IH [OF u(2) ring_add_ids(1) [OF Cons.prems(2) u(1)] m(2)] m(1) [of key] by auto
qed simp

lemma ring_created: "\<exists>r. buckets_ring_create 150 0 = Some r \<and> ring_wf r \<and> rg_vnodes r = []"
  using ring_create_wf [of 150 0] by (auto simp: buckets_ring_create_def)

lemma topology_ring:
  assumes "topology_to_ring t = Some r"
  shows "ring_wf r" "ring_ids r = set_node_id ` set (topology_sets t)"
proof -
  obtain u where "ring_wf u" "rg_vnodes u = []" "ring_add_sets (topology_sets t) u = Some r"
    using assms ring_created by (auto simp: topology_to_ring_def)
  then show "ring_wf r" "ring_ids r = set_node_id ` set (topology_sets t)"
    using ring_add_sets_ids [of "topology_sets t" u r] by simp_all
qed

lemma ring_lookup_id:
  assumes "ring_wf r" "rg_vnodes r \<noteq> []"
  shows "buckets_ring_lookup r (Some key) \<in> ring_ids r"
proof -
  have s: "sorted (map vn_hash (rg_vnodes r))" using assms(1) by (simp add: ring_wf_def)
  show ?thesis using ring_lookup_serves [OF assms, of key] ring.serves_nearest [OF s assms(2)] by (metis imageI)
qed

lemma ring_lookup_in:
  assumes "ring_wf r" "0 \<le> buckets_ring_lookup r (Some key)"
  shows "buckets_ring_lookup r (Some key) \<in> ring_ids r"
  using assms by (intro ring_lookup_id) (auto simp: buckets_ring_lookup_def ring_wf_def split: if_splits)

text \<open>Node ids of sets can be decoded when a pool has at most a thousand sets.\<close>

definition few_sets :: "buckets_cluster_topology \<Rightarrow> bool" where
  "few_sets t \<longleftrightarrow> list_all (\<lambda>pool. length (pl_sets pool) \<le> 1000) (tp_pools t)"

lemma decode_encode:
  "0 \<le> s \<Longrightarrow> s < 1000 \<Longrightarrow> DECODE_POOL (ENCODE_NODE_ID p s) = p" "0 \<le> s \<Longrightarrow> s < 1000 \<Longrightarrow> DECODE_SET (ENCODE_NODE_ID p s) = s"
  by (simp_all add: DECODE_POOL_def DECODE_SET_def ENCODE_NODE_ID_def)

lemma topology_sets_iff:
  "(p, s) \<in> set (topology_sets t) \<longleftrightarrow> p < length (tp_pools t) \<and> s < length (pl_sets (tp_pools t ! p))"
  by (fastforce simp: topology_sets_def)

lemma lookup_decodes:
  assumes "topology_to_ring t = Some r" "few_sets t" "0 \<le> buckets_ring_lookup r (Some key)"
  defines "i \<equiv> buckets_ring_lookup r (Some key)"
  shows "\<exists>st. topology_set t (DECODE_POOL i) (DECODE_SET i) = Some st"
proof -
  obtain p s where ps: "(p, s) \<in> set (topology_sets t)" "i = ENCODE_NODE_ID (int p) (int s)"
    using ring_lookup_in [OF topology_ring(1) [OF assms(1)] assms(3)] topology_ring(2) [OF assms(1)]
    by (auto simp: i_def)
  then have "s < 1000"
    using assms(2) by (fastforce simp: topology_sets_iff few_sets_def list_all_length)
  then show ?thesis using ps by (auto simp: decode_encode topology_set_def topology_sets_iff Let_def)
qed

text \<open>Building a ring only fails for two sets with the same node id.\<close>

lemma ring_add_sets_total:
  "distinct (map set_node_id sets) \<Longrightarrow> set_node_id ` set sets \<inter> ring_ids r = {} \<Longrightarrow> ring_wf r \<Longrightarrow>
     \<exists>r'. ring_add_sets sets r = Some r'"
proof (induction sets arbitrary: r)
  case (Cons ps sets)
  obtain p s where ps: "ps = (p, s)" by (cases ps)
  let ?name = "snprintf_s 64 (''pool'' @ dec_nat p @ ''-set'' @ dec_nat s)"
  have "set_node_id ps \<notin> ring_ids r" using Cons.prems(2) by auto
  then have "\<not> list_ex (\<lambda>v. vn_node_id v = set_node_id ps) (rg_vnodes r)" unfolding list_ex_iff by (metis imageI)
  then obtain u where u: "buckets_ring_add_node r (set_node_id ps) (Some ?name) = (BUCKETS_OK, u)"
    by (simp add: buckets_ring_add_node_def Let_def)
  have "\<exists>r'. ring_add_sets sets u = Some r'"
    using Cons.prems ring_add_ids [OF Cons.prems(3) u] by (intro Cons.IH) auto
  then show ?case using u by (simp add: ps Let_def)
qed simp

lemma topology_ring_total:
  assumes "distinct (map set_node_id (topology_sets t))"
  obtains r where "topology_to_ring t = Some r"
  using ring_add_sets_total [OF assms] ring_created by (fastforce simp: topology_to_ring_def)

lemma topology_lookup_in:
  assumes "topology_to_ring t = Some r" "topology_sets t \<noteq> []"
  shows "buckets_ring_lookup r (Some key) \<in> set_node_id ` set (topology_sets t)"
proof -
  have "rg_vnodes r \<noteq> []" using topology_ring(2) [OF assms(1)] assms(2) by auto
  then show ?thesis using ring_lookup_id [OF topology_ring(1) [OF assms(1)]] topology_ring(2) [OF assms(1)] by simp
qed

lemma scan_task_source:
  assumes "buckets_scanner_scan disks scanner = Ok (tasks, scanner')" "task \<in> set tasks"
  obtains old_ring new_ring obj where
    "topology_to_ring (sn_old_topology scanner) = Some old_ring" "topology_to_ring (sn_new_topology scanner) = Some new_ring"
    "object_task old_ring new_ring obj = Some task"
  using assms
  by (auto simp: buckets_scanner_scan_def scan_disks_effect Let_def List.map_filter_def split: option.splits)

section \<open>Changes of the topology\<close>

lemma topology_sets_state:
  assumes "buckets_topology_set_state old p s state = (BUCKETS_OK, new)"
  shows "topology_sets new = topology_sets old"
proof -
  have "map (length \<circ> pl_sets) (tp_pools new) = map (length \<circ> pl_sets) (tp_pools old)"
    using assms by (auto simp: buckets_topology_set_state_def Let_def list_eq_iff_nth_eq nth_list_update split: if_splits)
  then have "length (tp_pools new) = length (tp_pools old)"
    "\<And>i. i < length (tp_pools old) \<Longrightarrow> length (pl_sets (tp_pools new ! i)) = length (pl_sets (tp_pools old ! i))"
    by (auto dest: map_eq_imp_length_eq simp: list_eq_iff_nth_eq)
  then show ?thesis unfolding topology_sets_def by (intro arg_cong [of _ _ concat]) simp
qed

lemma topology_sets_add:
  assumes "buckets_topology_add_set old p (Some ds) = (BUCKETS_OK, new)" "p = int (length (tp_pools old)) - 1"
  shows "topology_sets new = topology_sets old @ [(nat p, length (pl_sets (tp_pools old ! nat p)))]"
proof -
  obtain n where n: "length (tp_pools old) = Suc n" "nat p = n"
    using assms by (cases "length (tp_pools old)") (auto simp: buckets_topology_add_set_def split: if_splits)
  have new: "length (tp_pools new) = Suc n" "\<And>i. i < n \<Longrightarrow> tp_pools new ! i = tp_pools old ! i"
    "length (pl_sets (tp_pools new ! n)) = Suc (length (pl_sets (tp_pools old ! n)))"
    using assms(1) n by (auto simp: buckets_topology_add_set_def Let_def split: if_splits)
  have eq: "map (\<lambda>p. map (Pair p) [0..<length (pl_sets (tp_pools new ! p))]) [0..<n] =
        map (\<lambda>p. map (Pair p) [0..<length (pl_sets (tp_pools old ! p))]) [0..<n]"
    using new(2) by simp
  show ?thesis unfolding topology_sets_def n new(1) by (simp add: new(3) eq del: map_eq_conv)
qed

lemma topology_to_ring_cong: "topology_sets t = topology_sets t' \<Longrightarrow> topology_to_ring t = topology_to_ring t'"
  by (simp only: topology_to_ring_def)

lemma object_task_same: "object_task r r obj = None"
  by (simp add: object_task_def Let_def split: prod.split)

text \<open>C36: what a change of the topology makes the scanner do.  A change of the state of a set -
  draining it, removing it - gives no task at all, whatever is on the disks: the scanner's
  ring does not look at the state, so a draining set is never emptied.  If a set is added to
  the last pool of a topology with sets, and no pool then has more than a thousand sets, the
  added set receives every object that moves: no object moves between old sets.  The bound is
  that of the encoding of a set as a node number, the pool times a thousand plus the set.\<close>

theorem scanner_topology_change:
  assumes "buckets_scanner_scan disks scanner = Ok (tasks, scanner')"
  shows "(\<forall>p s state. buckets_topology_set_state (sn_old_topology scanner) p s state = (BUCKETS_OK, sn_new_topology scanner) \<longrightarrow>
            tasks = []) \<and>
         (\<forall>p ds. buckets_topology_add_set (sn_old_topology scanner) p (Some ds) = (BUCKETS_OK, sn_new_topology scanner) \<and>
            p = int (length (tp_pools (sn_old_topology scanner))) - 1 \<and> topology_sets (sn_old_topology scanner) \<noteq> [] \<and>
            few_sets (sn_new_topology scanner) \<longrightarrow>
            list_all (\<lambda>t. mt_new_pool_idx t = p \<and>
              mt_new_set_idx t = int (length (pl_sets (tp_pools (sn_old_topology scanner) ! nat p)))) tasks)"
proof (intro conjI allI impI)
  fix p s state
  assume "buckets_topology_set_state (sn_old_topology scanner) p s state = (BUCKETS_OK, sn_new_topology scanner)"
  then have "topology_to_ring (sn_new_topology scanner) = topology_to_ring (sn_old_topology scanner)"
    by (intro topology_to_ring_cong topology_sets_state)
  then have "\<not> task \<in> set tasks" for task
    using scan_task_source [OF assms] object_task_same by (metis option.distinct(1) option.inject)
  then show "tasks = []" by (metis list.set_intros(1) neq_Nil_conv)
next
  fix p ds
  let ?old = "sn_old_topology scanner" and ?new = "sn_new_topology scanner"
  let ?n = "length (pl_sets (tp_pools ?old ! nat p))"
  assume a: "buckets_topology_add_set ?old p (Some ds) = (BUCKETS_OK, ?new) \<and> p = int (length (tp_pools ?old)) - 1 \<and>
    topology_sets ?old \<noteq> [] \<and> few_sets ?new"
  then have app: "topology_sets ?new = topology_sets ?old @ [(nat p, ?n)]" using topology_sets_add by blast
  have p: "0 \<le> p" using a by (auto simp: buckets_topology_add_set_def split: if_splits)
  have "(nat p, ?n) \<in> set (topology_sets ?new)" by (simp add: app)
  then have n: "?n < 1000" using a by (fastforce simp: topology_sets_iff few_sets_def list_all_length)
  have "mt_new_pool_idx t = p \<and> mt_new_set_idx t = int ?n" if "t \<in> set tasks" for t
  proof -
    obtain r r' bucket object sz mtime where r: "topology_to_ring ?old = Some r" "topology_to_ring ?new = Some r'"
      "object_task r r' (bucket, object, sz, mtime) = Some t"
      using scan_task_source [OF assms \<open>t \<in> set tasks\<close>] by (metis prod_cases4)
    have ext: "ring_add_sets [(nat p, ?n)] r = Some r'"
      using r(1,2) by (auto simp: topology_to_ring_def app ring_add_sets_append split: option.splits)
    have "ring_ids r \<noteq> {}" using topology_ring(2) [OF r(1)] a by auto
    then have "buckets_ring_lookup r' (Some key) \<in> {buckets_ring_lookup r (Some key), ENCODE_NODE_ID p (int ?n)}" for key
      using ring_add_sets_moves [OF ext topology_ring(1) [OF r(1)], of key] p by auto
    from this [of "snprintf_s 2048 (bucket @ ''/'' @ object)"] show ?thesis
      using r(3) n by (auto simp: object_task_def Let_def decode_encode split: if_splits)
  qed
  then show "list_all (\<lambda>t. mt_new_pool_idx t = p \<and> mt_new_set_idx t = int ?n) tasks" by (simp add: list_all_iff)
qed

text \<open>C37: the workers can carry out what the scanner finds.  With at most a thousand sets in
  each pool, every task names an existing set of the old topology as its source and another
  existing set of the new one as its destination, so a worker with these topologies never
  reads outside their arrays; and if the sets have disks and the counters have room, the
  task succeeds at the first attempt.\<close>

theorem scanned_task_executable:
  assumes "buckets_scanner_scan disks scanner = Ok (tasks, scanner')" "task \<in> set tasks"
    and "few_sets (sn_old_topology scanner)" "few_sets (sn_new_topology scanner)"
    and "wp_old_topology pool = sn_old_topology scanner" "wp_new_topology pool = sn_new_topology scanner"
  shows "read_source_object pool task \<noteq> Undefined \<and> write_destination_object pool task \<noteq> Undefined \<and>
         (topology_set (sn_old_topology scanner) (mt_old_pool_idx task) (mt_old_set_idx task) = Some src \<and>
          topology_set (sn_new_topology scanner) (mt_new_pool_idx task) (mt_new_set_idx task) = Some dst \<and>
          st_disks src \<noteq> [] \<and> st_disks dst \<noteq> [] \<and>
          in_i64 (wp_tasks_completed pool + 1) \<and> in_i64 (wp_bytes_migrated pool + mt_size task) \<longrightarrow>
          execute_migration_with_retry pool task =
            Ok (True, pool\<lparr>wp_tasks_completed := wp_tasks_completed pool + 1,
                           wp_bytes_migrated := wp_bytes_migrated pool + mt_size task\<rparr>))"
proof -
  obtain r r' bucket object sz mtime where
    r: "topology_to_ring (sn_old_topology scanner) = Some r" "topology_to_ring (sn_new_topology scanner) = Some r'"
      "object_task r r' (bucket, object, sz, mtime) = Some task"
    using scan_task_source [OF assms(1,2)] by (metis prod_cases4)
  let ?key = "snprintf_s 2048 (bucket @ ''/'' @ object)"
  have k: "0 \<le> buckets_ring_lookup r (Some ?key)" "0 \<le> buckets_ring_lookup r' (Some ?key)"
    "mt_old_pool_idx task = DECODE_POOL (buckets_ring_lookup r (Some ?key))"
    "mt_old_set_idx task = DECODE_SET (buckets_ring_lookup r (Some ?key))"
    "mt_new_pool_idx task = DECODE_POOL (buckets_ring_lookup r' (Some ?key))"
    "mt_new_set_idx task = DECODE_SET (buckets_ring_lookup r' (Some ?key))"
    using r(3) by (auto simp: object_task_def Let_def split: if_splits)
  have "read_source_object pool task \<noteq> Undefined" "write_destination_object pool task \<noteq> Undefined"
    using lookup_decodes [OF r(1) assms(3) k(1)] lookup_decodes [OF r(2) assms(4) k(2)] assms(5,6)
    by (auto simp: read_source_object_def write_destination_object_def k(3-6) split: if_splits)
  moreover have "execute_migration_with_retry pool task = Ok (True, pool')" if "execute_migration pool task = Ok pool'" for pool'
    using that by (simp add: execute_migration_with_retry_def retry_loop.simps [of 0] MAX_RETRY_ATTEMPTS_def)
  ultimately show ?thesis
    using assms(5,6) by (auto simp: execute_migration_def read_source_object_def write_destination_object_def)
qed

section \<open>An example\<close>

definition small_set :: buckets_set_topology where
  "small_set = \<lparr>st_idx = 0, st_state = SET_STATE_ACTIVE, st_disks = [\<lparr>dk_endpoint = ''d'', dk_uuid = ''u'', dk_capacity = 0\<rparr>]\<rparr>"

definition small_sets :: "buckets_set_topology list list \<Rightarrow> buckets_cluster_topology" where
  "small_sets pools = empty_topology\<lparr>tp_pools := map (\<lambda>sets. \<lparr>pl_idx = 0, pl_sets = sets\<rparr>) pools\<rparr>"

definition small_scanner :: "buckets_cluster_topology \<Rightarrow> buckets_cluster_topology \<Rightarrow> buckets_scanner_state" where
  "small_scanner old new = \<lparr>sn_disk_paths = [''/d1''], sn_old_topology = old, sn_new_topology = new,
     sn_objects_scanned = 0, sn_objects_affected = 0, sn_bytes_affected = 0, sn_scan_complete = False\<rparr>"

definition small_disk :: "string \<Rightarrow> disk_entry list option" where
  "small_disk path = Some [Directory ''.buckets.sys'' [Regular ''xl.meta'' 1 0],
     Directory ''bk'' [Directory ''a'' [Directory ''b'' [Regular ''xl.meta'' 7 5], Regular ''part.1'' 9 9]]]"

lemma small_disk_objects: "disk_objects (small_disk path) = [(''bk'', ''a/b'', 7, 5)]"
  by (simp add: small_disk_def disk_objects_def skipped_name_def)

lemma small_sets_simps:
  "topology_sets (small_sets [[small_set]]) = [(0, 0)]" "topology_sets (small_sets [[], [small_set]]) = [(1, 0)]"
  "tp_pools (small_sets ps) = map (\<lambda>sets. \<lparr>pl_idx = 0, pl_sets = sets\<rparr>) ps"
  by (simp_all add: small_sets_def topology_sets_def)

lemma small_rings:
  obtains r r' where "topology_to_ring (small_sets [[small_set]]) = Some r" "topology_to_ring (small_sets [[], [small_set]]) = Some r'"
    "\<And>key. buckets_ring_lookup r (Some key) = 0" "\<And>key. buckets_ring_lookup r' (Some key) = 1000"
proof -
  obtain r where r: "topology_to_ring (small_sets [[small_set]]) = Some r"
    by (rule topology_ring_total [of "small_sets [[small_set]]"]) (simp add: small_sets_simps)
  obtain r' where r': "topology_to_ring (small_sets [[], [small_set]]) = Some r'"
    by (rule topology_ring_total [of "small_sets [[], [small_set]]"]) (simp add: small_sets_simps)
  show thesis
    using topology_lookup_in [OF r] topology_lookup_in [OF r'] that [OF r r']
    by (simp add: small_sets_simps ENCODE_NODE_ID_def)
qed

definition small_task :: buckets_migration_task where
  "small_task = zero_task\<lparr>mt_bucket := ''bk'', mt_object := ''a/b'', mt_new_pool_idx := 1, mt_size := 7, mt_mod_time := 5\<rparr>"

lemma small_scan:
  obtains r r' s where "topology_to_ring (small_sets [[small_set]]) = Some r"
    "topology_to_ring (small_sets [[], [small_set]]) = Some r'"
    "buckets_scanner_scan small_disk (small_scanner (small_sets [[small_set]]) (small_sets [[], [small_set]])) = Ok ([small_task], s)"
    "sn_objects_scanned s = 1"
proof -
  obtain r r' where r: "topology_to_ring (small_sets [[small_set]]) = Some r" "topology_to_ring (small_sets [[], [small_set]]) = Some r'"
    "\<And>key. buckets_ring_lookup r (Some key) = 0" "\<And>key. buckets_ring_lookup r' (Some key) = 1000"
    by (rule small_rings) blast
  then have "object_task r r' (''bk'', ''a/b'', 7, 5) = Some small_task"
    by (simp add: object_task_def DECODE_POOL_def DECODE_SET_def small_task_def zero_task_def)
  then show thesis
    using that [OF r(1,2)] r(1,2)
    by (simp add: buckets_scanner_scan_def scan_disks_effect small_scanner_def small_disk_objects List.map_filter_simps Let_def)
qed

theorem scanner_finds_moved_objects_witness:
  "\<exists>tasks s. buckets_scanner_scan small_disk (small_scanner (small_sets [[small_set]]) (small_sets [[], [small_set]])) =
       Ok (tasks, s) \<and> sorted (map mt_size tasks) \<and> sn_objects_affected s = int (length tasks) \<and> length tasks = 1"
proof -
  let ?s = "small_scanner (small_sets [[small_set]]) (small_sets [[], [small_set]])"
  obtain r r' s where s: "topology_to_ring (small_sets [[small_set]]) = Some r"
    "topology_to_ring (small_sets [[], [small_set]]) = Some r'" "buckets_scanner_scan small_disk ?s = Ok ([small_task], s)"
    by (rule small_scan)
  show ?thesis
    using scanner_finds_moved_objects [OF s(3), of r r'] s by (auto simp: small_scanner_def)
qed

theorem scanner_topology_change_witness:
  "\<exists>s. buckets_scanner_scan small_disk (small_scanner (small_sets [[small_set]])
        (snd (buckets_topology_mark_set_draining (small_sets [[small_set]]) 0 0))) = Ok ([], s)"
proof -
  let ?old = "small_sets [[small_set]]"
  let ?new = "snd (buckets_topology_mark_set_draining ?old 0 0)"
  have d: "buckets_topology_set_state ?old 0 0 SET_STATE_DRAINING = (BUCKETS_OK, ?new)"
    by (simp add: buckets_topology_mark_set_draining_def buckets_topology_set_state_def small_sets_simps Let_def)
  obtain r where r: "topology_to_ring ?old = Some r" by (rule small_rings)
  moreover have "topology_to_ring ?new = Some r" using r topology_to_ring_cong [OF topology_sets_state [OF d]] by simp
  ultimately obtain tasks s where s: "buckets_scanner_scan small_disk (small_scanner ?old ?new) = Ok (tasks, s)"
    by (simp add: buckets_scanner_scan_def scan_disks_effect small_scanner_def Let_def)
  then show ?thesis using scanner_topology_change [OF s] d by (auto simp: small_scanner_def)
qed

theorem scanned_task_executable_witness:
  "\<exists>pool s. buckets_scanner_scan small_disk (small_scanner (small_sets [[small_set]]) (small_sets [[], [small_set]])) =
       Ok ([small_task], s) \<and> read_source_object pool small_task \<noteq> Undefined \<and>
     execute_migration_with_retry pool small_task =
       Ok (True, pool\<lparr>wp_tasks_completed := 1, wp_bytes_migrated := 7\<rparr>)"
proof -
  let ?old = "small_sets [[small_set]]" and ?new = "small_sets [[], [small_set]]"
  let ?pool = "small_pool\<lparr>wp_old_topology := ?old, wp_new_topology := ?new\<rparr>"
  obtain s where s: "buckets_scanner_scan small_disk (small_scanner ?old ?new) = Ok ([small_task], s)" by (rule small_scan)
  have n: "sn_old_topology (small_scanner ?old ?new) = ?old" "sn_new_topology (small_scanner ?old ?new) = ?new"
    by (simp_all add: small_scanner_def)
  have few: "few_sets (sn_old_topology (small_scanner ?old ?new))" "few_sets (sn_new_topology (small_scanner ?old ?new))"
    unfolding n by (simp_all add: few_sets_def small_sets_simps)
  have src: "topology_set ?old 0 0 = Some small_set" "topology_set ?new 1 0 = Some small_set"
    by (simp_all add: topology_set_def small_sets_simps)
  have t: "small_task \<in> set [small_task]" "mt_old_pool_idx small_task = 0" "mt_old_set_idx small_task = 0"
    "mt_new_pool_idx small_task = 1" "mt_new_set_idx small_task = 0" "mt_size small_task = 7"
    by (simp_all add: small_task_def zero_task_def)
  have p: "wp_old_topology ?pool = sn_old_topology (small_scanner ?old ?new)"
    "wp_new_topology ?pool = sn_new_topology (small_scanner ?old ?new)"
    unfolding n by simp_all
  have q: "wp_tasks_completed ?pool = 0" "wp_bytes_migrated ?pool = 0" "st_disks small_set \<noteq> []"
    by (simp_all add: small_pool_def small_set_def)
  note e = scanned_task_executable [OF s t(1) few p, of small_set small_set]
  have "execute_migration_with_retry ?pool small_task = Ok (True, ?pool\<lparr>wp_tasks_completed := 1, wp_bytes_migrated := 7\<rparr>)"
    using e [THEN conjunct2, THEN conjunct2, THEN mp] src q by (simp add: n t in_i64_def)
  then show ?thesis using e s by blast
qed

end
