(* ===== verification/Migration_Job.thy ===== *)
theory Migration_Job
  imports Migration_Scanner Cluster_Io
begin

text \<open>
  The orchestrator of a migration (\<^verbatim>\<open>src/src/migration/orchestrator.c\<close>): the state machine of a
  job, its public operations, and its checkpoints.  A job is used by several threads at once, so
  an operation is a sequence of sections; a section ends where the code releases the lock of the
  job or waits.  \<open>job_call_step\<close> runs one section of one call, and \<open>job_step\<close> interleaves the calls
  with the worker threads.  A section whose C code is undefined, or that must wait, has no step.
  The time remaining, a floating point estimate nothing else reads, is left out.
\<close>

section \<open>The job\<close>

text \<open>The last constructor stands for the other values a checkpoint can put into the field.\<close>

datatype buckets_migration_state =
  BUCKETS_MIGRATION_STATE_IDLE
  | BUCKETS_MIGRATION_STATE_SCANNING
  | BUCKETS_MIGRATION_STATE_MIGRATING
  | BUCKETS_MIGRATION_STATE_PAUSED
  | BUCKETS_MIGRATION_STATE_COMPLETED
  | BUCKETS_MIGRATION_STATE_FAILED
  | Other_State nat

fun state_code :: "buckets_migration_state \<Rightarrow> int" where
  "state_code BUCKETS_MIGRATION_STATE_IDLE = 0"
| "state_code BUCKETS_MIGRATION_STATE_SCANNING = 1"
| "state_code BUCKETS_MIGRATION_STATE_MIGRATING = 2"
| "state_code BUCKETS_MIGRATION_STATE_PAUSED = 3"
| "state_code BUCKETS_MIGRATION_STATE_COMPLETED = 4"
| "state_code BUCKETS_MIGRATION_STATE_FAILED = 5"
| "state_code (Other_State n) = 6 + int n"

definition state_of_code :: "int \<Rightarrow> buckets_migration_state" where
  "state_of_code n =
    (if n = 0 then BUCKETS_MIGRATION_STATE_IDLE else if n = 1 then BUCKETS_MIGRATION_STATE_SCANNING
     else if n = 2 then BUCKETS_MIGRATION_STATE_MIGRATING else if n = 3 then BUCKETS_MIGRATION_STATE_PAUSED
     else if n = 4 then BUCKETS_MIGRATION_STATE_COMPLETED else if n = 5 then BUCKETS_MIGRATION_STATE_FAILED
     else Other_State (nat (n - 6)))"

record buckets_migration_job =
  mj_job_id :: string
  mj_source_generation :: int
  mj_target_generation :: int
  mj_start_time :: int
  mj_state :: buckets_migration_state
  mj_total_objects :: int
  mj_migrated_objects :: int
  mj_failed_objects :: int
  mj_bytes_total :: int
  mj_bytes_migrated :: int
  mj_old_topology :: "buckets_cluster_topology option"
  mj_new_topology :: "buckets_cluster_topology option"
  mj_disk_paths :: "string list option"
  mj_disk_count :: int
  mj_scanner :: "buckets_scanner_state option"
  mj_worker_pool :: "pool_system option"
  mj_last_checkpoint_time :: int
  mj_last_checkpoint_objects :: int
  mj_checkpoint_path :: string
  mj_callback :: bool

text \<open>What one section sees of the world: the readings of the clock, the outcome of the system
  calls of a file write, how many threads can be created, and the disks.\<close>

record job_env =
  je_clock :: "nat \<Rightarrow> int"
  je_io :: io_env
  je_spawned :: nat
  je_disks :: "string \<Rightarrow> disk_entry list option"

text \<open>The calls of the public operations, by the section they run next.\<close>

datatype job_op = Job_Start | Job_Pause | Job_Resume | Job_Stop | Job_Wait

datatype job_call =
  Start_Scanning
  | Start_Scan
  | Start_Scanned "buckets_migration_task list"
  | Start_Pool "buckets_migration_task list"
  | Start_Submit "buckets_migration_task list"
  | Start_Failed buckets_error
  | Pause_Stop
  | Pause_Join
  | Pause_Transition
  | Resume_Start
  | Resume_Transition
  | Stop_Pool
  | Stop_Join
  | Stop_Transition
  | Wait_Loop
  | Wait_Progress
  | Wait_Save
  | Wait_Pool
  | Wait_Queue
  | Wait_Active
  | Wait_Complete
  | Wait_Final
  | Returned job_op buckets_error

text \<open>The job with its calls, the files, the events its callback was given, with the state of the
  job at that time, and as history what the scan returned.\<close>

record job_system =
  jb_job :: buckets_migration_job
  jb_calls :: "job_call list"
  jb_files :: fs
  jb_events :: "(string \<times> buckets_migration_state) list"
  jb_found :: "buckets_migration_task list option"

definition job_initial :: "buckets_migration_job \<Rightarrow> fs \<Rightarrow> job_system" where
  "job_initial job files = \<lparr>jb_job = job, jb_calls = [], jb_files = files, jb_events = [], jb_found = None\<rparr>"

abbreviation job_state :: "job_system \<Rightarrow> buckets_migration_state" where
  "job_state s \<equiv> mj_state (jb_job s)"

abbreviation job_pool :: "job_system \<Rightarrow> pool_system option" where
  "job_pool s \<equiv> mj_worker_pool (jb_job s)"

abbreviation set_pool :: "pool_system option \<Rightarrow> job_system \<Rightarrow> job_system" where
  "set_pool p s \<equiv> s\<lparr>jb_job := (jb_job s)\<lparr>mj_worker_pool := p\<rparr>\<rparr>"

section \<open>States and checkpoints\<close>

fun is_valid_transition :: "buckets_migration_state \<Rightarrow> buckets_migration_state \<Rightarrow> bool" where
  "is_valid_transition BUCKETS_MIGRATION_STATE_IDLE to =
     (to = BUCKETS_MIGRATION_STATE_SCANNING \<or> to = BUCKETS_MIGRATION_STATE_FAILED)"
| "is_valid_transition BUCKETS_MIGRATION_STATE_SCANNING to =
     (to = BUCKETS_MIGRATION_STATE_MIGRATING \<or> to = BUCKETS_MIGRATION_STATE_COMPLETED \<or>
      to = BUCKETS_MIGRATION_STATE_FAILED)"
| "is_valid_transition BUCKETS_MIGRATION_STATE_MIGRATING to =
     (to = BUCKETS_MIGRATION_STATE_PAUSED \<or> to = BUCKETS_MIGRATION_STATE_COMPLETED \<or>
      to = BUCKETS_MIGRATION_STATE_FAILED)"
| "is_valid_transition BUCKETS_MIGRATION_STATE_PAUSED to =
     (to = BUCKETS_MIGRATION_STATE_MIGRATING \<or> to = BUCKETS_MIGRATION_STATE_FAILED)"
| "is_valid_transition BUCKETS_MIGRATION_STATE_COMPLETED to = False"
| "is_valid_transition BUCKETS_MIGRATION_STATE_FAILED to = False"
| "is_valid_transition (Other_State n) to = False"

definition fire_event :: "string \<Rightarrow> job_system \<Rightarrow> job_system" where
  "fire_event event s =
    (if mj_callback (jb_job s) then s\<lparr>jb_events := jb_events s @ [(event, job_state s)]\<rparr> else s)"

definition transition_state :: "buckets_migration_state \<Rightarrow> job_system \<Rightarrow> buckets_error \<times> job_system" where
  "transition_state new_state s =
    (if \<not> is_valid_transition (job_state s) new_state then (BUCKETS_ERR_INVALID_ARG, s)
     else (BUCKETS_OK, fire_event ''state_change'' (s\<lparr>jb_job := (jb_job s)\<lparr>mj_state := new_state\<rparr>\<rparr>)))"

definition update_progress :: "buckets_migration_job \<Rightarrow> buckets_migration_job" where
  "update_progress job =
    (case mj_worker_pool job of
       None \<Rightarrow> job
     | Some p \<Rightarrow> job\<lparr>mj_migrated_objects := wp_tasks_completed (ps_pool p),
                     mj_failed_objects := wp_tasks_failed (ps_pool p),
                     mj_bytes_migrated := wp_bytes_migrated (ps_pool p)\<rparr>)"

text \<open>\<^verbatim>\<open>buckets_migration_job_save\<close>: the tree and the atomic write of its text.\<close>

definition checkpoint_json :: "int \<Rightarrow> buckets_migration_job \<Rightarrow> json" where
  "checkpoint_json now job = JObj
     [(''job_id'', JStr (mj_job_id job)),
      (''source_generation'', JNum (double_of_int (mj_source_generation job))),
      (''target_generation'', JNum (double_of_int (mj_target_generation job))),
      (''state'', JNum (double_of_int (state_code (mj_state job)))),
      (''checkpoint_time'', JNum (double_of_int now)),
      (''start_time'', JNum (double_of_int (mj_start_time job))),
      (''total_objects'', JNum (double_of_int (mj_total_objects job))),
      (''migrated_objects'', JNum (double_of_int (mj_migrated_objects job))),
      (''failed_objects'', JNum (double_of_int (mj_failed_objects job))),
      (''bytes_total'', JNum (double_of_int (mj_bytes_total job))),
      (''bytes_migrated'', JNum (double_of_int (mj_bytes_migrated job)))]"

definition buckets_migration_job_save ::
  "(json \<Rightarrow> string) \<Rightarrow> int \<Rightarrow> io_env \<Rightarrow> buckets_migration_job \<Rightarrow> fs \<Rightarrow> string option \<Rightarrow> buckets_error \<times> fs" where
  "buckets_migration_job_save print now env job files path =
    (case path of
       None \<Rightarrow> (BUCKETS_ERR_INVALID_ARG, files)
     | Some path \<Rightarrow> atomic_write_result env files path (print (checkpoint_json now job)))"

definition should_checkpoint :: "int \<Rightarrow> buckets_migration_job \<Rightarrow> bool" where
  "should_checkpoint now job \<longleftrightarrow>
     1000 \<le> mj_migrated_objects job - mj_last_checkpoint_objects job \<or> 300 \<le> now - mj_last_checkpoint_time job"

definition save_checkpoint_if_needed :: "(json \<Rightarrow> string) \<Rightarrow> job_env \<Rightarrow> job_system \<Rightarrow> job_system" where
  "save_checkpoint_if_needed print env s =
    (let job = jb_job s in
     if \<not> should_checkpoint (je_clock env 0) job then s
     else let (ret, files) = buckets_migration_job_save print (je_clock env 1) (je_io env) job (jb_files s)
                               (Some (mj_checkpoint_path job))
          in if ret = BUCKETS_OK
             then s\<lparr>jb_files := files,
                    jb_job := job\<lparr>mj_last_checkpoint_time := je_clock env 2,
                                  mj_last_checkpoint_objects := mj_migrated_objects job\<rparr>\<rparr>
             else s\<lparr>jb_files := files\<rparr>)"

section \<open>The operations\<close>

definition buckets_migration_job_create ::
  "int \<Rightarrow> int \<Rightarrow> buckets_cluster_topology option \<Rightarrow> buckets_cluster_topology option \<Rightarrow> string list option \<Rightarrow> int
     \<Rightarrow> buckets_migration_job option" where
  "buckets_migration_job_create source_gen target_gen old_topology new_topology disk_paths disk_count =
    (if old_topology = None \<or> new_topology = None \<or> disk_paths = None \<or> disk_count \<le> 0 then None
     else let job_id = snprintf_s 64 (''migration-gen-'' @ dec_int source_gen @ ''-to-'' @ dec_int target_gen) in
       Some \<lparr>mj_job_id = job_id, mj_source_generation = source_gen, mj_target_generation = target_gen,
             mj_start_time = 0, mj_state = BUCKETS_MIGRATION_STATE_IDLE, mj_total_objects = 0, mj_migrated_objects = 0,
             mj_failed_objects = 0, mj_bytes_total = 0, mj_bytes_migrated = 0, mj_old_topology = old_topology,
             mj_new_topology = new_topology, mj_disk_paths = disk_paths, mj_disk_count = disk_count, mj_scanner = None,
             mj_worker_pool = None, mj_last_checkpoint_time = 0, mj_last_checkpoint_objects = 0,
             mj_checkpoint_path = snprintf_s 256 (''/tmp/'' @ job_id @ ''.checkpoint''), mj_callback = False\<rparr>)"

text \<open>The sum of the sizes, undefined if it overflows.\<close>

definition total_bytes :: "buckets_migration_task list \<Rightarrow> int outcome" where
  "total_bytes tasks =
     foldl (\<lambda>sum task. case sum of Ok bytes \<Rightarrow> i64_result (bytes + mt_size task) | _ \<Rightarrow> Undefined) (Ok 0) tasks"

fun buckets_migration_job_start :: "job_env \<Rightarrow> job_call \<Rightarrow> job_system \<Rightarrow> (job_call \<times> job_system) option" where
  "buckets_migration_job_start env Start_Scanning s =
    (let (ret, s) = transition_state BUCKETS_MIGRATION_STATE_SCANNING s in
     if ret \<noteq> BUCKETS_OK then Some (Returned Job_Start ret, s) else Some (Start_Scan, s))"
| "buckets_migration_job_start env Start_Scan s =
    (let now = je_clock env 0;
         job = (jb_job s)\<lparr>mj_start_time := now, mj_last_checkpoint_time := now, mj_last_checkpoint_objects := 0\<rparr>;
         scanner = buckets_scanner_init (mj_disk_paths job) (mj_disk_count job) (mj_old_topology job) (mj_new_topology job);
         s = s\<lparr>jb_job := job\<lparr>mj_scanner := scanner\<rparr>\<rparr> in
     case scanner of
       None \<Rightarrow> Some (Start_Failed BUCKETS_ERR_NOMEM, s)
     | Some scanner \<Rightarrow>
         (case buckets_scanner_scan (je_disks env) scanner of
            Fail e \<Rightarrow> Some (Start_Failed e, s)
          | Undefined \<Rightarrow> None
          | Ok (tasks, scanner) \<Rightarrow>
              (case total_bytes tasks of
                 Ok bytes \<Rightarrow>
                   Some (Start_Scanned tasks,
                         s\<lparr>jb_job := (jb_job s)\<lparr>mj_scanner := Some scanner, mj_total_objects := int (length tasks),
                                                mj_bytes_total := bytes\<rparr>,
                           jb_found := Some tasks\<rparr>)
               | _ \<Rightarrow> None)))"
| "buckets_migration_job_start env (Start_Scanned tasks) s =
    (if tasks = []
     then let (_, s) = transition_state BUCKETS_MIGRATION_STATE_COMPLETED s in Some (Returned Job_Start BUCKETS_OK, s)
     else let (ret, s) = transition_state BUCKETS_MIGRATION_STATE_MIGRATING s in
       if ret \<noteq> BUCKETS_OK then Some (Returned Job_Start ret, s) else Some (Start_Pool tasks, s))"
| "buckets_migration_job_start env (Start_Pool tasks) s =
    (let job = jb_job s in
     case buckets_worker_pool_create (je_clock env 0) 16 (mj_old_topology job) (mj_new_topology job)
            (mj_disk_paths job) (mj_disk_count job) of
       None \<Rightarrow> Some (Start_Failed BUCKETS_ERR_NOMEM, set_pool None s)
     | Some pool \<Rightarrow>
         let (ret, p) = buckets_worker_pool_start (je_clock env 1) (je_spawned env) (pool_initial pool);
             s = set_pool (Some p) s
         in if ret \<noteq> BUCKETS_OK then Some (Start_Failed ret, s) else Some (Start_Submit tasks, s))"
| "buckets_migration_job_start env (Start_Submit []) s = Some (Returned Job_Start BUCKETS_OK, s)"
| "buckets_migration_job_start env (Start_Submit (task # tasks)) s =
    (case job_pool s of
       None \<Rightarrow> None
     | Some p \<Rightarrow>
         (case worker_pool_submit_one task p of
            None \<Rightarrow> None
          | Some (ret, p) \<Rightarrow>
              Some (if ret \<noteq> BUCKETS_OK then Start_Failed ret else Start_Submit tasks, set_pool (Some p) s)))"
| "buckets_migration_job_start env (Start_Failed ret) s =
    (let (_, s) = transition_state BUCKETS_MIGRATION_STATE_FAILED s in Some (Returned Job_Start ret, s))"
| "buckets_migration_job_start env _ s = None"

text \<open>The two sections of stopping a pool from a call: the shutdown, with the result if the pool
  does not run, and the join, possible once the threads started last have ended.\<close>

definition pool_stop_begin :: "pool_system \<Rightarrow> pool_system option" where
  "pool_stop_begin p =
    (if wp_running (ps_pool p)
     then Some (p\<lparr>ps_pool := (ps_pool p)\<lparr>wp_queue := task_queue_shutdown (wp_queue (ps_pool p))\<rparr>\<rparr>)
     else None)"

definition pool_stop_join :: "pool_system \<Rightarrow> pool_system option" where
  "pool_stop_join p =
    (if list_all (\<lambda>w. w = W_Exited) (drop (length (ps_workers p) - wp_num_workers (ps_pool p)) (ps_workers p))
     then Some (p\<lparr>ps_pool := (ps_pool p)\<lparr>wp_running := False\<rparr>\<rparr>)
     else None)"

fun buckets_migration_job_pause :: "job_call \<Rightarrow> job_system \<Rightarrow> (job_call \<times> job_system) option" where
  "buckets_migration_job_pause Pause_Stop s =
    (case job_pool s of
       None \<Rightarrow> Some (Pause_Transition, s)
     | Some p \<Rightarrow> (case pool_stop_begin p of
                    None \<Rightarrow> Some (Returned Job_Pause BUCKETS_ERR_INVALID_ARG, s)
                  | Some p \<Rightarrow> Some (Pause_Join, set_pool (Some p) s)))"
| "buckets_migration_job_pause Pause_Join s =
    (case job_pool s of
       None \<Rightarrow> None
     | Some p \<Rightarrow> map_option (\<lambda>p. (Pause_Transition, set_pool (Some p) s)) (pool_stop_join p))"
| "buckets_migration_job_pause Pause_Transition s =
    (let (ret, s) = transition_state BUCKETS_MIGRATION_STATE_PAUSED s in Some (Returned Job_Pause ret, s))"
| "buckets_migration_job_pause _ s = None"

fun buckets_migration_job_resume :: "job_env \<Rightarrow> job_call \<Rightarrow> job_system \<Rightarrow> (job_call \<times> job_system) option" where
  "buckets_migration_job_resume env Resume_Start s =
    (case job_pool s of
       None \<Rightarrow> Some (Resume_Transition, s)
     | Some p \<Rightarrow>
         let (ret, p) = buckets_worker_pool_start (je_clock env 0) (je_spawned env) p;
             s = set_pool (Some p) s
         in if ret \<noteq> BUCKETS_OK then Some (Returned Job_Resume ret, s) else Some (Resume_Transition, s))"
| "buckets_migration_job_resume env Resume_Transition s =
    (let (ret, s) = transition_state BUCKETS_MIGRATION_STATE_MIGRATING s in Some (Returned Job_Resume ret, s))"
| "buckets_migration_job_resume env _ s = None"

fun buckets_migration_job_stop :: "job_call \<Rightarrow> job_system \<Rightarrow> (job_call \<times> job_system) option" where
  "buckets_migration_job_stop Stop_Pool s =
    (case job_pool s of
       None \<Rightarrow> Some (Stop_Transition, s)
     | Some p \<Rightarrow> (case pool_stop_begin p of
                    None \<Rightarrow> Some (Stop_Transition, s)
                  | Some p \<Rightarrow> Some (Stop_Join, set_pool (Some p) s)))"
| "buckets_migration_job_stop Stop_Join s =
    (case job_pool s of
       None \<Rightarrow> None
     | Some p \<Rightarrow> map_option (\<lambda>p. (Stop_Transition, set_pool (Some p) s)) (pool_stop_join p))"
| "buckets_migration_job_stop Stop_Transition s =
    (let (ret, s) = transition_state BUCKETS_MIGRATION_STATE_FAILED s in Some (Returned Job_Stop ret, s))"
| "buckets_migration_job_stop _ s = None"


text \<open>Waiting: one turn of the loop is reading the state, the progress with its checkpoint and
  event, the two readings of the pool until both are zero, and the end of the job.\<close>

fun buckets_migration_job_wait ::
  "(json \<Rightarrow> string) \<Rightarrow> job_env \<Rightarrow> job_call \<Rightarrow> job_system \<Rightarrow> (job_call \<times> job_system) option" where
  "buckets_migration_job_wait print env Wait_Loop s =
     Some (case job_state s of
             BUCKETS_MIGRATION_STATE_COMPLETED \<Rightarrow> Returned Job_Wait BUCKETS_OK
           | BUCKETS_MIGRATION_STATE_FAILED \<Rightarrow> Returned Job_Wait BUCKETS_OK
           | BUCKETS_MIGRATION_STATE_MIGRATING \<Rightarrow> Wait_Progress
           | _ \<Rightarrow> Wait_Loop, s)"
| "buckets_migration_job_wait print env Wait_Progress s = Some (Wait_Save, s\<lparr>jb_job := update_progress (jb_job s)\<rparr>)"
| "buckets_migration_job_wait print env Wait_Save s = Some (Wait_Pool, save_checkpoint_if_needed print env s)"
| "buckets_migration_job_wait print env Wait_Pool s =
    (let s = fire_event ''progress'' s in Some (if job_pool s \<noteq> None then Wait_Queue else Wait_Loop, s))"
| "buckets_migration_job_wait print env Wait_Queue s =
    (case job_pool s of
       None \<Rightarrow> None
     | Some p \<Rightarrow> Some (if tq_count (wp_queue (ps_pool p)) = 0 then Wait_Active else Wait_Queue, s))"
| "buckets_migration_job_wait print env Wait_Active s =
    (case job_pool s of
       None \<Rightarrow> None
     | Some p \<Rightarrow> Some (if wp_active_workers (ps_pool p) = 0 then Wait_Complete else Wait_Queue, s))"
| "buckets_migration_job_wait print env Wait_Complete s =
    (let (_, s) = transition_state BUCKETS_MIGRATION_STATE_COMPLETED s in Some (Wait_Final, s))"
| "buckets_migration_job_wait print env Wait_Final s =
    (let (_, files) = buckets_migration_job_save print (je_clock env 0) (je_io env) (jb_job s) (jb_files s)
                        (Some (mj_checkpoint_path (jb_job s)))
     in Some (Returned Job_Wait BUCKETS_OK, s\<lparr>jb_files := files\<rparr>))"
| "buckets_migration_job_wait print env _ s = None"

definition buckets_migration_job_get_state :: "buckets_migration_job option \<Rightarrow> buckets_migration_state" where
  "buckets_migration_job_get_state job =
    (case job of None \<Rightarrow> BUCKETS_MIGRATION_STATE_FAILED | Some job \<Rightarrow> mj_state job)"

text \<open>The total, the completed and the failed objects.\<close>

definition buckets_migration_job_get_progress :: "buckets_migration_job \<Rightarrow> (int \<times> int \<times> int) \<times> buckets_migration_job" where
  "buckets_migration_job_get_progress job =
    (let job = (if mj_state job = BUCKETS_MIGRATION_STATE_MIGRATING then update_progress job else job)
     in ((mj_total_objects job, mj_migrated_objects job, mj_failed_objects job), job))"

definition buckets_migration_job_set_callback :: "bool \<Rightarrow> buckets_migration_job \<Rightarrow> buckets_migration_job" where
  "buckets_migration_job_set_callback callback job = job\<lparr>mj_callback := callback\<rparr>"

text \<open>A call begins with a look at the state.\<close>

fun job_enter :: "job_op \<Rightarrow> buckets_migration_state \<Rightarrow> job_call" where
  "job_enter Job_Start st =
    (if st \<noteq> BUCKETS_MIGRATION_STATE_IDLE then Returned Job_Start BUCKETS_ERR_INVALID_ARG else Start_Scanning)"
| "job_enter Job_Pause st =
    (if st \<noteq> BUCKETS_MIGRATION_STATE_MIGRATING then Returned Job_Pause BUCKETS_ERR_INVALID_ARG else Pause_Stop)"
| "job_enter Job_Resume st =
    (if st \<noteq> BUCKETS_MIGRATION_STATE_PAUSED then Returned Job_Resume BUCKETS_ERR_INVALID_ARG else Resume_Start)"
| "job_enter Job_Stop st =
    (if st = BUCKETS_MIGRATION_STATE_COMPLETED \<or> st = BUCKETS_MIGRATION_STATE_FAILED
     then Returned Job_Stop BUCKETS_OK else Stop_Pool)"
| "job_enter Job_Wait st = Wait_Loop"

fun call_op :: "job_call \<Rightarrow> job_op" where
  "call_op Start_Scanning = Job_Start"
| "call_op Start_Scan = Job_Start"
| "call_op (Start_Scanned _) = Job_Start"
| "call_op (Start_Pool _) = Job_Start"
| "call_op (Start_Submit _) = Job_Start"
| "call_op (Start_Failed _) = Job_Start"
| "call_op Pause_Stop = Job_Pause"
| "call_op Pause_Join = Job_Pause"
| "call_op Pause_Transition = Job_Pause"
| "call_op Resume_Start = Job_Resume"
| "call_op Resume_Transition = Job_Resume"
| "call_op Stop_Pool = Job_Stop"
| "call_op Stop_Join = Job_Stop"
| "call_op Stop_Transition = Job_Stop"
| "call_op (Returned op _) = op"
| "call_op _ = Job_Wait"

definition job_call_step :: "(json \<Rightarrow> string) \<Rightarrow> job_env \<Rightarrow> job_call \<Rightarrow> job_system \<Rightarrow> (job_call \<times> job_system) option" where
  "job_call_step print env call s =
    (case call_op call of
       Job_Start \<Rightarrow> buckets_migration_job_start env call s
     | Job_Pause \<Rightarrow> buckets_migration_job_pause call s
     | Job_Resume \<Rightarrow> buckets_migration_job_resume env call s
     | Job_Stop \<Rightarrow> buckets_migration_job_stop call s
     | Job_Wait \<Rightarrow> buckets_migration_job_wait print env call s)"

inductive job_step :: "(json \<Rightarrow> string) \<Rightarrow> job_system \<Rightarrow> job_system \<Rightarrow> bool" for print where
  call: "job_step print s (s\<lparr>jb_calls := jb_calls s @ [job_enter op (job_state s)]\<rparr>)"
| run: "i < length (jb_calls s) \<Longrightarrow> job_call_step print env (jb_calls s ! i) s = Some (c, s') \<Longrightarrow>
     job_step print s (s'\<lparr>jb_calls := (jb_calls s')[i := c]\<rparr>)"
| work: "job_pool s = Some p \<Longrightarrow> i < length (ps_workers p) \<Longrightarrow> worker_thread_step (ps_workers p ! i) p = Some (w, p') \<Longrightarrow>
     job_step print s (set_pool (Some (p'\<lparr>ps_workers := (ps_workers p')[i := w]\<rparr>)) s)"
| progress: "job_step print s (s\<lparr>jb_job := snd (buckets_migration_job_get_progress (jb_job s))\<rparr>)"
| callback: "job_step print s (s\<lparr>jb_job := buckets_migration_job_set_callback callback (jb_job s)\<rparr>)"
| save: "job_step print s
     (s\<lparr>jb_files := snd (buckets_migration_job_save print now env (jb_job s) (jb_files s) (Some path))\<rparr>)"

abbreviation job_reach :: "(json \<Rightarrow> string) \<Rightarrow> job_system \<Rightarrow> job_system \<Rightarrow> bool" where
  "job_reach print \<equiv> (job_step print)\<^sup>*\<^sup>*"


section \<open>What a section can change\<close>

lemma fire_event_simps [simp]:
  "jb_job (fire_event e s) = jb_job s" "jb_calls (fire_event e s) = jb_calls s" "jb_found (fire_event e s) = jb_found s"
  "jb_files (fire_event e s) = jb_files s"
  by (simp_all add: fire_event_def)

lemma transition_state_cases:
  assumes "transition_state x s = (r, s')"
  obtains (moved) "is_valid_transition (job_state s) x" "r = BUCKETS_OK" "job_state s' = x" "job_pool s' = job_pool s"
      "jb_calls s' = jb_calls s" "jb_found s' = jb_found s" "jb_files s' = jb_files s"
    | (refused) "\<not> is_valid_transition (job_state s) x" "r = BUCKETS_ERR_INVALID_ARG" "s' = s"
  using assms by (auto simp: transition_state_def split: if_splits)

lemma update_progress_simps [simp]:
  "mj_state (update_progress job) = mj_state job" "mj_worker_pool (update_progress job) = mj_worker_pool job"
  by (auto simp: update_progress_def split: option.split)

lemma save_checkpoint_simps [simp]:
  "job_state (save_checkpoint_if_needed print env s) = job_state s"
  "job_pool (save_checkpoint_if_needed print env s) = job_pool s"
  "jb_calls (save_checkpoint_if_needed print env s) = jb_calls s"
  "jb_found (save_checkpoint_if_needed print env s) = jb_found s"
  by (auto simp: save_checkpoint_if_needed_def Let_def split: prod.split)

text \<open>The states after the scan, which are never left for an earlier one.\<close>

definition scan_over :: "buckets_migration_state \<Rightarrow> bool" where
  "scan_over st \<longleftrightarrow> st \<in> {BUCKETS_MIGRATION_STATE_MIGRATING, BUCKETS_MIGRATION_STATE_PAUSED,
     BUCKETS_MIGRATION_STATE_COMPLETED, BUCKETS_MIGRATION_STATE_FAILED}"

lemma scan_over_stable: "is_valid_transition st st' \<Longrightarrow> scan_over st \<Longrightarrow> scan_over st'"
  by (cases st) (auto simp: scan_over_def)

lemma scan_over_FAILED [simp]: "scan_over BUCKETS_MIGRATION_STATE_FAILED"
  by (simp add: scan_over_def)

definition pool_evolves :: "pool_system option \<Rightarrow> pool_system option \<Rightarrow> bool" where
  "pool_evolves o1 o2 \<longleftrightarrow> (\<forall>p. o1 = Some p \<longrightarrow> (\<exists>p'. o2 = Some p' \<and> pool_reach p p'))"

lemma pool_evolves_intros [simp, intro]:
  "pool_evolves o1 o1" "pool_evolves None o1" "pool_reach p p' \<Longrightarrow> pool_evolves (Some p) (Some p')"
  by (simp_all add: pool_evolves_def)

lemma pool_evolves_trans: "pool_evolves o1 o2 \<Longrightarrow> pool_evolves o2 o3 \<Longrightarrow> pool_evolves o1 o3"
  unfolding pool_evolves_def by (fastforce intro: rtranclp_trans)

text \<open>What the calls other than a start, and the worker threads, do: they move the state only
  after the scan or to failure, and they neither create a pool nor submit a task.\<close>

definition submitted :: "pool_system option \<Rightarrow> buckets_migration_task list option" where
  "submitted o1 = map_option ps_submitted o1"

fun tasks_left :: "pool_system option \<Rightarrow> nat" where
  "tasks_left None = 0"
| "tasks_left (Some p) = tq_count (wp_queue (ps_pool p))"

definition moves_on :: "job_system \<Rightarrow> job_system \<Rightarrow> bool" where
  "moves_on s s' \<longleftrightarrow>
     (job_state s' = job_state s \<or>
      is_valid_transition (job_state s) (job_state s') \<and> (scan_over (job_state s) \<or> job_state s' = BUCKETS_MIGRATION_STATE_FAILED)) \<and>
     pool_evolves (job_pool s) (job_pool s') \<and> (job_pool s = None \<longrightarrow> job_pool s' = None) \<and>
     submitted (job_pool s') = submitted (job_pool s) \<and> tasks_left (job_pool s') \<le> tasks_left (job_pool s) \<and>
     jb_found s' = jb_found s \<and> jb_calls s' = jb_calls s"

text \<open>What is known while a call is at a section.\<close>

fun call_late :: "job_call \<Rightarrow> bool" where
  "call_late c \<longleftrightarrow> c \<in> {Pause_Stop, Pause_Join, Pause_Transition, Resume_Start, Resume_Transition, Wait_Progress, Wait_Save,
     Wait_Pool, Wait_Queue, Wait_Active, Wait_Complete, Wait_Final}"

definition call_ok :: "job_system \<Rightarrow> job_call \<Rightarrow> bool" where
  "call_ok s c \<longleftrightarrow> (call_late c \<longrightarrow> scan_over (job_state s)) \<and>
     (c \<in> {Pause_Join, Stop_Join} \<longrightarrow> (\<exists>p. job_pool s = Some p \<and> tq_shutdown (wp_queue (ps_pool p))))"

lemma call_ok_stable:
  assumes "call_ok s c" "scan_over (job_state s) \<Longrightarrow> scan_over (job_state s')" "pool_evolves (job_pool s) (job_pool s')"
  shows "call_ok s' c"
  using assms pool_reach_fixed unfolding call_ok_def pool_evolves_def by blast

lemma moves_on_call_ok: "moves_on s s' \<Longrightarrow> call_ok s c \<Longrightarrow> call_ok s' c"
  by (erule call_ok_stable) (use scan_over_stable in \<open>auto simp: moves_on_def\<close>)

lemma moves_on_keep:
  "job_state s' = job_state s \<Longrightarrow> job_pool s' = job_pool s \<Longrightarrow> jb_found s' = jb_found s \<Longrightarrow> jb_calls s' = jb_calls s \<Longrightarrow>
     moves_on s s'"
  by (simp add: moves_on_def)

lemma moves_on_transition:
  assumes "transition_state x s = (r, s')" "scan_over (job_state s) \<or> x = BUCKETS_MIGRATION_STATE_FAILED"
  shows "moves_on s s'"
  using assms by (auto elim!: transition_state_cases simp: moves_on_def)

lemma moves_on_pool:
  "job_pool s = Some p \<Longrightarrow> pool_reach p p' \<Longrightarrow> ps_submitted p' = ps_submitted p \<Longrightarrow>
     tq_count (wp_queue (ps_pool p')) \<le> tq_count (wp_queue (ps_pool p)) \<Longrightarrow> moves_on s (set_pool (Some p') s)"
  by (simp add: moves_on_def submitted_def)

lemma pool_stop_begin_reach:
  "pool_stop_begin p = Some p' \<Longrightarrow> pool_reach p p' \<and> ps_submitted p' = ps_submitted p \<and>
     tq_count (wp_queue (ps_pool p')) \<le> tq_count (wp_queue (ps_pool p)) \<and> tq_shutdown (wp_queue (ps_pool p'))"
  by (auto simp: pool_stop_begin_def task_queue_shutdown_def split: if_splits intro!: pool_step.stop [simplified task_queue_shutdown_def])

lemma pool_stop_join_reach:
  assumes "pool_stop_join p = Some p'" "tq_shutdown (wp_queue (ps_pool p))"
  shows "pool_reach p p' \<and> ps_submitted p' = ps_submitted p \<and> tq_count (wp_queue (ps_pool p')) \<le> tq_count (wp_queue (ps_pool p))"
proof (cases "wp_running (ps_pool p)")
  case True
  then show ?thesis using assms by (auto simp: pool_stop_join_def split: if_splits intro!: pool_step.join)
next
  case False
  then have "p\<lparr>ps_pool := (ps_pool p)\<lparr>wp_running := False\<rparr>\<rparr> = p" by simp
  then show ?thesis using assms by (auto simp: pool_stop_join_def split: if_splits)
qed

lemma pool_start_reach:
  "buckets_worker_pool_start now n p = (r, p') \<Longrightarrow> pool_reach p p' \<and> ps_submitted p' = ps_submitted p \<and>
     tq_count (wp_queue (ps_pool p')) \<le> tq_count (wp_queue (ps_pool p))"
  by (rule conjI, blast intro: pool_step.start) (auto simp: buckets_worker_pool_start_def Let_def split: if_splits)


lemma worker_step_submitted:
  "worker_thread_step w p = Some (w', p') \<Longrightarrow> ps_submitted p' = ps_submitted p \<and>
     tq_count (wp_queue (ps_pool p')) \<le> tq_count (wp_queue (ps_pool p))"
  by (cases w) (auto simp: task_queue_pop_def split: option.splits outcome.splits if_splits dest: execute_with_retry_effect)

lemma work_moves_on:
  assumes "job_pool s = Some p" "i < length (ps_workers p)" "worker_thread_step (ps_workers p ! i) p = Some (w, p')"
  shows "moves_on s (set_pool (Some (p'\<lparr>ps_workers := (ps_workers p')[i := w]\<rparr>)) s)"
proof (rule moves_on_pool [OF assms(1)])
  show "pool_reach p (p'\<lparr>ps_workers := (ps_workers p')[i := w]\<rparr>)"
    using pool_step.work [OF assms(2,3)] by blast
qed (use worker_step_submitted [OF assms(3)] in simp_all)

lemma pause_step:
  assumes "call_ok s c" "buckets_migration_job_pause c s = Some (c', s')" "call_op c = Job_Pause"
  shows "moves_on s s' \<and> call_ok s' c' \<and> call_op c' = Job_Pause"
  using assms
proof (cases c)
  case Pause_Stop
  show ?thesis
  proof (cases "job_pool s")
    case None
    then show ?thesis using assms Pause_Stop by (auto simp: moves_on_def call_ok_def)
  next
    case (Some p)
    show ?thesis
    proof (cases "pool_stop_begin p")
      case None
      then show ?thesis using assms Pause_Stop Some by (auto simp: moves_on_def call_ok_def)
    next
      case stop: (Some p')
      then have *: "c' = Pause_Join" "s' = set_pool (Some p') s" using assms Pause_Stop Some by auto
      then show ?thesis using moves_on_pool [OF Some, of p'] pool_stop_begin_reach [OF stop] assms(1) Pause_Stop
        by (auto simp: call_ok_def)
    qed
  qed
next
  case Pause_Join
  then obtain p where p: "job_pool s = Some p" "tq_shutdown (wp_queue (ps_pool p))"
    using assms(1) unfolding call_ok_def by blast
  then obtain p' where p': "pool_stop_join p = Some p'" "c' = Pause_Transition" "s' = set_pool (Some p') s"
    using assms(2) Pause_Join by (cases "pool_stop_join p") simp_all
  then show ?thesis using moves_on_pool [OF p(1), of p'] pool_stop_join_reach [OF p'(1) p(2)] assms(1) Pause_Join
    by (simp add: call_ok_def)
next
  case Pause_Transition
  then obtain r where "transition_state BUCKETS_MIGRATION_STATE_PAUSED s = (r, s')" "c' = Returned Job_Pause r"
    using assms by (auto split: prod.splits)
  then show ?thesis using moves_on_transition assms(1) Pause_Transition by (auto simp: call_ok_def)
qed auto

lemma stop_step:
  assumes "call_ok s c" "buckets_migration_job_stop c s = Some (c', s')" "call_op c = Job_Stop"
  shows "moves_on s s' \<and> call_ok s' c' \<and> call_op c' = Job_Stop"
  using assms
proof (cases c)
  case Stop_Pool
  show ?thesis
  proof (cases "job_pool s")
    case None
    then show ?thesis using assms Stop_Pool by (auto simp: moves_on_def call_ok_def)
  next
    case (Some p)
    show ?thesis
    proof (cases "pool_stop_begin p")
      case None
      then show ?thesis using assms Stop_Pool Some by (auto simp: moves_on_def call_ok_def)
    next
      case stop: (Some p')
      then have *: "c' = Stop_Join" "s' = set_pool (Some p') s" using assms Stop_Pool Some by auto
      then show ?thesis using moves_on_pool [OF Some, of p'] pool_stop_begin_reach [OF stop] assms(1) Stop_Pool
        by (auto simp: call_ok_def)
    qed
  qed
next
  case Stop_Join
  then obtain p where p: "job_pool s = Some p" "tq_shutdown (wp_queue (ps_pool p))"
    using assms(1) unfolding call_ok_def by blast
  then obtain p' where p': "pool_stop_join p = Some p'" "c' = Stop_Transition" "s' = set_pool (Some p') s"
    using assms(2) Stop_Join by (cases "pool_stop_join p") simp_all
  then show ?thesis using moves_on_pool [OF p(1), of p'] pool_stop_join_reach [OF p'(1) p(2)] assms(1) Stop_Join
    by (simp add: call_ok_def)
next
  case Stop_Transition
  then obtain r where "transition_state BUCKETS_MIGRATION_STATE_FAILED s = (r, s')" "c' = Returned Job_Stop r"
    using assms by (auto split: prod.splits)
  then show ?thesis using moves_on_transition assms(1) Stop_Transition by (auto simp: call_ok_def)
qed auto

lemma resume_step:
  assumes "call_ok s c" "buckets_migration_job_resume env c s = Some (c', s')" "call_op c = Job_Resume"
  shows "moves_on s s' \<and> call_ok s' c' \<and> call_op c' = Job_Resume"
  using assms
proof (cases c)
  case Resume_Start
  show ?thesis
  proof (cases "job_pool s")
    case None
    then show ?thesis using assms Resume_Start by (auto simp: moves_on_def call_ok_def)
  next
    case (Some p)
    obtain r p' where st: "buckets_worker_pool_start (je_clock env 0) (je_spawned env) p = (r, p')" by force
    then have "s' = set_pool (Some p') s" "c' = (if r \<noteq> BUCKETS_OK then Returned Job_Resume r else Resume_Transition)"
      using assms Resume_Start Some by (auto simp: Let_def split: if_splits)
    then show ?thesis using moves_on_pool [OF Some, of p'] pool_start_reach [OF st] assms(1) Resume_Start
      by (auto simp: call_ok_def)
  qed
next
  case Resume_Transition
  then obtain r where "transition_state BUCKETS_MIGRATION_STATE_MIGRATING s = (r, s')" "c' = Returned Job_Resume r"
    using assms by (auto split: prod.splits)
  then show ?thesis using moves_on_transition assms(1) Resume_Transition by (auto simp: call_ok_def)
qed auto

lemma wait_step:
  assumes "call_ok s c" "buckets_migration_job_wait print env c s = Some (c', s')" "call_op c = Job_Wait"
  shows "moves_on s s' \<and> call_ok s' c' \<and> call_op c' = Job_Wait"
  using assms
proof (cases c)
  case Wait_Loop
  then show ?thesis using assms by (cases "job_state s") (auto simp: moves_on_def call_ok_def scan_over_def)
next
  case Wait_Complete
  then obtain r where "transition_state BUCKETS_MIGRATION_STATE_COMPLETED s = (r, s')" "c' = Wait_Final"
    using assms by (auto split: prod.splits)
  moreover from this have "moves_on s s'" using moves_on_transition assms(1) Wait_Complete by (simp add: call_ok_def)
  ultimately show ?thesis using moves_on_call_ok [OF _ assms(1)] Wait_Complete by (simp add: call_ok_def)
next
  case Wait_Final
  then obtain files where "s' = s\<lparr>jb_files := files\<rparr>" "c' = Returned Job_Wait BUCKETS_OK"
    using assms by (auto split: prod.splits)
  then show ?thesis using moves_on_keep [of s' s] by (simp add: call_ok_def)
next
  case Wait_Pool
  then show ?thesis using assms moves_on_keep [of s' s] by (auto simp: call_ok_def Let_def split: if_splits)
next
  case Wait_Queue
  then show ?thesis using assms moves_on_keep [of s' s] by (auto simp: call_ok_def split: option.splits if_splits)
next
  case Wait_Active
  then show ?thesis using assms moves_on_keep [of s' s] by (auto simp: call_ok_def split: option.splits if_splits)
next
  case Wait_Progress
  then show ?thesis using assms moves_on_keep [of s' s] by (auto simp: call_ok_def)
next
  case Wait_Save
  then show ?thesis using assms moves_on_keep [of s' s] by (auto simp: call_ok_def)
qed simp_all

lemma other_call_step:
  assumes "call_ok s c" "job_call_step print env c s = Some (c', s')" "call_op c \<noteq> Job_Start"
  shows "moves_on s s' \<and> call_ok s' c' \<and> call_op c' = call_op c"
proof (cases "call_op c")
  case Job_Pause
  then show ?thesis using assms(2) pause_step [OF assms(1) _ Job_Pause] by (simp add: job_call_step_def)
next
  case Job_Resume
  then show ?thesis using assms(2) resume_step [OF assms(1) _ Job_Resume] by (simp add: job_call_step_def)
next
  case Job_Stop
  then show ?thesis using assms(2) stop_step [OF assms(1) _ Job_Stop] by (simp add: job_call_step_def)
next
  case Job_Wait
  then show ?thesis using assms(2) wait_step [OF assms(1) _ Job_Wait] by (simp add: job_call_step_def)
qed (use assms in simp)


section \<open>One start at a time\<close>

fun pending_start :: "job_call \<Rightarrow> bool" where
  "pending_start Start_Scan = True"
| "pending_start (Start_Scanned _) = True"
| "pending_start (Start_Pool _) = True"
| "pending_start (Start_Submit _) = True"
| "pending_start (Start_Failed _) = True"
| "pending_start _ = False"

text \<open>What holds while the given start is under way; with none, the tasks of a migrating or
  paused job have all been submitted.\<close>

fun phase :: "job_call list \<Rightarrow> job_system \<Rightarrow> bool" where
  "phase [] s \<longleftrightarrow>
    (case job_state s of
       BUCKETS_MIGRATION_STATE_IDLE \<Rightarrow> job_pool s = None \<and> jb_found s = None
     | BUCKETS_MIGRATION_STATE_MIGRATING \<Rightarrow> jb_found s \<noteq> None \<and> submitted (job_pool s) = jb_found s
     | BUCKETS_MIGRATION_STATE_PAUSED \<Rightarrow> jb_found s \<noteq> None \<and> submitted (job_pool s) = jb_found s
     | BUCKETS_MIGRATION_STATE_COMPLETED \<Rightarrow> True
     | BUCKETS_MIGRATION_STATE_FAILED \<Rightarrow> True
     | _ \<Rightarrow> False)"
| "phase [Start_Scan] s \<longleftrightarrow>
     job_state s \<in> {BUCKETS_MIGRATION_STATE_SCANNING, BUCKETS_MIGRATION_STATE_FAILED} \<and> job_pool s = None \<and> jb_found s = None"
| "phase [Start_Scanned tasks] s \<longleftrightarrow>
     job_state s \<in> {BUCKETS_MIGRATION_STATE_SCANNING, BUCKETS_MIGRATION_STATE_FAILED} \<and> job_pool s = None \<and>
     jb_found s = Some tasks"
| "phase [Start_Pool tasks] s \<longleftrightarrow> scan_over (job_state s) \<and> job_pool s = None \<and> jb_found s = Some tasks"
| "phase [Start_Submit tasks] s \<longleftrightarrow>
     scan_over (job_state s) \<and> (\<exists>first. submitted (job_pool s) = Some first \<and> jb_found s = Some (first @ tasks))"
| "phase [Start_Failed ret] s \<longleftrightarrow> job_state s = BUCKETS_MIGRATION_STATE_SCANNING \<or> scan_over (job_state s)"
| "phase _ s \<longleftrightarrow> False"

lemma phase_moves_on:
  assumes "moves_on s s'" "phase cs s"
  shows "phase cs s'"
proof -
  have st: "job_state s' = job_state s \<or> job_state s' = BUCKETS_MIGRATION_STATE_FAILED \<or>
      scan_over (job_state s) \<and> is_valid_transition (job_state s) (job_state s')"
    and same: "submitted (job_pool s') = submitted (job_pool s)" "jb_found s' = jb_found s" "job_pool s = None \<Longrightarrow> job_pool s' = None"
    using assms(1) by (auto simp: moves_on_def)
  have over: "scan_over (job_state s) \<Longrightarrow> scan_over (job_state s')"
    using st scan_over_stable by (metis scan_over_FAILED)
  show ?thesis using assms(2)
  proof (cases "(cs, s)" rule: phase.cases)
    case (1 s)
    then show ?thesis using assms(2) st same by (cases "job_state s") (auto simp: scan_over_def split: buckets_migration_state.splits)
  next
    case (2 s)
    then show ?thesis using assms(2) st same by (auto simp: scan_over_def)
  next
    case (3 tasks s)
    then show ?thesis using assms(2) st same by (auto simp: scan_over_def)
  next
    case (6 ret s)
    then show ?thesis using assms(2) st over by (auto simp: scan_over_def)
  qed (use over same in auto)
qed

lemma phase_single: "phase (xs @ c # ys) s \<Longrightarrow> xs = [] \<and> ys = []"
  by (cases "(xs @ c # ys, s)" rule: phase.cases) (auto simp: append_eq_Cons_conv)


definition pool_ok :: "pool_system option \<Rightarrow> bool" where
  "pool_ok o1 \<longleftrightarrow> (\<forall>p. o1 = Some p \<longrightarrow> (\<exists>now n old new paths disks pool.
     buckets_worker_pool_create now n old new paths disks = Some pool \<and> pool_reach (pool_initial pool) p))"

lemma pool_ok_evolves: "pool_ok o1 \<Longrightarrow> pool_evolves o1 o2 \<Longrightarrow> o1 = None \<longrightarrow> o2 = None \<Longrightarrow> pool_ok o2"
  unfolding pool_ok_def pool_evolves_def by (metis option.exhaust option.inject rtranclp_trans)

lemma start_scan_effect:
  assumes "buckets_migration_job_start env Start_Scan s = Some (c, s')"
  shows "job_state s' = job_state s \<and> job_pool s' = job_pool s \<and> jb_calls s' = jb_calls s \<and>
     ((\<exists>e. c = Start_Failed e \<and> jb_found s' = jb_found s) \<or> (\<exists>tasks. c = Start_Scanned tasks \<and> jb_found s' = Some tasks))"
  using assms by (simp add: Let_def split: option.splits outcome.splits prod.splits) auto

lemma submit_one_effect:
  assumes "worker_pool_submit_one task p = Some (r, p')"
  shows "pool_reach p p' \<and> ps_submitted p' = ps_submitted p @ (if r = BUCKETS_OK then [task] else [])"
proof
  show "pool_reach p p'" using pool_step.submit [OF assms] by blast
qed (use assms in \<open>auto simp: worker_pool_submit_one_def Let_def split: if_splits option.splits outcome.splits\<close>)

text \<open>A start under way keeps what is known and ends in the phase without one.\<close>

definition start_effect :: "job_system \<Rightarrow> job_call \<Rightarrow> job_system \<Rightarrow> bool" where
  "start_effect s c' s' \<longleftrightarrow> phase (filter pending_start [c']) s' \<and> call_op c' = Job_Start \<and>
     (job_state s' = job_state s \<or> is_valid_transition (job_state s) (job_state s')) \<and>
     pool_evolves (job_pool s) (job_pool s') \<and> pool_ok (job_pool s') \<and> jb_calls s' = jb_calls s"

lemma start_pool_step:
  assumes "phase [Start_Pool tasks] s" "buckets_migration_job_start env (Start_Pool tasks) s = Some (c', s')"
  shows "start_effect s c' s'"
proof (cases "buckets_worker_pool_create (je_clock env 0) 16 (mj_old_topology (jb_job s)) (mj_new_topology (jb_job s))
    (mj_disk_paths (jb_job s)) (mj_disk_count (jb_job s))")
  case None
  then show ?thesis using assms by (auto simp: start_effect_def pool_ok_def Let_def)
next
  case (Some pool)
  obtain r p where p: "buckets_worker_pool_start (je_clock env 1) (je_spawned env) (pool_initial pool) = (r, p)" by force
  have s': "s' = set_pool (Some p) s" "c' = (if r \<noteq> BUCKETS_OK then Start_Failed r else Start_Submit tasks)"
    using assms(2) Some p by (auto simp: Let_def split: if_splits)
  have "pool_ok (Some p)" using Some pool_start_reach [OF p] unfolding pool_ok_def by blast
  moreover have "ps_submitted p = []" using pool_start_reach [OF p] by (simp add: pool_initial_def)
  ultimately show ?thesis using assms(1) s' by (simp add: start_effect_def submitted_def)
qed

lemma start_submit_step:
  assumes "phase [Start_Submit (task # tasks)] s" "buckets_migration_job_start env (Start_Submit (task # tasks)) s = Some (c', s')"
    and "pool_ok (job_pool s)"
  shows "start_effect s c' s'"
proof -
  obtain p r p' where p: "job_pool s = Some p" "worker_pool_submit_one task p = Some (r, p')"
      and s': "c' = (if r \<noteq> BUCKETS_OK then Start_Failed r else Start_Submit tasks)" "s' = set_pool (Some p') s"
    using assms(2) by (auto split: option.splits prod.splits)
  have ev: "pool_evolves (Some p) (Some p')" using submit_one_effect [OF p(2)] by blast
  then have "pool_ok (Some p')" using assms(3) p(1) pool_ok_evolves by auto
  then show ?thesis using assms(1) s' p(1) ev submit_one_effect [OF p(2)] by (auto simp: start_effect_def submitted_def)
qed

lemma start_step:
  assumes "phase [c] s" "buckets_migration_job_start env c s = Some (c', s')" "pool_ok (job_pool s)"
  shows "start_effect s c' s'"
  using assms(1)
proof (cases "([c], s)" rule: phase.cases)
  case (2 s)
  then have c: "c = Start_Scan" by simp
  have eff: "job_state s' = job_state s \<and> job_pool s' = job_pool s \<and> jb_calls s' = jb_calls s \<and>
     ((\<exists>e. c' = Start_Failed e \<and> jb_found s' = jb_found s) \<or> (\<exists>tasks. c' = Start_Scanned tasks \<and> jb_found s' = Some tasks))"
    if "phase [c] s" "buckets_migration_job_start env c s = Some (c', s')" for s
    using start_scan_effect that unfolding c by blast
  show ?thesis using assms(1,3) eff [OF assms(1,2)] unfolding c start_effect_def by auto
next
  case (3 tasks s)
  show ?thesis
  proof (cases "tasks = []")
    case True
    then obtain r where t: "transition_state BUCKETS_MIGRATION_STATE_COMPLETED s = (r, s')" "c' = Returned Job_Start BUCKETS_OK"
      using 3 assms(2) by (auto split: prod.splits)
    then show ?thesis using 3 assms(1,3) by (cases rule: transition_state_cases [OF t(1)]) (auto simp: start_effect_def)
  next
    case False
    then obtain r where t: "transition_state BUCKETS_MIGRATION_STATE_MIGRATING s = (r, s')"
        "c' = (if r \<noteq> BUCKETS_OK then Returned Job_Start r else Start_Pool tasks)"
      using 3 assms(2) by (auto split: prod.splits if_splits)
    then show ?thesis using 3 assms(1,3)
      by (cases rule: transition_state_cases [OF t(1)]) (auto simp: start_effect_def scan_over_def)
  qed
next
  case (4 tasks s)
  then show ?thesis using start_pool_step assms by simp
next
  case (5 tasks s)
  show ?thesis
  proof (cases tasks)
    case Nil
    then show ?thesis using 5 assms
      by (auto simp: start_effect_def scan_over_def submitted_def split: buckets_migration_state.split)
  next
    case (Cons task rest)
    then show ?thesis using 5 assms start_submit_step by blast
  qed
next
  case (6 ret s)
  then obtain r where t: "transition_state BUCKETS_MIGRATION_STATE_FAILED s = (r, s')" "c' = Returned Job_Start ret"
    using assms(2) by (auto split: prod.splits)
  then show ?thesis using 6 assms(1,3)
    by (cases rule: transition_state_cases [OF t(1)]) (auto simp: start_effect_def scan_over_def)
qed (use assms in auto)


definition job_inv :: "job_system \<Rightarrow> bool" where
  "job_inv s \<longleftrightarrow> list_all (call_ok s) (jb_calls s) \<and> phase (filter pending_start (jb_calls s)) s \<and> pool_ok (job_pool s)"

definition job_keeps :: "job_system \<Rightarrow> job_system \<Rightarrow> bool" where
  "job_keeps s s' \<longleftrightarrow> (job_state s' = job_state s \<or> is_valid_transition (job_state s) (job_state s')) \<and>
     pool_evolves (job_pool s) (job_pool s')"

lemma phase_calls [simp]: "phase cs (s\<lparr>jb_calls := x\<rparr>) = phase cs s"
  by (cases "(cs, s)" rule: phase.cases) (auto split: buckets_migration_state.split)

lemmas phase_Nil = phase.simps(1)
declare phase_Nil [simp del]

lemma call_ok_calls [simp]: "call_ok (s\<lparr>jb_calls := x\<rparr>) = call_ok s"
  by (simp add: call_ok_def fun_eq_iff)

lemma moves_on_inv: "moves_on s s' \<Longrightarrow> job_inv s \<Longrightarrow> job_inv s' \<and> job_keeps s s'"
  using moves_on_call_ok [of s s'] phase_moves_on [of s s' "filter pending_start (jb_calls s)"]
    pool_ok_evolves [of "job_pool s" "job_pool s'"]
  unfolding job_inv_def job_keeps_def list_all_iff moves_on_def by (metis (no_types, lifting))

lemma phase_IDLE: "phase cs s \<Longrightarrow> job_state s = BUCKETS_MIGRATION_STATE_IDLE \<Longrightarrow> cs = []"
  by (cases "(cs, s)" rule: phase.cases) (auto simp: scan_over_def)

lemma start_call_step:
  assumes "jb_calls s = xs @ c # ys" "phase (filter pending_start (jb_calls s)) s" "pool_ok (job_pool s)"
    and "call_op c = Job_Start" "job_call_step print env c s = Some (c', s')"
  shows "phase (filter pending_start (xs @ c' # ys)) s' \<and> job_keeps s s' \<and> pool_ok (job_pool s') \<and>
         jb_calls s' = jb_calls s \<and> call_op c' = Job_Start"
proof -
  have st: "buckets_migration_job_start env c s = Some (c', s')" using assms(4,5) by (simp add: job_call_step_def)
  show ?thesis
  proof (cases "pending_start c")
    case True
    then have "filter pending_start xs = [] \<and> filter pending_start ys = [] \<and> phase [c] s"
      using assms(1,2) phase_single [of "filter pending_start xs" c "filter pending_start ys" s] by auto
    moreover from this have "start_effect s c' s'" using start_step [OF _ st assms(3)] by blast
    ultimately show ?thesis by (auto simp: start_effect_def job_keeps_def split: if_splits)
  next
    case False
    then have "c = Start_Scanning" using assms(4) st by (cases c) auto
    then obtain r where t: "transition_state BUCKETS_MIGRATION_STATE_SCANNING s = (r, s')"
        "c' = (if r \<noteq> BUCKETS_OK then Returned Job_Start r else Start_Scan)"
      using st by (auto split: prod.splits if_splits)
    from t(1) show ?thesis
    proof (cases rule: transition_state_cases)
      case moved
      then have idle: "job_state s = BUCKETS_MIGRATION_STATE_IDLE" by (cases "job_state s") auto
      then have none: "filter pending_start (xs @ ys) = []" using phase_IDLE [OF assms(2)] assms(1) \<open>c = _\<close> by simp
      then have "phase [] s" using assms(1,2) \<open>c = _\<close> by simp
      then show ?thesis using moved t(2) idle none assms(3) by (simp add: job_keeps_def phase_Nil)
    next
      case refused
      then show ?thesis using t(2) assms(1-3) \<open>c = _\<close> by (simp add: job_keeps_def)
    qed
  qed
qed

lemma pending_start_op: "pending_start c \<Longrightarrow> call_op c = Job_Start"
  by (cases c) simp_all

lemma job_keeps_call_ok: "job_keeps s s' \<Longrightarrow> call_ok s c \<Longrightarrow> call_ok s' c"
  by (erule call_ok_stable) (use scan_over_stable in \<open>auto simp: job_keeps_def\<close>)

lemma run_inv:
  assumes "job_inv s" "i < length (jb_calls s)" "job_call_step print env (jb_calls s ! i) s = Some (c', s')"
  shows "job_inv (s'\<lparr>jb_calls := (jb_calls s')[i := c']\<rparr>) \<and> job_keeps s s'"
proof -
  let ?c = "jb_calls s ! i" and ?xs = "take i (jb_calls s)" and ?ys = "drop (Suc i) (jb_calls s)"
  have cs: "jb_calls s = ?xs @ ?c # ?ys" using assms(2) by (rule id_take_nth_drop)
  have upd: "(jb_calls s)[i := c'] = ?xs @ c' # ?ys" using assms(2) by (rule upd_conv_take_nth_drop)
  have inv: "list_all (call_ok s) (jb_calls s)" "phase (filter pending_start (jb_calls s)) s" "pool_ok (job_pool s)"
    using assms(1) by (auto simp: job_inv_def)
  have others: "call_ok s d" if "d \<in> set ?xs \<union> set ?ys" for d
    using that inv(1) unfolding list_all_iff by (meson UnE in_set_takeD in_set_dropD)
  have new: "job_inv (s'\<lparr>jb_calls := (jb_calls s')[i := c']\<rparr>)"
    if "jb_calls s' = jb_calls s" "job_keeps s s'" "call_ok s' c'" "pool_ok (job_pool s')"
      "phase (filter pending_start (?xs @ c' # ?ys)) s'"
  proof -
    have "list_all (call_ok s') (?xs @ c' # ?ys)"
      using that(3) others job_keeps_call_ok [OF that(2)] unfolding list_all_iff by auto
    then show ?thesis using that upd unfolding job_inv_def call_ok_calls phase_calls by simp
  qed
  show ?thesis
  proof (cases "call_op ?c = Job_Start")
    case True
    note step = start_call_step [OF cs inv(2,3) True assms(3)]
    then have "call_ok s' c'" by (cases c') (simp_all add: call_ok_def)
    then show ?thesis using step new by blast
  next
    case False
    have ok: "call_ok s ?c" using inv(1) assms(2) by (simp add: list_all_iff)
    note step = other_call_step [OF ok assms(3) False]
    have "\<not> pending_start ?c" "\<not> pending_start c'" using False step pending_start_op by metis+
    then have same: "filter pending_start (?xs @ c' # ?ys) = filter pending_start (jb_calls s)"
      using cs by (metis filter.simps(2) filter_append)
    have inv': "job_inv s'" "job_keeps s s'" "jb_calls s' = jb_calls s"
      using moves_on_inv [of s s'] step assms(1) by (auto simp: moves_on_def)
    then have "phase (filter pending_start (?xs @ c' # ?ys)) s'" "pool_ok (job_pool s')"
      unfolding same job_inv_def by simp_all
    then show ?thesis using new step inv'(2,3) by blast
  qed
qed

lemma job_step_inv:
  assumes "job_step print s s'" "job_inv s"
  shows "job_inv s' \<and> job_keeps s s'"
  using assms(1)
proof (cases rule: job_step.cases)
  case (call op)
  have "call_ok s (job_enter op (job_state s))" "\<not> pending_start (job_enter op (job_state s))"
    by (cases op; auto simp: call_ok_def scan_over_def)+
  then show ?thesis using assms(2) call by (simp add: job_inv_def job_keeps_def)
next
  case (run i env c s'')
  then show ?thesis using run_inv [OF assms(2) run(2,3)] by (simp add: job_keeps_def)
next
  case (work p i w p')
  then show ?thesis using moves_on_inv [OF work_moves_on [OF work(2-4)] assms(2)] by simp
next
  case progress
  then have "moves_on s s'" by (auto intro!: moves_on_keep simp: buckets_migration_job_get_progress_def Let_def)
  then show ?thesis using moves_on_inv assms(2) by blast
next
  case (callback cb)
  then have "moves_on s s'" by (auto intro!: moves_on_keep simp: buckets_migration_job_set_callback_def)
  then show ?thesis using moves_on_inv assms(2) by blast
next
  case (save now env path)
  then have "moves_on s s'" by (auto intro!: moves_on_keep)
  then show ?thesis using moves_on_inv assms(2) by blast
qed

lemma job_reach_inv:
  "job_reach print s s' \<Longrightarrow> job_inv s \<Longrightarrow> job_inv s' \<and> pool_evolves (job_pool s) (job_pool s')"
proof (induction rule: rtranclp_induct)
  case (step t u)
  then show ?case using job_step_inv [OF step(2)] pool_evolves_trans unfolding job_keeps_def by blast
qed simp

lemma job_created_inv:
  "buckets_migration_job_create sg tg old new paths disks = Some job \<Longrightarrow> job_inv (job_initial job files)"
  by (auto simp: buckets_migration_job_create_def job_initial_def job_inv_def pool_ok_def phase_Nil Let_def split: if_splits)


text \<open>C4: the states of a job.  However calls on a job and its worker threads interleave, the state
  changes only along the transitions of the table and, once completed or failed, never again; at
  most one start is past its first transition, so a job gets one scan and one worker pool, which
  every later state still has.\<close>

theorem migration_job_states:
  assumes "buckets_migration_job_create sg tg old new paths disks = Some job"
    and "job_reach print (job_initial job files) s"
  shows "length (filter pending_start (jb_calls s)) \<le> 1 \<and>
         (\<forall>s'. job_step print s s' \<longrightarrow>
            job_state s' = job_state s \<or> is_valid_transition (job_state s) (job_state s')) \<and>
         (\<forall>s'. job_reach print s s' \<and>
            job_state s \<in> {BUCKETS_MIGRATION_STATE_COMPLETED, BUCKETS_MIGRATION_STATE_FAILED} \<longrightarrow>
            job_state s' = job_state s) \<and>
         (\<forall>s' p. job_reach print s s' \<and> job_pool s = Some p \<longrightarrow> (\<exists>p'. job_pool s' = Some p' \<and> pool_reach p p'))"
proof -
  have inv: "job_inv s" using job_reach_inv [OF assms(2)] job_created_inv [OF assms(1)] by blast
  then have "phase (filter pending_start (jb_calls s)) s" by (simp add: job_inv_def)
  then have "length (filter pending_start (jb_calls s)) \<le> 1"
    using phase_single [of "[]" "hd (filter pending_start (jb_calls s))" "tl (filter pending_start (jb_calls s))" s]
    by (cases "filter pending_start (jb_calls s)") auto
  moreover have "job_state s' = job_state s"
    if "job_reach print s s'" "job_state s \<in> {BUCKETS_MIGRATION_STATE_COMPLETED, BUCKETS_MIGRATION_STATE_FAILED}" for s'
    using that(1)
  proof (induction rule: rtranclp_induct)
    case (step t u)
    then have "job_keeps t u" using job_step_inv [OF step(2)] job_reach_inv [OF step(1) inv] by blast
    then show ?case using step(3) that(2) by (auto simp: job_keeps_def)
  qed simp
  ultimately show ?thesis using job_step_inv [OF _ inv] job_reach_inv [OF _ inv]
    unfolding job_keeps_def pool_evolves_def by blast
qed


section \<open>What becomes of the tasks\<close>

lemma transition_target: "transition_state x s = (r, s') \<Longrightarrow> job_state s' = x \<or> job_state s' = job_state s"
  by (auto elim: transition_state_cases)

lemma wait_backlog:
  assumes "buckets_migration_job_wait print env c s = Some (c', s')"
  shows "(job_state s' = BUCKETS_MIGRATION_STATE_COMPLETED \<longrightarrow>
            job_state s = BUCKETS_MIGRATION_STATE_COMPLETED \<or> c = Wait_Complete) \<and>
         (c' = Wait_Active \<longrightarrow> tasks_left (job_pool s') = 0) \<and> (c' = Wait_Complete \<longrightarrow> c = Wait_Active)"
  using assms
proof (cases c)
  case Wait_Loop
  then show ?thesis using assms by (auto split: buckets_migration_state.splits)
next
  case Wait_Final
  then show ?thesis using assms by (auto split: prod.splits)
qed (auto simp: Let_def split: option.splits if_splits prod.splits)

lemma other_backlog:
  assumes "job_call_step print env c s = Some (c', s')" "call_op c \<noteq> Job_Start" "call_op c \<noteq> Job_Wait"
  shows "job_state s' = BUCKETS_MIGRATION_STATE_COMPLETED \<longrightarrow> job_state s = BUCKETS_MIGRATION_STATE_COMPLETED"
  using assms
proof (cases c)
  case Resume_Start
  then show ?thesis using assms by (auto simp: job_call_step_def Let_def split: option.splits prod.splits if_splits)
qed (auto simp: job_call_step_def split: option.splits prod.splits job_op.splits dest!: transition_target)

definition job_settled :: "buckets_migration_task list \<Rightarrow> job_system \<Rightarrow> bool" where
  "job_settled tasks s \<longleftrightarrow> job_inv s \<and> filter pending_start (jb_calls s) = [] \<and>
     job_state s \<noteq> BUCKETS_MIGRATION_STATE_IDLE \<and> jb_found s = Some tasks \<and> submitted (job_pool s) = Some tasks \<and>
     (job_state s = BUCKETS_MIGRATION_STATE_COMPLETED \<or> Wait_Active \<in> set (jb_calls s) \<or> Wait_Complete \<in> set (jb_calls s) \<longrightarrow>
        tasks_left (job_pool s) = 0)"

lemma settled_moves_on:
  assumes "moves_on s s'" "job_settled tasks s"
    and "job_state s' = BUCKETS_MIGRATION_STATE_COMPLETED \<Longrightarrow>
       job_state s = BUCKETS_MIGRATION_STATE_COMPLETED \<or> tasks_left (job_pool s) = 0"
  shows "job_settled tasks s'"
proof -
  have "job_state s' \<noteq> BUCKETS_MIGRATION_STATE_IDLE"
    using assms(1,2) by (cases "job_state s") (auto simp: moves_on_def job_settled_def)
  moreover have "job_inv s'" using moves_on_inv assms(1,2) by (simp add: job_settled_def)
  ultimately show ?thesis using assms unfolding job_settled_def moves_on_def by auto
qed

lemma settled_start:
  assumes "job_settled tasks s" "c \<in> set (jb_calls s)" "job_call_step print env c s = Some (c', s')" "call_op c = Job_Start"
  shows "s' = s \<and> (\<exists>r. c' = Returned Job_Start r)"
proof -
  have st: "buckets_migration_job_start env c s = Some (c', s')" using assms(3,4) by (simp add: job_call_step_def)
  have "\<not> pending_start c" using assms(1,2) by (simp add: job_settled_def filter_empty_conv)
  then have "c = Start_Scanning" using st assms(4) by (cases c) auto
  moreover have "\<not> is_valid_transition (job_state s) BUCKETS_MIGRATION_STATE_SCANNING"
    using assms(1) by (cases "job_state s") (auto simp: job_settled_def)
  ultimately show ?thesis using st by (auto simp: transition_state_def)
qed

lemma settled_run:
  assumes "job_settled tasks s" "i < length (jb_calls s)" "job_call_step print env (jb_calls s ! i) s = Some (c', s')"
  shows "job_settled tasks (s'\<lparr>jb_calls := (jb_calls s')[i := c']\<rparr>)"
proof -
  let ?c = "jb_calls s ! i" and ?s = "s'\<lparr>jb_calls := (jb_calls s')[i := c']\<rparr>"
  have mem: "?c \<in> set (jb_calls s)" using assms(2) by simp
  have inv: "job_inv s" "call_ok s ?c" using assms(1) mem by (auto simp: job_settled_def job_inv_def list_all_iff)
  have inv': "job_inv ?s" using run_inv [OF inv(1) assms(2,3)] by blast
  have sub: "set ((jb_calls s)[i := c']) \<subseteq> insert c' (set (jb_calls s))" by (rule set_update_subset_insert)
  have nopend: "filter pending_start ((jb_calls s)[i := c']) = []" if "\<not> pending_start c'"
    using that sub assms(1) unfolding job_settled_def filter_empty_conv by blast
  show ?thesis
  proof (cases "call_op ?c = Job_Start")
    case True
    then obtain r where "s' = s" "c' = Returned Job_Start r" using settled_start [OF assms(1) mem assms(3)] by blast
    then show ?thesis using assms(1) inv' nopend sub by (auto simp: job_settled_def)
  next
    case False
    note step = other_call_step [OF inv(2) assms(3) False]
    have bl: "(job_state s' = BUCKETS_MIGRATION_STATE_COMPLETED \<longrightarrow>
            job_state s = BUCKETS_MIGRATION_STATE_COMPLETED \<or> ?c = Wait_Complete) \<and>
         (c' = Wait_Active \<longrightarrow> tasks_left (job_pool s') = 0) \<and> (c' = Wait_Complete \<longrightarrow> ?c = Wait_Active)"
    proof (cases "call_op ?c = Job_Wait")
      case True
      then show ?thesis using wait_backlog assms(3) by (simp add: job_call_step_def)
    next
      case neq: False
      then have "c' \<noteq> Wait_Active" "c' \<noteq> Wait_Complete" using step by auto
      then show ?thesis using other_backlog [OF assms(3) False neq] by blast
    qed
    have "?c = Wait_Complete \<or> ?c = Wait_Active \<Longrightarrow> tasks_left (job_pool s) = 0" using assms(1) mem by (auto simp: job_settled_def)
    then have set': "job_settled tasks s'" using settled_moves_on [of s s' tasks] step assms(1) bl by blast
    have le: "tasks_left (job_pool s') \<le> tasks_left (job_pool s)" "jb_calls s' = jb_calls s" using step by (auto simp: moves_on_def)
    have "\<not> pending_start c'" using step False pending_start_op by metis
    moreover have "c' = Wait_Active \<or> c' = Wait_Complete \<Longrightarrow> tasks_left (job_pool s') = 0"
      using bl le assms(1) mem by (auto simp: job_settled_def)
    ultimately show ?thesis using set' inv' nopend sub le(2) unfolding job_settled_def by auto
  qed
qed


lemma settled_step:
  assumes "job_step print s s'" "job_settled tasks s"
  shows "job_settled tasks s'"
  using assms(1)
proof (cases rule: job_step.cases)
  case (call op)
  have "job_inv s'" using job_step_inv [OF assms(1)] assms(2) by (simp add: job_settled_def)
  moreover have "job_enter op (job_state s) \<noteq> Wait_Active" "job_enter op (job_state s) \<noteq> Wait_Complete"
    "\<not> pending_start (job_enter op (job_state s))"
    by (cases op; simp)+
  ultimately show ?thesis using assms(2) call by (auto simp: job_settled_def)
next
  case (run i env c s'')
  then show ?thesis using settled_run [OF assms(2)] by simp
next
  case (work p i w p')
  then show ?thesis using settled_moves_on [OF work_moves_on [OF work(2-4)] assms(2)] by simp
next
  case progress
  then have "moves_on s s'" "job_state s' = job_state s"
    by (auto intro!: moves_on_keep simp: buckets_migration_job_get_progress_def Let_def)
  then show ?thesis using settled_moves_on [OF _ assms(2)] by metis
next
  case (callback cb)
  then have "moves_on s s'" "job_state s' = job_state s"
    by (auto intro!: moves_on_keep simp: buckets_migration_job_set_callback_def)
  then show ?thesis using settled_moves_on [OF _ assms(2)] by metis
next
  case (save now env path)
  then have "moves_on s s'" "job_state s' = job_state s" by (auto intro!: moves_on_keep)
  then show ?thesis using settled_moves_on [OF _ assms(2)] by metis
qed

lemma settled_reach: "job_reach print s s' \<Longrightarrow> job_settled tasks s \<Longrightarrow> job_settled tasks s'"
  by (induction rule: rtranclp_induct) (auto dest: settled_step)

text \<open>C5: a started job migrates exactly what its scan found.  Once no start is under way and the
  job is migrating or paused, with nobody yet seeing an empty queue, then in every later state
  the tasks accepted by its pool are those the scan returned; each of them is queued, held by a
  worker, or carried out exactly once.  If the job is completed then no task is queued, so every
  object found has been carried out or is in the hands of a worker.\<close>

theorem migration_job_tasks:
  assumes "buckets_migration_job_create sg tg old new paths disks = Some job"
    and "job_reach print (job_initial job files) s0" "filter pending_start (jb_calls s0) = []"
    and "job_state s0 \<in> {BUCKETS_MIGRATION_STATE_MIGRATING, BUCKETS_MIGRATION_STATE_PAUSED}"
    and "Wait_Active \<notin> set (jb_calls s0)" "Wait_Complete \<notin> set (jb_calls s0)" "job_reach print s0 s"
  shows "\<exists>tasks p. jb_found s = Some tasks \<and> jb_found s0 = Some tasks \<and> job_pool s = Some p \<and> ps_submitted p = tasks \<and>
           mset tasks = mset (queue_items (wp_queue (ps_pool p))) + mset (tasks_in_flight p) + mset (map fst (ps_executed p)) \<and>
           (job_state s = BUCKETS_MIGRATION_STATE_COMPLETED \<longrightarrow> queue_items (wp_queue (ps_pool p)) = [])"
proof -
  have inv: "job_inv s0" using job_reach_inv [OF assms(2)] job_created_inv [OF assms(1)] by blast
  then have "phase [] s0" using assms(3) by (simp add: job_inv_def)
  then obtain tasks where found: "jb_found s0 = Some tasks" "submitted (job_pool s0) = Some tasks"
    using assms(4) by (auto simp: phase_Nil)
  then have "job_settled tasks s0" using inv assms(3-6) by (auto simp: job_settled_def)
  then have st: "job_settled tasks s" using settled_reach [OF assms(7)] by blast
  then obtain p where p: "job_pool s = Some p" "ps_submitted p = tasks" by (auto simp: job_settled_def submitted_def)
  have "pool_ok (Some p)" using st p(1) by (auto simp: job_settled_def job_inv_def)
  then have "pool_balanced p" using pool_reach_inv pool_created_inv unfolding pool_ok_def by blast
  moreover have "job_state s = BUCKETS_MIGRATION_STATE_COMPLETED \<longrightarrow> queue_items (wp_queue (ps_pool p)) = []"
    using st p(1) queue_items_empty_iff by (auto simp: job_settled_def)
  ultimately show ?thesis using st p found(1) by (auto simp: job_settled_def pool_balanced_def)
qed


section \<open>Checkpoints\<close>

text \<open>\<^verbatim>\<open>(i64)cJSON_GetNumberValue(item)\<close>: for an item that is not a number the value is not a number
  and the conversion is undefined, as it is for a number out of range.  An absent item leaves the
  field as it is.\<close>

fun number_value :: "json \<Rightarrow> int outcome" where
  "number_value (JNum n) = i64_result n"
| "number_value _ = Undefined"

definition load_number :: "json \<Rightarrow> string \<Rightarrow> (int \<Rightarrow> 'a \<Rightarrow> 'a) \<Rightarrow> 'a outcome \<Rightarrow> 'a outcome" where
  "load_number root name assign job =
    (case (job, get_object_item_ci root name) of
       (Ok j, None) \<Rightarrow> Ok j
     | (Ok j, Some item) \<Rightarrow> (case number_value item of Ok n \<Rightarrow> Ok (assign n j) | _ \<Rightarrow> Undefined)
     | _ \<Rightarrow> job)"

text \<open>The state is converted to an unsigned enumeration.\<close>

definition load_state :: "json \<Rightarrow> buckets_migration_job outcome \<Rightarrow> buckets_migration_job outcome" where
  "load_state root job =
    (case (job, get_object_item_ci root ''state'') of
       (Ok j, None) \<Rightarrow> Ok j
     | (Ok j, Some (JNum n)) \<Rightarrow> if 0 \<le> n \<and> n < 2 ^ 32 then Ok (j\<lparr>mj_state := state_of_code n\<rparr>) else Undefined
     | _ \<Rightarrow> Undefined)"

definition zero_job :: buckets_migration_job where
  "zero_job = \<lparr>mj_job_id = [], mj_source_generation = 0, mj_target_generation = 0, mj_start_time = 0,
     mj_state = BUCKETS_MIGRATION_STATE_IDLE, mj_total_objects = 0, mj_migrated_objects = 0, mj_failed_objects = 0,
     mj_bytes_total = 0, mj_bytes_migrated = 0, mj_old_topology = None, mj_new_topology = None, mj_disk_paths = None,
     mj_disk_count = 0, mj_scanner = None, mj_worker_pool = None, mj_last_checkpoint_time = 0,
     mj_last_checkpoint_objects = 0, mj_checkpoint_path = [], mj_callback = False\<rparr>"

definition load_fields :: "json \<Rightarrow> buckets_migration_job \<Rightarrow> buckets_migration_job outcome" where
  "load_fields root job =
    (let job = load_state root (Ok job);
         job = load_number root ''start_time'' (\<lambda>n. mj_start_time_update (\<lambda>_. n)) job;
         job = load_number root ''total_objects'' (\<lambda>n. mj_total_objects_update (\<lambda>_. n)) job;
         job = load_number root ''migrated_objects'' (\<lambda>n. mj_migrated_objects_update (\<lambda>_. n)) job;
         job = load_number root ''failed_objects'' (\<lambda>n. mj_failed_objects_update (\<lambda>_. n)) job;
         job = load_number root ''bytes_total'' (\<lambda>n. mj_bytes_total_update (\<lambda>_. n)) job
     in load_number root ''bytes_migrated'' (\<lambda>n. mj_bytes_migrated_update (\<lambda>_. n)) job)"

definition load_job :: "json \<Rightarrow> buckets_migration_job option outcome" where
  "load_job root =
    (case get_object_item_ci root ''job_id'' of
       Some (JStr job_id) \<Rightarrow>
         (case (get_object_item_ci root ''source_generation'', get_object_item_ci root ''target_generation'') of
            (Some source, Some target) \<Rightarrow>
              (case (number_value source, number_value target) of
                 (Ok source_gen, Ok target_gen) \<Rightarrow>
                   (case load_fields root
                          (zero_job\<lparr>mj_job_id := snprintf_s 64 job_id, mj_source_generation := source_gen,
                                    mj_target_generation := target_gen\<rparr>) of
                      Ok job \<Rightarrow> Ok (Some job)
                    | _ \<Rightarrow> Undefined)
               | _ \<Rightarrow> Undefined)
          | _ \<Rightarrow> Ok None)
     | _ \<Rightarrow> Ok None)"

definition buckets_migration_job_load ::
  "(string \<Rightarrow> json option) \<Rightarrow> (string \<Rightarrow> bool) \<Rightarrow> fs \<Rightarrow> string option \<Rightarrow> buckets_migration_job option outcome" where
  "buckets_migration_job_load parse rd files path =
    (case path of
       None \<Rightarrow> Ok None
     | Some path \<Rightarrow>
         (case buckets_atomic_read rd files path of
            Ok data \<Rightarrow> (case parse data of None \<Rightarrow> Ok None | Some root \<Rightarrow> load_job root)
          | _ \<Rightarrow> Ok None))"

definition buckets_migration_job_resume_from_checkpoint ::
  "(string \<Rightarrow> json option) \<Rightarrow> (string \<Rightarrow> bool) \<Rightarrow> int \<Rightarrow> fs \<Rightarrow> string option \<Rightarrow> buckets_cluster_topology option
     \<Rightarrow> buckets_cluster_topology option \<Rightarrow> string list option \<Rightarrow> int \<Rightarrow> buckets_migration_job option outcome" where
  "buckets_migration_job_resume_from_checkpoint parse rd now files path old_topology new_topology disk_paths disk_count =
    (if path = None \<or> old_topology = None \<or> new_topology = None \<or> disk_paths = None \<or> disk_count \<le> 0 then Ok None
     else case buckets_migration_job_load parse rd files path of
       Ok (Some job) \<Rightarrow>
         Ok (Some (job\<lparr>mj_old_topology := old_topology, mj_new_topology := new_topology, mj_disk_paths := disk_paths,
                       mj_disk_count := disk_count, mj_checkpoint_path := take 255 (the path),
                       mj_last_checkpoint_time := now, mj_last_checkpoint_objects := mj_migrated_objects job,
                       mj_state := (if mj_state job = BUCKETS_MIGRATION_STATE_MIGRATING
                                    then BUCKETS_MIGRATION_STATE_PAUSED else mj_state job)\<rparr>))
     | r \<Rightarrow> r)"

lemma load_job_pool:
  assumes "load_job root = Ok (Some job)"
  shows "mj_worker_pool job = None"
proof -
  have num: "mj_worker_pool j' = None"
    if "load_number root name (\<lambda>n. f (\<lambda>_. n)) r = Ok j'" "\<And>j. r = Ok j \<Longrightarrow> mj_worker_pool j = None"
      "\<And>g j. mj_worker_pool (f g j) = mj_worker_pool j" for name f r and j' :: buckets_migration_job
    using that by (auto simp: load_number_def split: outcome.splits option.splits)
  have st: "mj_worker_pool j' = None" if "load_state root r = Ok j'" "\<And>j. r = Ok j \<Longrightarrow> mj_worker_pool j = None" for r j'
    using that by (auto simp: load_state_def split: outcome.splits option.splits json.splits if_splits)
  obtain j where "load_fields root j = Ok job" and j: "mj_worker_pool j = None"
    using assms by (auto simp: load_job_def zero_job_def split: option.splits json.splits outcome.splits)
  note chain = this(1) [unfolded load_fields_def Let_def]
  show ?thesis
    by (rule num [OF chain], (erule num, (erule num, (erule num, (erule num, (erule num, (erule st, use j in simp)))))))
       simp_all
qed

lemma checkpoint_items:
  "get_object_item_ci (checkpoint_json now job) ''job_id'' = Some (JStr (mj_job_id job))"
  "get_object_item_ci (checkpoint_json now job) ''source_generation'' = Some (JNum (double_of_int (mj_source_generation job)))"
  "get_object_item_ci (checkpoint_json now job) ''target_generation'' = Some (JNum (double_of_int (mj_target_generation job)))"
  "get_object_item_ci (checkpoint_json now job) ''state'' = Some (JNum (double_of_int (state_code (mj_state job))))"
  "get_object_item_ci (checkpoint_json now job) ''start_time'' = Some (JNum (double_of_int (mj_start_time job)))"
  "get_object_item_ci (checkpoint_json now job) ''total_objects'' = Some (JNum (double_of_int (mj_total_objects job)))"
  "get_object_item_ci (checkpoint_json now job) ''migrated_objects'' = Some (JNum (double_of_int (mj_migrated_objects job)))"
  "get_object_item_ci (checkpoint_json now job) ''failed_objects'' = Some (JNum (double_of_int (mj_failed_objects job)))"
  "get_object_item_ci (checkpoint_json now job) ''bytes_total'' = Some (JNum (double_of_int (mj_bytes_total job)))"
  "get_object_item_ci (checkpoint_json now job) ''bytes_migrated'' = Some (JNum (double_of_int (mj_bytes_migrated job)))"
  by (simp_all add: checkpoint_json_def tolower_def)


lemma state_of_code_inverse [simp]: "state_of_code (state_code st) = st"
  by (cases st) (simp_all add: state_of_code_def)

lemma state_code_small: "(\<And>n. st \<noteq> Other_State n) \<Longrightarrow> 0 \<le> state_code st \<and> state_code st \<le> 5"
  by (cases st) (simp_all, blast)

text \<open>What a checkpoint keeps of a job.\<close>

definition restored :: "buckets_migration_job \<Rightarrow> buckets_migration_job" where
  "restored job = zero_job
     \<lparr>mj_job_id := mj_job_id job, mj_source_generation := mj_source_generation job,
      mj_target_generation := mj_target_generation job, mj_state := mj_state job, mj_start_time := mj_start_time job,
      mj_total_objects := mj_total_objects job, mj_migrated_objects := mj_migrated_objects job,
      mj_failed_objects := mj_failed_objects job, mj_bytes_total := mj_bytes_total job,
      mj_bytes_migrated := mj_bytes_migrated job\<rparr>"

definition job_numbers :: "buckets_migration_job \<Rightarrow> int list" where
  "job_numbers job =
     [mj_source_generation job, mj_target_generation job, mj_start_time job, mj_total_objects job, mj_migrated_objects job,
      mj_failed_objects job, mj_bytes_total job, mj_bytes_migrated job]"

lemma number_value_exact: "\<bar>n\<bar> \<le> 2 ^ 53 \<Longrightarrow> number_value (JNum (double_of_int n)) = Ok n"
  by (simp add: in_i64_def abs_le_iff)

lemma load_checkpoint:
  assumes "length (mj_job_id job) < 64" "\<And>n. mj_state job \<noteq> Other_State n" "list_all (\<lambda>n. \<bar>n\<bar> \<le> 2 ^ 53) (job_numbers job)"
  shows "load_job (checkpoint_json now job) = Ok (Some (restored job))"
proof -
  have small: "double_of_int (state_code (mj_state job)) = state_code (mj_state job)"
    using state_code_small [OF assms(2)] by simp
  have num: "load_number (checkpoint_json now job) name f (Ok j) = Ok (f n j)"
    if "get_object_item_ci (checkpoint_json now job) name = Some (JNum (double_of_int n))" "\<bar>n\<bar> \<le> 2 ^ 53" for name f j n
    using that number_value_exact by (simp add: load_number_def)
  have st: "load_state (checkpoint_json now job) (Ok j) = Ok (j\<lparr>mj_state := mj_state job\<rparr>)" for j
    using state_code_small [OF assms(2)] by (simp add: load_state_def checkpoint_items small)
  note loads = num [OF checkpoint_items(5)] num [OF checkpoint_items(6)] num [OF checkpoint_items(7)]
    num [OF checkpoint_items(8)] num [OF checkpoint_items(9)] num [OF checkpoint_items(10)]
  have nums: "\<bar>mj_source_generation job\<bar> \<le> 2 ^ 53" "\<bar>mj_target_generation job\<bar> \<le> 2 ^ 53" "\<bar>mj_start_time job\<bar> \<le> 2 ^ 53"
    "\<bar>mj_total_objects job\<bar> \<le> 2 ^ 53" "\<bar>mj_migrated_objects job\<bar> \<le> 2 ^ 53" "\<bar>mj_failed_objects job\<bar> \<le> 2 ^ 53"
    "\<bar>mj_bytes_total job\<bar> \<le> 2 ^ 53" "\<bar>mj_bytes_migrated job\<bar> \<le> 2 ^ 53"
    using assms(3) by (simp_all add: job_numbers_def)
  show ?thesis unfolding load_job_def load_fields_def checkpoint_items(1-3) Let_def
    using assms(1) by (simp only: json.case option.case prod.case outcome.case number_value_exact st loads nums)
      (simp add: restored_def zero_job_def)
qed

text \<open>A checkpoint restores a job.  If the parser reads back what the printer wrote and the
  numbers are below \<open>2 ^ 53\<close> in size, then loading after a successful save returns the name, the
  generations, the state and the counters of the job.  Moreover, in every state the files pass
  through while the checkpoint is saved, successful or not, loading gives what it gave before or
  the new checkpoint.\<close>

lemma migration_checkpoint_roundtrip:
  assumes "parse (print (checkpoint_json now job)) = Some (checkpoint_json now job)"
    and "length (mj_job_id job) < 64" "\<And>n. mj_state job \<noteq> Other_State n" "list_all (\<lambda>n. \<bar>n\<bar> \<le> 2 ^ 53) (job_numbers job)"
    and "rd path"
  shows "(\<forall>files'. buckets_migration_job_save print now env job files (Some path) = (BUCKETS_OK, files') \<longrightarrow>
            buckets_migration_job_load parse rd files' (Some path) = Ok (Some (restored job))) \<and>
         (\<forall>files' \<in> set (snd (buckets_atomic_write env files path (print (checkpoint_json now job)))).
            buckets_migration_job_load parse rd files' (Some path) = buckets_migration_job_load parse rd files (Some path) \<or>
            buckets_migration_job_load parse rd files' (Some path) = Ok (Some (restored job)))"
proof -
  let ?data = "print (checkpoint_json now job)"
  have new: "buckets_migration_job_load parse rd files' (Some path) = Ok (Some (restored job))" if "files' path = Some ?data" for files'
    using that assms load_checkpoint [OF assms(2,3,4)] by (simp add: buckets_migration_job_load_def buckets_atomic_read_def)
  have old: "buckets_migration_job_load parse rd files' (Some path) = buckets_migration_job_load parse rd files (Some path)"
    if "files' path = files path" for files'
    using that by (simp add: buckets_migration_job_load_def buckets_atomic_read_def)
  have "files' path = Some ?data" if "buckets_migration_job_save print now env job files (Some path) = (BUCKETS_OK, files')" for files'
    using that atomic_write_ok [of env files path ?data files'] by (auto simp: buckets_migration_job_save_def)
  moreover have "files' path = files path \<or> files' path = Some ?data"
    if "files' \<in> set (snd (buckets_atomic_write env files path ?data))" for files'
    using that by (auto simp: buckets_atomic_write_def Let_def split: if_splits)
  ultimately show ?thesis using new old by blast
qed


section \<open>A job loaded from a checkpoint\<close>

text \<open>Its worker pool is not created again, so these are all its calls can reach.\<close>

fun stuck_call :: "job_call \<Rightarrow> bool" where
  "stuck_call (Returned op r) = True"
| "stuck_call c \<longleftrightarrow> c \<in> {Pause_Stop, Pause_Transition, Resume_Start, Resume_Transition, Stop_Pool, Stop_Transition,
     Wait_Loop, Wait_Progress, Wait_Save, Wait_Pool}"

definition stuck :: "int \<Rightarrow> job_system \<Rightarrow> bool" where
  "stuck migrated s \<longleftrightarrow> job_pool s = None \<and> jb_found s = None \<and> mj_migrated_objects (jb_job s) = migrated \<and>
     job_state s \<in> {BUCKETS_MIGRATION_STATE_PAUSED, BUCKETS_MIGRATION_STATE_MIGRATING, BUCKETS_MIGRATION_STATE_FAILED} \<and>
     list_all stuck_call (jb_calls s) \<and>
     (list_all (\<lambda>c. call_op c \<noteq> Job_Stop \<and> (\<forall>r. c \<noteq> Returned Job_Wait r)) (jb_calls s) \<and>
      job_state s \<noteq> BUCKETS_MIGRATION_STATE_FAILED \<or> (\<exists>c \<in> set (jb_calls s). call_op c = Job_Stop))"

lemma transition_migrated:
  "transition_state x s = (r, s') \<Longrightarrow> mj_migrated_objects (jb_job s') = mj_migrated_objects (jb_job s)"
  by (auto simp: transition_state_def split: if_splits)

lemma stuck_progress [simp]: "mj_worker_pool job = None \<Longrightarrow> update_progress job = job"
  by (simp add: update_progress_def)

lemma save_checkpoint_migrated [simp]:
  "mj_migrated_objects (jb_job (save_checkpoint_if_needed print env s)) = mj_migrated_objects (jb_job s)"
  by (auto simp: save_checkpoint_if_needed_def Let_def split: prod.split)

definition stuck_change :: "job_call \<Rightarrow> job_system \<Rightarrow> job_call \<Rightarrow> job_system \<Rightarrow> bool" where
  "stuck_change c s c' s' \<longleftrightarrow> stuck_call c' \<and> call_op c' = call_op c \<and> jb_calls s' = jb_calls s \<and> job_pool s' = None \<and>
     jb_found s' = jb_found s \<and> mj_migrated_objects (jb_job s') = mj_migrated_objects (jb_job s) \<and>
     job_state s' \<in> {BUCKETS_MIGRATION_STATE_PAUSED, BUCKETS_MIGRATION_STATE_MIGRATING, BUCKETS_MIGRATION_STATE_FAILED} \<and>
     (job_state s' = BUCKETS_MIGRATION_STATE_FAILED \<longrightarrow> job_state s = BUCKETS_MIGRATION_STATE_FAILED \<or> call_op c = Job_Stop) \<and>
     (\<forall>r. c' = Returned Job_Wait r \<longrightarrow> job_state s = BUCKETS_MIGRATION_STATE_FAILED)"

lemma stuck_transition:
  assumes "transition_state x s = (r, s')" "job_pool s = None"
    and "job_state s \<in> {BUCKETS_MIGRATION_STATE_PAUSED, BUCKETS_MIGRATION_STATE_MIGRATING, BUCKETS_MIGRATION_STATE_FAILED}"
    and "x \<in> {BUCKETS_MIGRATION_STATE_PAUSED, BUCKETS_MIGRATION_STATE_MIGRATING} \<or>
         x = BUCKETS_MIGRATION_STATE_FAILED \<and> call_op c = Job_Stop"
    and "call_op c \<noteq> Job_Wait"
  shows "stuck_change c s (Returned (call_op c) r) s'"
  using assms(1)
proof (cases rule: transition_state_cases)
  case moved
  then show ?thesis using assms transition_migrated [OF assms(1)] by (auto simp: stuck_change_def)
next
  case refused
  then show ?thesis using assms by (auto simp: stuck_change_def)
qed

lemma stuck_call_step:
  assumes "stuck_call c" "job_pool s = None" "job_call_step print env c s = Some (c', s')"
    and st: "job_state s \<in> {BUCKETS_MIGRATION_STATE_PAUSED, BUCKETS_MIGRATION_STATE_MIGRATING, BUCKETS_MIGRATION_STATE_FAILED}"
  shows "stuck_change c s c' s'"
proof (cases c)
  case Pause_Transition
  then obtain r where "transition_state BUCKETS_MIGRATION_STATE_PAUSED s = (r, s')" "c' = Returned (call_op c) r"
    using assms(3) by (auto simp: job_call_step_def split: prod.splits)
  then show ?thesis using stuck_transition [OF _ assms(2) st, of _ r s' c] Pause_Transition by simp
next
  case Resume_Transition
  then obtain r where "transition_state BUCKETS_MIGRATION_STATE_MIGRATING s = (r, s')" "c' = Returned (call_op c) r"
    using assms(3) by (auto simp: job_call_step_def split: prod.splits)
  then show ?thesis using stuck_transition [OF _ assms(2) st, of _ r s' c] Resume_Transition by simp
next
  case Stop_Transition
  then obtain r where "transition_state BUCKETS_MIGRATION_STATE_FAILED s = (r, s')" "c' = Returned (call_op c) r"
    using assms(3) by (auto simp: job_call_step_def split: prod.splits)
  then show ?thesis using stuck_transition [OF _ assms(2) st, of _ r s' c] Stop_Transition by simp
next
  case Wait_Loop
  then show ?thesis using assms by (auto simp: job_call_step_def stuck_change_def)
next
  case (Returned op r)
  then show ?thesis using assms(3) by (cases op) (simp_all add: job_call_step_def)
qed (use assms in \<open>auto simp: job_call_step_def stuck_change_def Let_def\<close>)


lemma stuck_enter:
  assumes "st \<in> {BUCKETS_MIGRATION_STATE_PAUSED, BUCKETS_MIGRATION_STATE_MIGRATING, BUCKETS_MIGRATION_STATE_FAILED}"
  shows "stuck_call (job_enter op st) \<and> (\<forall>r. job_enter op st \<noteq> Returned Job_Wait r) \<and> call_op (job_enter op st) = op"
  using assms by (cases op) auto

lemma stuck_run:
  assumes "stuck m s" "i < length (jb_calls s)" "job_call_step print env (jb_calls s ! i) s = Some (c', s')"
  shows "stuck m (s'\<lparr>jb_calls := (jb_calls s')[i := c']\<rparr>)"
proof -
  let ?c = "jb_calls s ! i"
  have mem: "?c \<in> set (jb_calls s)" using assms(2) by simp
  then have ch: "stuck_change ?c s c' s'"
    using stuck_call_step [OF _ _ assms(3)] assms(1) by (auto simp: stuck_def list_all_iff)
  have sub: "set ((jb_calls s)[i := c']) \<subseteq> insert c' (set (jb_calls s))" by (rule set_update_subset_insert)
  have new: "c' \<in> set ((jb_calls s)[i := c'])" using assms(2) by (rule set_update_memI)
  have "list_all stuck_call ((jb_calls s)[i := c'])" using sub assms(1) ch unfolding stuck_def stuck_change_def list_all_iff by blast
  moreover have "list_all (\<lambda>c. call_op c \<noteq> Job_Stop \<and> (\<forall>r. c \<noteq> Returned Job_Wait r)) ((jb_calls s)[i := c']) \<and>
      job_state s' \<noteq> BUCKETS_MIGRATION_STATE_FAILED \<or> (\<exists>c \<in> set ((jb_calls s)[i := c']). call_op c = Job_Stop)"
  proof (cases "\<exists>c \<in> set (jb_calls s). call_op c = Job_Stop")
    case True
    then obtain j where j: "j < length (jb_calls s)" "call_op (jb_calls s ! j) = Job_Stop" by (auto simp: in_set_conv_nth)
    then have "call_op ((jb_calls s)[i := c'] ! j) = Job_Stop" using ch by (cases "i = j") (auto simp: stuck_change_def)
    then show ?thesis using j(1) by (metis length_list_update nth_mem)
  next
    case False
    then have "list_all (\<lambda>c. call_op c \<noteq> Job_Stop \<and> (\<forall>r. c \<noteq> Returned Job_Wait r)) (jb_calls s)"
        "job_state s \<noteq> BUCKETS_MIGRATION_STATE_FAILED" "call_op ?c \<noteq> Job_Stop"
      using assms(1) mem by (auto simp: stuck_def)
    then show ?thesis using ch sub unfolding stuck_change_def list_all_iff by (metis insert_iff subset_iff)
  qed
  ultimately show ?thesis using assms(1) ch by (simp add: stuck_def stuck_change_def)
qed

lemma stuck_step:
  assumes "job_step print s s'" "stuck m s"
  shows "stuck m s'"
  using assms(1)
proof (cases rule: job_step.cases)
  case (call op)
  have "stuck_call (job_enter op (job_state s)) \<and> (\<forall>r. job_enter op (job_state s) \<noteq> Returned Job_Wait r) \<and>
      call_op (job_enter op (job_state s)) = op"
    using stuck_enter assms(2) unfolding stuck_def by blast
  then show ?thesis using assms(2) call by (cases "op = Job_Stop") (auto simp: stuck_def)
next
  case (run i env c s'')
  then show ?thesis using stuck_run [OF assms(2)] by simp
next
  case progress
  moreover have "snd (buckets_migration_job_get_progress (jb_job s)) = jb_job s"
    using assms(2) by (simp add: stuck_def buckets_migration_job_get_progress_def Let_def)
  ultimately show ?thesis using assms(2) by (simp add: stuck_def)
qed (use assms(2) in \<open>simp_all add: stuck_def buckets_migration_job_set_callback_def\<close>)

lemma stuck_reach: "job_reach print s s' \<Longrightarrow> stuck m s \<Longrightarrow> stuck m s'"
  by (induction rule: rtranclp_induct) (auto dest: stuck_step)

text \<open>C39: a job loaded from a checkpoint of a running migration makes no progress.  Whatever is
  called on it, in every reachable state it has no worker pool, has scanned nothing, and counts as
  many migrated objects as the checkpoint did; it is never completed.  While nobody stops it, it is
  paused or migrating and no wait returns.\<close>

theorem migration_resume_stuck:
  assumes "buckets_migration_job_resume_from_checkpoint parse rd now files path old new paths disks = Ok (Some job)"
    and "mj_state job = BUCKETS_MIGRATION_STATE_PAUSED" "job_reach print (job_initial job files) s"
  shows "job_pool s = None \<and> jb_found s = None \<and> mj_migrated_objects (jb_job s) = mj_migrated_objects job \<and>
         job_state s \<noteq> BUCKETS_MIGRATION_STATE_COMPLETED \<and>
         (list_all (\<lambda>c. call_op c \<noteq> Job_Stop) (jb_calls s) \<longrightarrow>
            job_state s \<in> {BUCKETS_MIGRATION_STATE_PAUSED, BUCKETS_MIGRATION_STATE_MIGRATING} \<and>
            (\<forall>r. Returned Job_Wait r \<notin> set (jb_calls s)))"
proof -
  have "mj_worker_pool job = None"
    using assms(1) unfolding buckets_migration_job_resume_from_checkpoint_def buckets_migration_job_load_def
    by (auto split: if_splits option.splits outcome.splits dest!: load_job_pool)
  then have "stuck (mj_migrated_objects job) (job_initial job files)" using assms(2) by (simp add: stuck_def job_initial_def)
  then have "stuck (mj_migrated_objects job) s" using stuck_reach [OF assms(3)] by blast
  then show ?thesis by (auto simp: stuck_def list_all_iff)
qed


section \<open>A small job\<close>

definition small_job :: buckets_migration_job where
  "small_job = zero_job
     \<lparr>mj_job_id := ''migration-gen-1-to-2'', mj_source_generation := 1, mj_target_generation := 2,
      mj_old_topology := Some (small_sets [[small_set]]), mj_new_topology := Some (small_sets [[], [small_set]]),
      mj_disk_paths := Some [''/d1''], mj_disk_count := 1, mj_checkpoint_path := ''/tmp/migration-gen-1-to-2.checkpoint''\<rparr>"

lemma small_job_created:
  "buckets_migration_job_create 1 2 (Some (small_sets [[small_set]])) (Some (small_sets [[], [small_set]])) (Some [''/d1'']) 1
     = Some small_job"
  by (simp add: buckets_migration_job_create_def small_job_def zero_job_def dec_int_def dec_nat.simps digit_char_def
      snprintf_s_def Let_def)

definition small_io :: "nat \<Rightarrow> io_env" where
  "small_io n = \<lparr>io_mkdir = BUCKETS_OK, io_fopen = True, io_written = n, io_fflush = True, io_fsync = True,
     io_rename = True, io_syncdir = BUCKETS_OK, io_pid = 7\<rparr>"

definition small_job_env :: job_env where
  "small_job_env = \<lparr>je_clock = (\<lambda>_. 0), je_io = small_io 0, je_spawned = 16, je_disks = small_disk\<rparr>"

lemma run_only_call:
  assumes "job_reach print s0 s" "jb_calls s = [c]" "job_call_step print env c s = Some (c', s')" "jb_calls s' = [c]"
  shows "job_reach print s0 (s'\<lparr>jb_calls := [c']\<rparr>)"
  using job_step.run [of 0 s print env c' s'] assms by (simp add: rtranclp.rtrancl_into_rtrancl)

lemma small_job_scanning:
  "job_reach print (job_initial small_job files)
     ((job_initial small_job files)\<lparr>jb_job := small_job\<lparr>mj_state := BUCKETS_MIGRATION_STATE_SCANNING\<rparr>, jb_calls := [Start_Scan]\<rparr>)"
proof -
  let ?s0 = "job_initial small_job files"
  have "job_step print ?s0 (?s0\<lparr>jb_calls := [Start_Scanning]\<rparr>)"
    using job_step.call [of print ?s0 Job_Start] by (simp add: job_initial_def small_job_def zero_job_def)
  then have "job_reach print ?s0 (?s0\<lparr>jb_calls := [Start_Scanning]\<rparr>)" by blast
  from run_only_call [OF this, of Start_Scanning undefined Start_Scan
      "?s0\<lparr>jb_job := small_job\<lparr>mj_state := BUCKETS_MIGRATION_STATE_SCANNING\<rparr>, jb_calls := [Start_Scanning]\<rparr>"]
  show ?thesis
    by (simp add: job_call_step_def transition_state_def fire_event_def job_initial_def small_job_def zero_job_def)
qed

lemma small_job_started:
  obtains s where "job_reach print (job_initial small_job files) s" "jb_calls s = [Returned Job_Start BUCKETS_OK]"
    "job_state s = BUCKETS_MIGRATION_STATE_MIGRATING" "jb_found s = Some [small_task]"
proof -
  let ?old = "small_sets [[small_set]]" and ?new = "small_sets [[], [small_set]]" and ?s0 = "job_initial small_job files"
  obtain sc where sc: "buckets_scanner_scan small_disk (small_scanner ?old ?new) = Ok ([small_task], sc)" by (rule small_scan)
  define s2 where "s2 = ?s0\<lparr>jb_job := small_job\<lparr>mj_state := BUCKETS_MIGRATION_STATE_SCANNING\<rparr>, jb_calls := [Start_Scan]\<rparr>"
  define j3 where "j3 = small_job\<lparr>mj_state := BUCKETS_MIGRATION_STATE_SCANNING, mj_scanner := Some sc, mj_total_objects := 1, mj_bytes_total := 7\<rparr>"
  define s3 where "s3 = ?s0\<lparr>jb_job := j3, jb_found := Some [small_task], jb_calls := [Start_Scanned [small_task]]\<rparr>"
  define j4 where "j4 = j3\<lparr>mj_state := BUCKETS_MIGRATION_STATE_MIGRATING\<rparr>"
  define s4 where "s4 = s3\<lparr>jb_job := j4, jb_calls := [Start_Pool [small_task]]\<rparr>"
  have init: "buckets_scanner_init (Some [''/d1'']) 1 (Some ?old) (Some ?new) = Some (small_scanner ?old ?new)"
    by (simp add: buckets_scanner_init_def small_scanner_def)
  have bytes: "total_bytes [small_task] = Ok 7" by (simp add: total_bytes_def small_task_def zero_task_def in_i64_def)
  have "job_call_step print small_job_env Start_Scan s2 = Some (Start_Scanned [small_task], s3\<lparr>jb_calls := [Start_Scan]\<rparr>)"
    using init sc bytes
    by (simp add: job_call_step_def s2_def s3_def j3_def small_job_env_def small_job_def zero_job_def job_initial_def Let_def)
  from run_only_call [OF small_job_scanning [of print files, folded s2_def] _ this]
  have 3: "job_reach print ?s0 s3" by (simp add: s2_def s3_def)
  have "job_call_step print small_job_env (Start_Scanned [small_task]) s3 =
      Some (Start_Pool [small_task], s4\<lparr>jb_calls := [Start_Scanned [small_task]]\<rparr>)"
    by (simp add: job_call_step_def transition_state_def fire_event_def s3_def s4_def j3_def j4_def small_job_def zero_job_def
        job_initial_def)
  from run_only_call [OF 3 _ this] have 4: "job_reach print ?s0 s4" by (simp add: s3_def s4_def)
  obtain pool where pool: "buckets_worker_pool_create 0 16 (Some ?old) (Some ?new) (Some [''/d1'']) 1 = Some pool"
      "wp_running pool = False" "wp_num_workers pool = 16" "wp_queue pool = task_queue_init 10000"
    by (simp add: buckets_worker_pool_create_def)
  obtain p where p: "buckets_worker_pool_start 0 16 (pool_initial pool) = (BUCKETS_OK, p)" "wp_running (ps_pool p)"
      "wp_queue (ps_pool p) = task_queue_init 10000"
    using pool(2-) by (simp add: buckets_worker_pool_start_def pool_initial_def)
  define s5 where "s5 = (set_pool (Some p) s4)\<lparr>jb_calls := [Start_Submit [small_task]]\<rparr>"
  have "job_call_step print small_job_env (Start_Pool [small_task]) s4 =
      Some (Start_Submit [small_task], s5\<lparr>jb_calls := [Start_Pool [small_task]]\<rparr>)"
    using pool(1) p(1)
    by (simp add: job_call_step_def s5_def s4_def s3_def j4_def j3_def small_job_env_def small_job_def zero_job_def job_initial_def)
  from run_only_call [OF 4 _ this] have 5: "job_reach print ?s0 s5" by (simp add: s4_def s5_def)
  obtain p' where p': "worker_pool_submit_one small_task p = Some (BUCKETS_OK, p')"
    using p(2,3) by (simp add: worker_pool_submit_one_def task_queue_push_def task_queue_init_def)
  define s6 where "s6 = (set_pool (Some p') s5)\<lparr>jb_calls := [Start_Submit []]\<rparr>"
  have "job_call_step print small_job_env (Start_Submit [small_task]) s5 =
      Some (Start_Submit [], s6\<lparr>jb_calls := [Start_Submit [small_task]]\<rparr>)"
    using p' by (simp add: job_call_step_def s6_def s5_def)
  from run_only_call [OF 5 _ this] have 6: "job_reach print ?s0 s6" by (simp add: s5_def s6_def)
  have "job_call_step print small_job_env (Start_Submit []) s6 = Some (Returned Job_Start BUCKETS_OK, s6)"
    by (simp add: job_call_step_def)
  from run_only_call [OF 6 _ this] have "job_reach print ?s0 (s6\<lparr>jb_calls := [Returned Job_Start BUCKETS_OK]\<rparr>)"
    by (simp add: s6_def)
  then show thesis by (rule that) (simp_all add: s6_def s5_def s4_def s3_def j4_def j3_def)
qed

theorem migration_job_states_witness:
  "\<exists>s. job_reach (\<lambda>_. []) (job_initial small_job (\<lambda>_. None)) s \<and> job_state s = BUCKETS_MIGRATION_STATE_SCANNING \<and>
     length (filter pending_start (jb_calls s)) = 1"
proof -
  let ?s = "(job_initial small_job (\<lambda>_. None))
    \<lparr>jb_job := small_job\<lparr>mj_state := BUCKETS_MIGRATION_STATE_SCANNING\<rparr>, jb_calls := [Start_Scan]\<rparr>"
  have "length (filter pending_start (jb_calls ?s)) \<le> 1"
    using migration_job_states [OF small_job_created small_job_scanning [of "\<lambda>_. []" "\<lambda>_. None"]] by blast
  then show ?thesis using small_job_scanning [of "\<lambda>_. []" "\<lambda>_. None"] by (intro exI [of _ ?s]) simp
qed

theorem migration_job_tasks_witness:
  "\<exists>s p. job_reach (\<lambda>_. []) (job_initial small_job (\<lambda>_. None)) s \<and> job_pool s = Some p \<and> ps_submitted p = [small_task]"
proof -
  obtain s where s: "job_reach (\<lambda>_. []) (job_initial small_job (\<lambda>_. None)) s" "jb_calls s = [Returned Job_Start BUCKETS_OK]"
    "job_state s = BUCKETS_MIGRATION_STATE_MIGRATING" "jb_found s = Some [small_task]"
    by (rule small_job_started)
  then show ?thesis using migration_job_tasks [OF small_job_created s(1), of s] by auto
qed


theorem migration_resume_stuck_witness:
  "\<exists>job. buckets_migration_job_resume_from_checkpoint
       (\<lambda>_. Some (checkpoint_json 9 (small_job\<lparr>mj_state := BUCKETS_MIGRATION_STATE_MIGRATING, mj_migrated_objects := 5\<rparr>)))
       (\<lambda>_. True) 10 [''/c'' \<mapsto> ''x''] (Some ''/c'') (mj_old_topology small_job) (mj_new_topology small_job) (Some [''/d1'']) 1 =
     Ok (Some job) \<and> mj_migrated_objects job = 5 \<and>
     (\<exists>s. job_reach (\<lambda>_. []) (job_initial job [''/c'' \<mapsto> ''x'']) s \<and> jb_calls s = [Resume_Start] \<and> job_pool s = None)"
proof -
  let ?job = "small_job\<lparr>mj_state := BUCKETS_MIGRATION_STATE_MIGRATING, mj_migrated_objects := 5\<rparr>"
  have load: "load_job (checkpoint_json 9 ?job) = Ok (Some (restored ?job))"
    by (rule load_checkpoint) (simp_all add: small_job_def zero_job_def job_numbers_def)
  obtain job where job: "buckets_migration_job_resume_from_checkpoint (\<lambda>_. Some (checkpoint_json 9 ?job))
       (\<lambda>_. True) 10 [''/c'' \<mapsto> ''x''] (Some ''/c'') (mj_old_topology small_job) (mj_new_topology small_job) (Some [''/d1'']) 1 =
     Ok (Some job)" "mj_state job = BUCKETS_MIGRATION_STATE_PAUSED" "mj_migrated_objects job = 5"
    using load by (simp add: buckets_migration_job_resume_from_checkpoint_def buckets_migration_job_load_def
        buckets_atomic_read_def restored_def small_job_def)
  have "job_step (\<lambda>_. []) (job_initial job [''/c'' \<mapsto> ''x'']) ((job_initial job [''/c'' \<mapsto> ''x''])\<lparr>jb_calls := [Resume_Start]\<rparr>)"
    using job_step.call [of "\<lambda>_. []" "job_initial job [''/c'' \<mapsto> ''x'']" Job_Resume] job(2) by (simp add: job_initial_def)
  then have reach: "job_reach (\<lambda>_. []) (job_initial job [''/c'' \<mapsto> ''x'']) ((job_initial job [''/c'' \<mapsto> ''x''])\<lparr>jb_calls := [Resume_Start]\<rparr>)"
    by blast
  have "job_pool ((job_initial job [''/c'' \<mapsto> ''x''])\<lparr>jb_calls := [Resume_Start]\<rparr>) = None"
    using migration_resume_stuck [OF job(1,2) reach] by blast
  then show ?thesis using job(1,3) reach
    by (intro exI [of _ job] conjI exI [of _ "(job_initial job [''/c'' \<mapsto> ''x''])\<lparr>jb_calls := [Resume_Start]\<rparr>"]) simp_all
qed


end
