(* ===== verification/Spec2Isabelle.thy ===== *)
theory Spec2Isabelle
  imports SipHash XXHash Hash_Ring Cluster_Io Json_Text Topology_Manager Placement Registry_List Throttle Migration_Job
begin

text \<open>
  A verification development for the object store in \<^verbatim>\<open>src/\<close>: a cluster of nodes whose disks are
  grouped into pools of erasure sets.  The topology says which sets exist, a consistent-hash ring places every
  object on a set, a registry remembers where each version of an object was put, and a migration moves objects
  when the topology changes.

  \<^bold>\<open>How the parts depend on each other.\<close>  Hashes (SipHash, xxHash) feed the hash ring and the placement
  ring.  The topology is a record that is written as JSON text by the atomic file replacement to every disk and read
  back by a vote of the disks; the manager changes it and the placement is rebuilt from it.  The registry keeps
  locations as JSON text in the object layer, with a cache in front.  A migration job compares the rings of two
  topologies by scanning the disks, gives the resulting tasks to worker threads behind a bounded queue and a bandwidth
  limit, and saves checkpoints with the atomic file replacement.

  \<^bold>\<open>Theories and sources.\<close>
  \<^item> \<^verbatim>\<open>Buckets_Prelude\<close>: the integer types and error codes of \<^verbatim>\<open>include/buckets.h\<close>, the outcome of
    a C function (a value, an error code, or undefined behaviour), byte arrays and little-endian reads, and the parts of
    the C library the sources use on strings.
  \<^item> \<^verbatim>\<open>Hash_Stream\<close>: the contract of a hash that absorbs its input in blocks (locales \<open>block_hash\<close>
    and \<open>block_hash_digest\<close>).  \<^verbatim>\<open>SipHash\<close> (\<^verbatim>\<open>hash/siphash.c\<close>) and \<^verbatim>\<open>XXHash\<close>
    (\<^verbatim>\<open>hash/xxhash.c\<close>) interpret it: feeding the input in any pieces gives the one-shot hash.
  \<^item> \<^verbatim>\<open>Ring_Search\<close>: clockwise search on a sorted ring (locale \<open>ring_search\<close>), interpreted by
    \<^verbatim>\<open>Hash_Ring\<close> (\<^verbatim>\<open>hash/ring.c\<close>: create, add, remove, lookup, lookup of several nodes) and by
    \<^verbatim>\<open>Placement\<close> (\<^verbatim>\<open>placement/placement.c\<close>).  They show that the ring stays sorted and complete,
    that a lookup returns the nearest node, and that adding or draining moves only the objects it has to move.
  \<^item> \<^verbatim>\<open>Cluster_Io\<close>: \<^verbatim>\<open>cluster/atomic_io.c\<close> as the list of file-system states a write passes
    through, the paths of the metadata files, and the typed access to JSON trees (\<^verbatim>\<open>cluster/json_helpers.c\<close>).
    Every state a write passes through has the old or the new content.
  \<^item> \<^verbatim>\<open>Json_Text\<close>: the printer and the parser of \<^verbatim>\<open>third_party/cJSON/cJSON.c\<close>.  Printing then
    parsing gives the tree back, and the parser ends on every input.
  \<^item> \<^verbatim>\<open>Topology\<close> (\<^verbatim>\<open>cluster/topology.c\<close>) and \<^verbatim>\<open>Topology_Manager\<close>
    (\<^verbatim>\<open>cluster/topology_manager.c\<close>, \<^verbatim>\<open>cluster/cache.c\<close>): the topology, its changes, its JSON
    form, writing and reading it with a quorum, and the manager, which changes the cached topology only when the quorum
    write succeeded.
  \<^item> \<^verbatim>\<open>Lru_List\<close>, \<^verbatim>\<open>Registry_Cache\<close>, \<^verbatim>\<open>Registry\<close>, \<^verbatim>\<open>Registry_List\<close>
    (\<^verbatim>\<open>registry/registry.c\<close>): the location cache as a heap of entries linked by pointers, which refines an
    abstract least-recently-used cache (locale \<open>location_cache\<close>), and the registry on top of it.
  \<^item> \<^verbatim>\<open>Base64\<close>: the two forms of the base64 encoder and the four decoders of the files of
    \<^verbatim>\<open>storage/\<close> and of the registry.
  \<^item> \<^verbatim>\<open>Throttle\<close>, \<^verbatim>\<open>Migration_Worker\<close>, \<^verbatim>\<open>Migration_Scanner\<close>,
    \<^verbatim>\<open>Migration_Job\<close> (\<^verbatim>\<open>migration/throttle.c\<close>, \<^verbatim>\<open>worker.c\<close>,
    \<^verbatim>\<open>scanner.c\<close>, \<^verbatim>\<open>orchestrator.c\<close>): the token bucket, the task queue (locale
    \<open>task_fifo\<close>) and its worker threads as a step relation, the scan, and the state machine of a job whose
    calls interleave with the workers.
  \<^item> This theory: what the components write as JSON text is what they read, with the printer and the parser of
    \<^verbatim>\<open>Json_Text\<close> in place of the arguments of the component theories.

  \<^bold>\<open>Conventions.\<close>  A structure of the code is a record whose fields carry a short prefix, an enumeration is a
  datatype, an unsigned integer is a word and a signed one an integer with its range written out.  An argument that may
  be NULL is an option.  A function that changes state takes and returns it; a function with undefined behaviour on
  some input (an access outside an array, a signed overflow) returns \<^const>\<open>Undefined\<close> there.  Threads are step
  relations whose steps are the sections between two lock operations.  What lies outside the sources is an argument:
  the results of system calls, the clock, random bytes, the disk trees; and so are two interfaces of the storage layer,
  the object layer below the registry and the disk paths the multi-disk layer gives to the placement.

  \<^bold>\<open>Bounds.\<close>  Loops are structural recursions, or carry a decreasing length or counter, so all functions
  are total; the only counter that is not in the source is the allowance of nesting of the JSON parser, which is the
  constant \<^verbatim>\<open>CJSON_NESTING_LIMIT\<close> of its header counted down.  The throttle may wait for ever; when it
  returns is a theorem of its own.  JSON numbers are kept as integers: fractions are cut, as the code does when it reads
  them, and the round trip is claimed for numbers of at most fifteen digits, beyond which it fails.

  \<^bold>\<open>Where the code falls short.\<close>  Some theorems state behaviour that the sources did not intend: a read of
  a quorum with an odd number of disks may return the older of two topologies, a failed quorum write may be visible, a
  location of two gigabytes or more loses its size, two threads in the cache can use a freed entry, a decoder writes
  past its buffer, a wait for the worker pool can return before its tasks are done, a job loaded from a checkpoint never proceeds.  They hold of the code as it is.

  \<^bold>\<open>Not modelled.\<close>  Statistics and estimates in floating point and the jump hash, whose loop is one; memory
  exhaustion, which the program answers by aborting; the network layer, the request handlers of the S3 interface, the
  asynchronous and batched transports and the \<^verbatim>\<open>io_uring\<close> wrapper, which are calls into libuv, llhttp,
  liburing and OpenSSL with little logic of their own; SHA-256, which calls OpenSSL, and BLAKE2b; the configuration
  reader, the endpoint parser, the format file and the start-up of the server; and within the storage layer everything
  but base64, together with the erasure coding, which prepares buffers for the coding library.
\<close>

section \<open>What the components write as JSON text is read back\<close>

text \<open>The trees are shallow, their numbers have at most fifteen digits and their strings, which are C
  strings, hold no zero byte.\<close>

abbreviation c_string :: "string \<Rightarrow> bool" where
  "c_string s \<equiv> CHR 0x00 \<notin> set s"

definition json_within :: "nat \<Rightarrow> json \<Rightarrow> bool" where
  "json_within n j \<longleftrightarrow> json_ok j \<and> json_depth j \<le> n"

lemma json_within_simps [simp]:
  "json_within n (JNum i) \<longleftrightarrow> \<bar>i\<bar> < 10 ^ 15"
  "json_within n (JStr s) \<longleftrightarrow> c_string s"
  "json_within (Suc n) (JArr vs) \<longleftrightarrow> (\<forall>v\<in>set vs. json_within n v)"
  "json_within (Suc n) (JObj kvs) \<longleftrightarrow> (\<forall>(k, v)\<in>set kvs. c_string k \<and> json_within n v)"
  by (auto simp: json_within_def fold_max list_all_iff)

lemma json_within_text: "json_within n j \<Longrightarrow> n \<le> 1000 \<Longrightarrow> cJSON_Parse (json_text formatted j) = Some j"
  by (rule json_text_parse) (simp_all add: json_within_def)

lemma c_string_dec: "c_string (dec_nat n)"
  using digit_val_dec_nat [of "CHR 0x00" n] by (auto simp: digit_val_def)

definition disk_c_strings :: "buckets_disk_info \<Rightarrow> bool" where
  "disk_c_strings d \<longleftrightarrow> c_string (dk_uuid d) \<and> c_string (dk_endpoint d)"

definition topology_c_strings :: "buckets_cluster_topology \<Rightarrow> bool" where
  "topology_c_strings t \<longleftrightarrow> c_string (tp_deployment_id t) \<and>
     (\<forall>p\<in>set (tp_pools t). \<forall>s\<in>set (pl_sets p). \<forall>d\<in>set (st_disks s). disk_c_strings d)"

lemma in_i32_digits: "in_i32 n \<Longrightarrow> \<bar>n\<bar> < 10 ^ 15"
  by (auto simp: in_i32_def)

lemma c_string_take: "c_string s \<Longrightarrow> c_string (snprintf_s n s)"
  by (auto simp: snprintf_s_def dest: in_set_takeD)

lemma disk_within: "disk_c_strings d \<Longrightarrow> json_within (Suc n) (disk_to_json d)"
  by (simp add: disk_to_json_def json_simps disk_c_strings_def c_string_take c_string_dec)

lemma set_within:
  "in_i32 (st_idx s) \<Longrightarrow> \<forall>d\<in>set (st_disks s). disk_c_strings d \<Longrightarrow> json_within (Suc (Suc (Suc n))) (set_to_json s)"
  by (cases "st_state s") (simp_all add: set_to_json_def set_state_to_string_def json_simps disk_within in_i32_digits [simplified])

lemma pool_within:
  "in_i32 (pl_idx p) \<Longrightarrow> \<forall>s\<in>set (pl_sets p). in_i32 (st_idx s) \<and> (\<forall>d\<in>set (st_disks s). disk_c_strings d) \<Longrightarrow>
   json_within (Suc (Suc (Suc (Suc (Suc n))))) (pool_to_json p)"
  by (simp add: pool_to_json_def json_simps set_within in_i32_digits [simplified])

lemma topology_within:
  assumes "topology_fits t" "topology_c_strings t"
  shows "json_within (Suc (Suc (Suc (Suc (Suc (Suc (Suc 0))))))) (topology_to_json t)"
  using assms
  by (simp add: topology_to_json_def json_simps topology_fits_def topology_c_strings_def pool_within in_i32_digits [simplified]
      to_i32_range)

lemma topology_text:
  assumes "topology_fits t" "topology_c_strings t"
  shows "cJSON_Parse (json_text formatted (topology_to_json t)) = Some (topology_to_json t)"
  by (rule json_within_text [OF topology_within [OF assms]]) simp


text \<open>C1: with an even number of disks, a topology that was written to a majority of them as formatted JSON
  text is what a quorum read returns, whichever disks have become unreadable, and it is returned when the disks can be
  read.  Topologies are compared by the hash of their unformatted text, which is assumed not to confuse the new
  topology with another one on the disks.\<close>

theorem topology_quorum_text:
  assumes "even (length ps)" "distinct (map strip_slash ps)"
    and "buckets_topology_save_quorum (json_text True) env fs (map Some ps) t = (BUCKETS_OK, fs')"
    and "topology_fits t" "topology_c_strings t" "in_i32 (tp_generation t)"
    and no_collision: "\<forall>d\<in>set ps. \<forall>u. buckets_topology_load cJSON_Parse rd fs' d = Some u \<longrightarrow>
           topology_hash (json_text False) u = topology_hash (json_text False) t \<longrightarrow> u = t"
  shows "(\<forall>u. buckets_topology_load_quorum (json_text False) cJSON_Parse rd fs' (map Some ps) = Some u \<longrightarrow> u = t) \<and>
         ((\<forall>d\<in>set ps. rd (buckets_get_topology_path d)) \<longrightarrow>
          buckets_topology_load_quorum (json_text False) cJSON_Parse rd fs' (map Some ps) = Some t)"
  by (rule quorum_read_after_write [OF assms(1-3) topology_text [OF assms(4,5)] assms(4,6) no_collision])

text \<open>Four empty disks, one of which cannot be written.\<close>

definition text_env :: "string list \<Rightarrow> string \<Rightarrow> io_env" where
  "text_env broken d = (small_env broken d)\<lparr>io_written := length (json_text True (topology_to_json topo_new))\<rparr>"

theorem topology_quorum_text_witness:
  "\<exists>fs'. buckets_topology_save_quorum (json_text True) (text_env [''/1'']) (\<lambda>_. None)
            (map Some [''/1'', ''/2'', ''/3'', ''/4'']) topo_new = (BUCKETS_OK, fs') \<and>
         buckets_topology_load_quorum (json_text False) cJSON_Parse (\<lambda>_. True) fs'
            (map Some [''/1'', ''/2'', ''/3'', ''/4'']) = Some topo_new"
proof -
  let ?ps = "[''/1'', ''/2'', ''/3'', ''/4'']" and ?E = "text_env [''/1'']"
  obtain ret fs' where s: "buckets_topology_save_quorum (json_text True) ?E (\<lambda>_. None) (map Some ?ps) topo_new = (ret, fs')"
    by fastforce
  have d: "distinct (map strip_slash ?ps)" by (simp add: strip_slash_def)
  note spec = save_all_spec [OF d, of "json_text True" ?E topo_new "\<lambda>_. None"]
  have w: "write_ok (json_text True) ?E topo_new d \<longleftrightarrow> d \<noteq> ''/1''" for d
    by (simp add: write_ok_def buckets_topology_save_def buckets_json_save_def atomic_write_result_def
        buckets_atomic_write_def text_env_def small_env_def Let_def)
  have fs': "ret = BUCKETS_OK" "fs' = snd (save_all (json_text True) ?E topo_new (\<lambda>_. None) (map Some ?ps))"
    using s spec by (auto simp: buckets_topology_save_quorum_def Let_def split_def w split: if_splits)
  have fits: "topology_fits topo_new" "topology_c_strings topo_new" "in_i32 (tp_generation topo_new)"
    by (simp_all add: topology_fits_def topology_c_strings_def topo_new_def buckets_topology_add_pool_def in_i32_def topo_old_def)
  have files: "fs' (buckets_get_topology_path d) \<in> {Some (json_text True (topology_to_json topo_new)), None}" if "d \<in> set ?ps" for d
    using spec that save_blocked [of ?E "''/1''" "json_text True" "\<lambda>_. None" topo_new]
      save_all_spec [of "[''/2'', ''/3'', ''/4'']" "json_text True" ?E topo_new "\<lambda>_. None"]
    by (auto simp: fs'(2) text_env_def small_env_def strip_slash_def Let_def split_def w)
  have "u = topo_new" if p: "d \<in> set ?ps" and u: "buckets_topology_load cJSON_Parse (\<lambda>_. True) fs' d = Some u" for d u
  proof (cases "fs' (buckets_get_topology_path d)")
    case None
    then show ?thesis using u by (simp add: buckets_topology_load_def buckets_json_load_def buckets_atomic_read_def)
  next
    case (Some data)
    then have "fs' (buckets_get_topology_path d) = Some (json_text True (topology_to_json topo_new))"
      using files [OF p] by simp
    from load_written [where parse = cJSON_Parse and pr = "json_text True" and rd = "\<lambda>_. True" and fs = fs' and d = d,
        OF this topology_text [OF fits(1,2)] fits(1,3)] u show ?thesis by simp
  qed
  then have hash: "\<forall>d\<in>set ?ps. \<forall>u. buckets_topology_load cJSON_Parse (\<lambda>_. True) fs' d = Some u \<longrightarrow>
      topology_hash (json_text False) u = topology_hash (json_text False) topo_new \<longrightarrow> u = topo_new" by blast
  have "even (length ?ps)" by simp
  from topology_quorum_text [OF this d s [unfolded fs'(1)] fits hash]
  have "buckets_topology_load_quorum (json_text False) cJSON_Parse (\<lambda>_. True) fs' (map Some ?ps) = Some topo_new" by blast
  then show ?thesis using s fs'(1) by blast
qed


text \<open>Locations: names are C strings, and the generation, the time and the size have at most fifteen digits.\<close>

definition location_text_ok :: "buckets_object_location \<Rightarrow> bool" where
  "location_text_ok l \<longleftrightarrow> location_ok l \<and>
     (\<forall>s. Some s \<in> {ol_bucket l, ol_object l, ol_version_id l} \<longrightarrow> c_string s) \<and>
     uint (ol_generation l) < 10 ^ 15 \<and> \<bar>ol_mod_time l\<bar> < 10 ^ 15 \<and> uint (ol_size l) < 10 ^ 15"

lemma u32_digits: "\<bar>uint (w :: u32)\<bar> < 10 ^ 15"
  using uint_lt2p [of w] by simp

lemma location_text:
  assumes "location_text_ok l" "buckets_registry_location_to_json l = Ok j"
  shows "cJSON_Parse (json_text formatted j) = Some j"
proof -
  obtain b obj v where n: "ol_bucket l = Some b" "ol_object l = Some obj" "ol_version_id l = Some v"
    using assms(1) by (auto simp: location_text_ok_def location_ok_def)
  have "json_within (Suc (Suc 0)) j"
    using assms n u32_digits [simplified]
    by (auto simp: buckets_registry_location_to_json_def location_text_ok_def json_simps Let_def split: if_splits)
  then show ?thesis by (rule json_within_text) simp
qed

text \<open>C12: a location is read back from its JSON text with every number saturated to the range of \<^verbatim>\<open>int\<close>.
  The location is unchanged exactly if the indices, the generation and the size are below \<open>2 ^ 31\<close> and the
  time is in range: the size of an object of two gigabytes or more is lost.\<close>

theorem registry_location_text:
  assumes "location_text_ok l"
  shows "(\<exists>j. buckets_registry_location_to_json l = Ok j \<and>
              buckets_registry_location_from_json cJSON_Parse (json_text False j) = Some (location_saturated l)) \<and>
         (location_saturated l = l \<longleftrightarrow> location_fits l)"
  using registry_location_roundtrip [OF _ location_text [OF assms]] assms by (auto simp: location_text_ok_def)

text \<open>C3: what was recorded is found.  After a location has been recorded, a lookup under the same names - at any
  later time, whether the cache still has the entry, has let it expire or is switched off - succeeds and returns that
  location, up to the saturation of its numbers, through the JSON text in the object layer.\<close>

theorem registry_lookup_text:
  assumes "layer_ok layer" "registry_wf g" "location_text_ok l"
    and "buckets_registry_record layer (json_text False) now st g l = Ok (0, st', g')"
  shows "\<exists>l' g''. buckets_registry_lookup layer cJSON_Parse now' st' g' (ol_bucket l) (ol_object l) (ol_version_id l) =
           Ok (0, Some l', g'') \<and> location_saturated l' = location_saturated l \<and> registry_wf g''"
  by (rule registry_lookup_after_record [OF assms(1) location_text [OF assms(3)] assms(2) _ assms(4)])
    (use assms(3) in \<open>simp_all add: location_text_ok_def\<close>)

text \<open>C2: the cache never contradicts the storage.  If every cached location is what the storage holds under its key
  as JSON text, up to the saturation of numbers, then this is still so after a successful record, after a lookup and
  after a delete, for names whose key fits the buffer of the storage key; and every location a lookup returns is what
  the storage holds.\<close>

theorem registry_coherence_text:
  assumes "layer_ok layer" "registry_coherent layer cJSON_Parse st g"
    and "key = b @ ''/'' @ obj @ ''/'' @ v" "length key < 1019"
  shows "(\<forall>l now st' g'. location_text_ok l \<and> (ol_bucket l, ol_object l, ol_version_id l) = (Some b, Some obj, Some v) \<and>
            buckets_registry_record layer (json_text False) now st g l = Ok (0, st', g') \<longrightarrow>
              registry_coherent layer cJSON_Parse st' g') \<and>
         (\<forall>now r res g'. buckets_registry_lookup layer cJSON_Parse now st g (Some b) (Some obj) (Some v) = Ok (r, res, g') \<longrightarrow>
            registry_coherent layer cJSON_Parse st g' \<and> (\<forall>l. res = Some l \<longrightarrow> stored layer cJSON_Parse st key l)) \<and>
         (\<forall>r st' g'. buckets_registry_delete layer st g (Some b) (Some obj) (Some v) = Ok (r, st', g') \<longrightarrow>
            registry_coherent layer cJSON_Parse st' g')"
proof -
  note coherence = registry_coherence [OF assms, of "json_text False"]
  have "registry_coherent layer cJSON_Parse st' g'"
    if l: "location_text_ok l" "(ol_bucket l, ol_object l, ol_version_id l) = (Some b, Some obj, Some v)"
      "buckets_registry_record layer (json_text False) now st g l = Ok (0, st', g')" for l now st' g'
  proof -
    have "location_ok l" using l(1) by (simp add: location_text_ok_def)
    then show ?thesis using l location_text [OF l(1)]
      by (intro coherence [THEN conjunct1, rule_format, of l now st' g']) simp
  qed
  then show ?thesis by (intro conjI coherence [THEN conjunct2, THEN conjunct1] coherence [THEN conjunct2, THEN conjunct2]) blast
qed

lemma small_location_text: "location_text_ok small_location"
  using small_location_ok by (auto simp: location_text_ok_def small_location_def)

theorem registry_location_text_witness:
  "(\<exists>j. buckets_registry_location_to_json small_location = Ok j \<and>
        buckets_registry_location_from_json cJSON_Parse (json_text False j) = Some (location_saturated small_location)) \<and>
   (location_saturated small_location = small_location \<longleftrightarrow> location_fits small_location)"
  by (rule registry_location_text [OF small_location_text])

lemma small_registry_coherent: "registry_coherent small_layer cJSON_Parse Map.empty small_registry"
  using cache_create_wf [of 4 300]
  by (simp add: registry_coherent_def small_registry_def buckets_registry_init_def cache_view_def)

lemma small_registry_record:
  obtains st' g' where "buckets_registry_record small_layer (json_text False) 100 Map.empty small_registry small_location =
     Ok (0, st', g')"
proof -
  obtain j where j: "buckets_registry_location_to_json small_location = Ok j"
    using location_json_tree [OF small_location_ok] by blast
  have "registry_wf small_registry" using small_registry_coherent by (simp add: registry_coherent_def registry_wf_def)
  then obtain g' where "registry_cache_put 100 small_registry ''b/o/v'' small_location = Ok g'"
    using registry_cache_put_wf by blast
  with j that show ?thesis
    by (simp add: buckets_registry_record_def small_layer_def)
      (simp add: small_registry_def buckets_registry_init_def small_location_def buckets_registry_build_key_def)
qed

theorem registry_lookup_text_witness:
  "\<exists>st' g' l' g''. buckets_registry_record small_layer (json_text False) 100 Map.empty small_registry small_location =
       Ok (0, st', g') \<and>
     buckets_registry_lookup small_layer cJSON_Parse 500 st' g' (ol_bucket small_location)
       (ol_object small_location) (ol_version_id small_location) = Ok (0, Some l', g'') \<and>
     location_saturated l' = location_saturated small_location"
proof -
  obtain st' g' where r: "buckets_registry_record small_layer (json_text False) 100 Map.empty small_registry small_location =
      Ok (0, st', g')" by (rule small_registry_record)
  have "registry_wf small_registry" using small_registry_coherent by (simp add: registry_coherent_def registry_wf_def)
  from registry_lookup_text [OF small_layer_ok this small_location_text r, of 500]
  show ?thesis using r by blast
qed

theorem registry_coherence_text_witness:
  "\<exists>st' g'. buckets_registry_record small_layer (json_text False) 100 Map.empty small_registry small_location =
     Ok (0, st', g') \<and> registry_coherent small_layer cJSON_Parse st' g'"
proof -
  obtain st' g' where r: "buckets_registry_record small_layer (json_text False) 100 Map.empty small_registry small_location =
      Ok (0, st', g')" by (rule small_registry_record)
  then have "registry_coherent small_layer cJSON_Parse st' g'"
    using small_location_text small_location_names
      registry_coherence_text [OF small_layer_ok small_registry_coherent, of "''b/o/v''" "''b''" "''o''" "''v''",
        THEN conjunct1, rule_format, of small_location 100 st' g'] by simp
  with r show ?thesis by blast
qed


text \<open>C11: a checkpoint restores a job.  If the numbers of the job have at most fifteen digits and its name is a C
  string, then loading after a successful save returns the name, the generations, the state and the counters of the
  job from the JSON text of the checkpoint.  Moreover, in every state the files pass through while the checkpoint is
  saved, successful or not, loading gives what it gave before or the new checkpoint.\<close>

theorem migration_checkpoint_text:
  assumes "length (mj_job_id job) < 64" "c_string (mj_job_id job)" "\<And>n. mj_state job \<noteq> Other_State n"
    and "list_all (\<lambda>n. \<bar>n\<bar> < 10 ^ 15) (now # job_numbers job)" "rd file"
  shows "(\<forall>files'. buckets_migration_job_save (json_text True) now env job files (Some file) = (BUCKETS_OK, files') \<longrightarrow>
            buckets_migration_job_load cJSON_Parse rd files' (Some file) = Ok (Some (restored job))) \<and>
         (\<forall>files' \<in> set (snd (buckets_atomic_write env files file (json_text True (checkpoint_json now job)))).
            buckets_migration_job_load cJSON_Parse rd files' (Some file) =
              buckets_migration_job_load cJSON_Parse rd files (Some file) \<or>
            buckets_migration_job_load cJSON_Parse rd files' (Some file) = Ok (Some (restored job)))"
proof (rule migration_checkpoint_roundtrip)
  have small: "double_of_int n = n" if "\<bar>n\<bar> < 10 ^ 15" for n using that by simp
  have code: "\<bar>state_code (mj_state job)\<bar> < 10 ^ 15" using assms(3) by (cases "mj_state job") auto
  have "json_within (Suc 0) (checkpoint_json now job)"
    using assms(2,4) code by (simp add: checkpoint_json_def job_numbers_def small)
  then show "cJSON_Parse (json_text True (checkpoint_json now job)) = Some (checkpoint_json now job)"
    by (rule json_within_text) simp
  show "list_all (\<lambda>n. \<bar>n\<bar> \<le> 2 ^ 53) (job_numbers job)" using assms(4) by (auto simp: list_all_iff)
qed (use assms in simp_all)

theorem migration_checkpoint_text_witness:
  "\<exists>n files. buckets_migration_job_save (json_text True) 9 (small_io n) small_job (\<lambda>_. None) (Some ''/c'') = (BUCKETS_OK, files) \<and>
     buckets_migration_job_load cJSON_Parse (\<lambda>_. True) files (Some ''/c'') = Ok (Some (restored small_job))"
proof -
  let ?n = "length (json_text True (checkpoint_json 9 small_job))"
  obtain files where save: "buckets_migration_job_save (json_text True) 9 (small_io ?n) small_job (\<lambda>_. None) (Some ''/c'') = (BUCKETS_OK, files)"
    by (simp add: buckets_migration_job_save_def atomic_write_result_def buckets_atomic_write_def small_io_def Let_def)
  have "length (mj_job_id small_job) < 64" "c_string (mj_job_id small_job)" "\<And>n. mj_state small_job \<noteq> Other_State n"
      "list_all (\<lambda>n. \<bar>n\<bar> < 10 ^ 15) (9 # job_numbers small_job)"
    by (simp_all add: small_job_def zero_job_def job_numbers_def)
  from migration_checkpoint_text [OF this, of "\<lambda>_. True" "''/c''" "small_io ?n" "\<lambda>_. None"] save
  show ?thesis by blast
qed


end
